(* ===== verification/Prelude.thy ===== *)
theory Prelude
  imports Main "HOL-Library.Word" "HOL-Library.List_Lexorder" "HOL-Library.Sublist"
    "HOL-Library.Signed_Division" "HOL-Library.Code_Target_Nat"
begin

text \<open>
  Shared vocabulary of the development.
  \<^item> Machine integers of the Rust source as words, and the range predicate of \<open>i64\<close> for the
    components that compute on timestamps as integers.
  \<^item> The outcome of a fallible Rust call: a value, an error, or a panic (an \<open>unwrap\<close> of
    \<open>None\<close>, a failed \<open>assert!\<close>, an index out of range, or an arithmetic overflow; the
    workspace builds every profile with \<^verbatim>\<open>overflow-checks = true\<close>).
  \<^item> The order of byte strings: Rust compares slices lexicographically, which is the order that
    \<^verbatim>\<open>List_Lexorder\<close> gives to lists.
  \<^item> Big-endian bytes of fixed-width numbers.
\<close>

section \<open>Machine integers\<close>

type_synonym u8 = "8 word"
type_synonym u16 = "16 word"
type_synonym u32 = "32 word"
type_synonym u64 = "64 word"

named_theorems result_simps \<open>unfolding a chain of fallible calls\<close>
named_theorems byte_order \<open>order of byte strings\<close>

abbreviation i64_min :: int where
  "i64_min \<equiv> - 9223372036854775808"

abbreviation i64_max :: int where
  "i64_max \<equiv> 9223372036854775807"

definition in_i64 :: "int \<Rightarrow> bool" where
  "in_i64 x \<longleftrightarrow> i64_min \<le> x \<and> x \<le> i64_max"

abbreviation u64_max :: nat where
  "u64_max \<equiv> 18446744073709551615"

text \<open>The checked operations of \<open>i64\<close>: \<open>None\<close> when the result does not fit.\<close>

definition i64_checked :: "int \<Rightarrow> int option" where
  "i64_checked x = (if in_i64 x then Some x else None)"

lemma i64_checked_eq_Some [simp]: "i64_checked x = Some y \<longleftrightarrow> x = y \<and> in_i64 y"
  by (auto simp: i64_checked_def)

lemma i64_checked_eq_None [simp]: "i64_checked x = None \<longleftrightarrow> \<not> in_i64 x"
  by (auto simp: i64_checked_def)

section \<open>Outcomes of fallible calls\<close>

datatype ('e, 'a) result = Ok 'a | Err 'e | Panic

primrec res_bind :: "('e, 'a) result \<Rightarrow> ('a \<Rightarrow> ('e, 'b) result) \<Rightarrow> ('e, 'b) result" where
  "res_bind (Ok x) f = f x"
| "res_bind (Err e) f = Err e"
| "res_bind Panic f = Panic"

text \<open>\<open>.context(C)\<close> of snafu: wrap the error of a call.\<close>

primrec res_ctx :: "('d \<Rightarrow> 'e) \<Rightarrow> ('d, 'a) result \<Rightarrow> ('e, 'a) result" where
  "res_ctx c (Ok x) = Ok x"
| "res_ctx c (Err e) = Err (c e)"
| "res_ctx c Panic = Panic"

lemma res_bind_eq_Ok [result_simps]:
  "res_bind m f = Ok y \<longleftrightarrow> (\<exists>x. m = Ok x \<and> f x = Ok y)"
  by (cases m) auto

lemma res_ctx_eq_Ok [result_simps]: "res_ctx c m = Ok y \<longleftrightarrow> m = Ok y"
  by (cases m) auto

lemma res_bind_eq_Panic [result_simps]:
  "res_bind m f = Panic \<longleftrightarrow> m = Panic \<or> (\<exists>x. m = Ok x \<and> f x = Panic)"
  by (cases m) auto

lemma res_ctx_eq_Panic [result_simps]: "res_ctx c m = Panic \<longleftrightarrow> m = Panic"
  by (cases m) auto

text \<open>Running a fallible step over a list, stopping at the first failure (a \<open>for\<close> loop with \<open>?\<close>).\<close>

fun res_fold :: "('a \<Rightarrow> 's \<Rightarrow> ('e, 's) result) \<Rightarrow> 'a list \<Rightarrow> 's \<Rightarrow> ('e, 's) result" where
  "res_fold f [] s = Ok s"
| "res_fold f (x # xs) s = res_bind (f x s) (res_fold f xs)"

lemma res_fold_append:
  "res_fold f (xs @ ys) s = res_bind (res_fold f xs s) (res_fold f ys)"
proof (induction xs arbitrary: s)
  case (Cons x xs)
  then show ?case by (cases "f x s") auto
qed simp

lemma res_fold_inv:
  assumes "res_fold f xs s = Ok s'" and "I s"
    and "\<And>x t t'. x \<in> set xs \<Longrightarrow> I t \<Longrightarrow> f x t = Ok t' \<Longrightarrow> I t'"
  shows "I s'"
  using assms by (induction xs arbitrary: s) (auto simp: res_bind_eq_Ok)

lemma res_fold_total:
  assumes "\<And>x t. x \<in> set xs \<Longrightarrow> \<exists>t'. f x t = Ok t'"
  shows "\<exists>s'. res_fold f xs s = Ok s'"
  using assms by (induction xs arbitrary: s) (auto simp: res_bind_eq_Ok, metis)

lemma res_bind_assoc: "res_bind (res_bind m f) g = res_bind m (\<lambda>x. res_bind (f x) g)"
  by (cases m) simp_all

lemma res_fold_cong: "(\<And>x s. x \<in> set xs \<Longrightarrow> f x s = g x s) \<Longrightarrow> res_fold f xs s = res_fold g xs s"
proof (induction xs arbitrary: s)
  case (Cons x xs)
  then have "res_fold f xs = res_fold g xs" by (intro ext) simp
  then show ?case using Cons(2) by simp
qed simp

text \<open>Indexing a slice panics out of range.\<close>

text \<open>A loop that pushes one result per element.\<close>

lemma res_fold_collect:
  "res_fold (\<lambda>x acc. res_bind (f x) (\<lambda>y. Ok (acc @ [y]))) xs acc = Ok r \<longleftrightarrow>
     (\<exists>ys. r = acc @ ys \<and> list_all2 (\<lambda>x y. f x = Ok y) xs ys)"
proof (induction xs arbitrary: acc)
  case (Cons x xs)
  show ?case
  proof (cases "f x")
    case (Ok y)
    then show ?thesis by (auto simp: Cons list_all2_Cons1)
  qed (auto simp: list_all2_Cons1)
qed auto

definition index_res :: "'a list \<Rightarrow> nat \<Rightarrow> ('e, 'a) result" where
  "index_res xs i = (if i < length xs then Ok (xs ! i) else Panic)"

lemma index_res_eq_Ok [result_simps]: "index_res xs i = Ok y \<longleftrightarrow> i < length xs \<and> y = xs ! i"
  by (auto simp: index_res_def)

section \<open>Byte strings in lexicographic order\<close>

lemma less_append_same [byte_order, simp]:
  fixes xs :: "'a::linorder list"
  shows "xs @ ys < xs @ zs \<longleftrightarrow> ys < zs"
  by (induction xs) auto

lemma less_append_diverge [byte_order]:
  fixes xs :: "'a::linorder list"
  assumes "xs < ys" and "\<not> prefix xs ys"
  shows "xs @ us < ys @ vs"
  using assms
proof (induction xs arbitrary: ys)
  case Nil
  then show ?case by simp
next
  case (Cons x xs)
  then obtain y ys' where ys: "ys = y # ys'" by (cases ys) auto
  show ?case
  proof (cases "x = y")
    case True
    with Cons.prems ys have "xs < ys'" and "\<not> prefix xs ys'" by auto
    then have "xs @ us < ys' @ vs" by (rule Cons.IH)
    with ys True show ?thesis by simp
  next
    case False
    with Cons.prems ys show ?thesis by auto
  qed
qed

lemma less_append_same_length [byte_order]:
  fixes xs :: "'a::linorder list"
  assumes "xs < ys" and "length xs = length ys"
  shows "xs @ us < ys @ vs"
proof (rule less_append_diverge [OF assms(1)])
  show "\<not> prefix xs ys"
    using assms by (auto simp: prefix_def)
qed

lemma less_Cons_iff [byte_order]:
  fixes x :: "'a::linorder"
  shows "x # xs < y # ys \<longleftrightarrow> x < y \<or> x = y \<and> xs < ys"
  by auto

section \<open>Big-endian bytes\<close>

fun be_bytes :: "nat \<Rightarrow> nat \<Rightarrow> u8 list" where
  "be_bytes 0 v = []"
| "be_bytes (Suc n) v = be_bytes n (v div 256) @ [of_nat v]"

fun be_value :: "nat \<Rightarrow> u8 list \<Rightarrow> nat" where
  "be_value acc [] = acc"
| "be_value acc (b # bs) = be_value (acc * 256 + unat b) bs"

lemma length_be_bytes [simp]: "length (be_bytes n v) = n"
  by (induction n arbitrary: v) auto

lemma be_value_append [simp]: "be_value acc (xs @ ys) = be_value (be_value acc xs) ys"
  by (induction xs arbitrary: acc) auto

lemma unat_of_nat_u8: "unat (of_nat v :: u8) = v mod 256"
  by (simp add: unat_of_nat)

lemma mod_256_pow_Suc: "(v div 256) mod 256 ^ n * 256 + v mod 256 = v mod 256 ^ Suc n" for v :: nat
proof -
  have "v mod (256 * 256 ^ n) = 256 * (v div 256 mod 256 ^ n) + v mod 256"
    by (rule mod_mult2_eq)
  then show ?thesis by simp
qed

lemma be_value_bytes: "be_value 0 (be_bytes n v) = v mod 256 ^ n"
  by (induction n arbitrary: v) (simp_all add: unat_of_nat_u8 mod_256_pow_Suc del: power_Suc)

lemma be_bytes_less:
  assumes "v < w" and "w < 256 ^ n"
  shows "be_bytes n v < be_bytes n w"
  using assms
proof (induction n arbitrary: v w)
  case 0
  then show ?case by simp
next
  case (Suc n)
  have le: "v div 256 \<le> w div 256" using Suc.prems(1) by (simp add: div_le_mono)
  show ?case
  proof (cases "v div 256 = w div 256")
    case True
    with Suc.prems(1) have "v mod 256 < w mod 256"
      by (metis div_mult_mod_eq nat_add_left_cancel_less)
    then have "(of_nat v :: u8) < of_nat w"
      by (simp add: word_less_nat_alt unat_of_nat_u8)
    with True show ?thesis by simp
  next
    case False
    with le have "v div 256 < w div 256" by simp
    moreover have "w div 256 < 256 ^ n"
      using Suc.prems(2) by (simp add: less_mult_imp_div_less mult.commute)
    ultimately have "be_bytes n (v div 256) < be_bytes n (w div 256)" by (rule Suc.IH)
    then show ?thesis by (simp add: less_append_same_length)
  qed
qed

lemma be_bytes_inject:
  assumes "be_bytes n v = be_bytes n w" and "v < 256 ^ n" and "w < 256 ^ n"
  shows "v = w"
  using assms by (metis be_value_bytes mod_less)

text \<open>\<open>to_be_bytes\<close> and \<open>from_be_bytes\<close> of the widths the source uses.\<close>

definition u64_to_be :: "u64 \<Rightarrow> u8 list" where
  "u64_to_be x = be_bytes 8 (unat x)"

definition u64_from_be :: "u8 list \<Rightarrow> u64" where
  "u64_from_be bs = of_nat (be_value 0 bs)"

definition u32_to_be :: "u32 \<Rightarrow> u8 list" where
  "u32_to_be x = be_bytes 4 (unat x)"

definition u32_from_be :: "u8 list \<Rightarrow> u32" where
  "u32_from_be bs = of_nat (be_value 0 bs)"

lemma length_u64_to_be [simp]: "length (u64_to_be x) = 8"
  by (simp add: u64_to_be_def)

lemma length_u32_to_be [simp]: "length (u32_to_be x) = 4"
  by (simp add: u32_to_be_def)

lemma unat_u64_less [simp]: "unat (x :: u64) < 256 ^ 8"
  using unsigned_less [of x] by simp

lemma unat_u32_less [simp]: "unat (x :: u32) < 256 ^ 4"
  using unsigned_less [of x] by simp

lemma u64_from_to_be [simp]: "u64_from_be (u64_to_be x) = x"
  using unat_u64_less [of x]
  by (simp add: u64_from_be_def u64_to_be_def be_value_bytes del: unat_u64_less)

lemma u32_from_to_be [simp]: "u32_from_be (u32_to_be x) = x"
  using unat_u32_less [of x]
  by (simp add: u32_from_be_def u32_to_be_def be_value_bytes del: unat_u32_less)

lemma u64_to_be_less [byte_order]: "x < y \<Longrightarrow> u64_to_be x < u64_to_be y"
  using unat_u64_less [of y] unfolding u64_to_be_def
  by (intro be_bytes_less) (auto simp: word_less_nat_alt)

lemma u32_to_be_less [byte_order]: "x < y \<Longrightarrow> u32_to_be x < u32_to_be y"
  using unat_u32_less [of y] unfolding u32_to_be_def
  by (intro be_bytes_less) (auto simp: word_less_nat_alt)

end
