(* ===== verification/Bytes_Ext.thy ===== *)
theory Bytes_Ext
  imports Prelude
begin

text \<open>
  The byte buffers of \<^verbatim>\<open>components/bytes_ext\<close>. A write buffer is what has been written and
  the value of \<open>remaining_mut()\<close>, which every \<open>BufMut\<close> of the source (a growing vector as well
  as a fixed slice) decreases by the number of bytes put. A read buffer is the list of bytes that
  remain; the source decodes from contiguous buffers (\<open>&[u8]\<close>, \<open>Bytes\<close>, \<open>BytesMut\<close>), whose
  \<open>chunk()\<close> is all that remains. Where a call fails, its partly advanced buffer is dropped.

  The second part states the interface behind the traits \<open>Encoder\<close>, \<open>Decoder\<close> and
  \<open>DecodeTo\<close> of \<^verbatim>\<open>common_util/src/codec/mod.rs\<close> as a locale: what a value's encoding is, that
  encoding appends exactly it, and that decoding it gives the value back and leaves the rest.
\<close>

section \<open>Buffers\<close>

datatype bytes_error = UnexpectedEof | WouldOverflow

record buf_mut =
  bm_data :: "u8 list"
  bm_remaining :: nat

definition bm_append :: "buf_mut \<Rightarrow> u8 list \<Rightarrow> buf_mut" where
  "bm_append b src =
     b\<lparr>bm_data := bm_data b @ src, bm_remaining := bm_remaining b - length src\<rparr>"

definition try_put :: "buf_mut \<Rightarrow> u8 list \<Rightarrow> (bytes_error, buf_mut) result" where
  "try_put b src =
     (if length src \<le> bm_remaining b then Ok (bm_append b src) else Err WouldOverflow)"

definition try_put_u8 :: "buf_mut \<Rightarrow> u8 \<Rightarrow> (bytes_error, buf_mut) result" where
  "try_put_u8 b n = try_put b [n]"

definition try_put_u32 :: "buf_mut \<Rightarrow> u32 \<Rightarrow> (bytes_error, buf_mut) result" where
  "try_put_u32 b n = try_put b (u32_to_be n)"

definition try_put_u64 :: "buf_mut \<Rightarrow> u64 \<Rightarrow> (bytes_error, buf_mut) result" where
  "try_put_u64 b n = try_put b (u64_to_be n)"

definition try_advance :: "u8 list \<Rightarrow> nat \<Rightarrow> (bytes_error, u8 list) result" where
  "try_advance bs cnt = (if cnt \<le> length bs then Ok (drop cnt bs) else Err UnexpectedEof)"

definition try_copy_to_slice :: "u8 list \<Rightarrow> nat \<Rightarrow> (bytes_error, u8 list \<times> u8 list) result" where
  "try_copy_to_slice bs n =
     (if n \<le> length bs then Ok (take n bs, drop n bs) else Err UnexpectedEof)"

definition try_get_u8 :: "u8 list \<Rightarrow> (bytes_error, u8 \<times> u8 list) result" where
  "try_get_u8 bs =
     res_bind (try_copy_to_slice bs 1) (\<lambda>(buf, rest). Ok (buf ! 0, rest))"

definition try_get_u32 :: "u8 list \<Rightarrow> (bytes_error, u32 \<times> u8 list) result" where
  "try_get_u32 bs =
     res_bind (try_copy_to_slice bs 4) (\<lambda>(buf, rest). Ok (u32_from_be buf, rest))"

definition try_get_u64 :: "u8 list \<Rightarrow> (bytes_error, u64 \<times> u8 list) result" where
  "try_get_u64 bs =
     res_bind (try_copy_to_slice bs 8) (\<lambda>(buf, rest). Ok (u64_from_be buf, rest))"

lemmas try_put_defs = try_put_u8_def try_put_u32_def try_put_u64_def try_put_def
lemmas try_get_defs = try_get_u8_def try_get_u32_def try_get_u64_def try_copy_to_slice_def

lemma bm_append_Nil [simp]: "bm_append b [] = b"
  by (simp add: bm_append_def)

lemma bm_append_append [simp]: "bm_append (bm_append b xs) ys = bm_append b (xs @ ys)"
  by (simp add: bm_append_def)

lemma bm_data_append [simp]: "bm_data (bm_append b xs) = bm_data b @ xs"
  by (simp add: bm_append_def)

lemma bm_remaining_append [simp]: "bm_remaining (bm_append b xs) = bm_remaining b - length xs"
  by (simp add: bm_append_def)

lemma try_put_ok [simp]:
  "length src \<le> bm_remaining b \<Longrightarrow> try_put b src = Ok (bm_append b src)"
  by (simp add: try_put_def)

lemma try_put_u8_ok [simp]: "0 < bm_remaining b \<Longrightarrow> try_put_u8 b n = Ok (bm_append b [n])"
  by (simp add: try_put_u8_def)

lemma try_put_u32_ok [simp]:
  "4 \<le> bm_remaining b \<Longrightarrow> try_put_u32 b n = Ok (bm_append b (u32_to_be n))"
  by (simp add: try_put_u32_def)

lemma try_put_u64_ok [simp]:
  "8 \<le> bm_remaining b \<Longrightarrow> try_put_u64 b n = Ok (bm_append b (u64_to_be n))"
  by (simp add: try_put_u64_def)

lemma try_put_not_Panic [simp]: "try_put b src \<noteq> Panic" "try_put_u8 b n \<noteq> Panic"
  "try_put_u32 b m \<noteq> Panic" "try_put_u64 b k \<noteq> Panic"
  by (simp_all add: try_put_defs)

lemma try_get_u8_Cons [simp]: "try_get_u8 (n # rest) = Ok (n, rest)"
  by (simp add: try_get_defs)

lemma try_get_u8_Nil [simp]: "try_get_u8 [] = Err UnexpectedEof"
  by (simp add: try_get_defs)

lemma try_get_u32_append [simp]: "try_get_u32 (u32_to_be n @ rest) = Ok (n, rest)"
  by (simp add: try_get_defs)

lemma try_get_u64_append [simp]: "try_get_u64 (u64_to_be n @ rest) = Ok (n, rest)"
  by (simp add: try_get_defs)

lemma try_get_not_Panic [simp]:
  "try_get_u8 bs \<noteq> Panic" "try_get_u32 bs \<noteq> Panic" "try_get_u64 bs \<noteq> Panic"
  by (simp_all add: try_get_defs)

section \<open>The interface of encoders and decoders\<close>

locale codec =
  fixes enc :: "buf_mut \<Rightarrow> 'v \<Rightarrow> ('e, buf_mut) result"
    and dec :: "u8 list \<Rightarrow> ('d, 'v \<times> u8 list) result"
    and repr :: "'v \<Rightarrow> u8 list"
    and valid :: "'v \<Rightarrow> bool"
  assumes enc_ok: "valid v \<Longrightarrow> length (repr v) \<le> bm_remaining b \<Longrightarrow> enc b v = Ok (bm_append b (repr v))"
    and dec_ok: "valid v \<Longrightarrow> dec (repr v @ rest) = Ok (v, rest)"
begin

lemma round_trip:
  assumes "valid v" and "length (repr v) \<le> bm_remaining b" and "bm_data b = []"
  shows "\<exists>b'. enc b v = Ok b' \<and> dec (bm_data b' @ rest) = Ok (v, rest)"
  using assms by (simp add: enc_ok dec_ok)

lemma repr_inject: "valid v \<Longrightarrow> valid w \<Longrightarrow> repr v = repr w \<Longrightarrow> v = w"
  using dec_ok [of v "[]"] dec_ok [of w "[]"] by simp

text \<open>No encoding is a proper prefix of another: a decoder knows where a value ends.\<close>

lemma prefix_free:
  assumes "valid v" and "valid w" and "prefix (repr v) (repr w)"
  shows "v = w"
proof -
  from assms(3) obtain r where "repr w = repr v @ r" by (auto simp: prefix_def)
  then have "dec (repr w @ []) = Ok (v, r)" using dec_ok [OF assms(1), of r] by simp
  with dec_ok [OF assms(2), of "[]"] show ?thesis by simp
qed

lemma append_inject:
  assumes "valid v" and "valid w" and "repr v @ r = repr w @ s"
  shows "v = w \<and> r = s"
proof -
  have "Ok (v, r) = dec (repr w @ s)"
    unfolding assms(3) [symmetric] by (rule dec_ok [OF assms(1), symmetric])
  also have "\<dots> = Ok (w, s)" by (rule dec_ok [OF assms(2)])
  finally show ?thesis by simp
qed

end

text \<open>A codec whose encoding keeps an order of the values.\<close>

locale ordered_codec = codec enc dec repr valid
  for enc :: "buf_mut \<Rightarrow> 'v \<Rightarrow> ('e, buf_mut) result"
    and dec :: "u8 list \<Rightarrow> ('d, 'v \<times> u8 list) result"
    and repr :: "'v \<Rightarrow> u8 list"
    and valid :: "'v \<Rightarrow> bool" +
  fixes lt :: "'v \<Rightarrow> 'v \<Rightarrow> bool"
  assumes lt_irrefl: "\<not> lt v v"
    and repr_less: "valid v \<Longrightarrow> valid w \<Longrightarrow> lt v w \<Longrightarrow> repr v < repr w"
    and lt_total: "valid v \<Longrightarrow> valid w \<Longrightarrow> v \<noteq> w \<Longrightarrow> lt v w \<or> lt w v"
begin

lemma repr_less_append:
  assumes "valid v" and "valid w" and "lt v w"
  shows "repr v @ r < repr w @ s"
proof (rule less_append_diverge)
  show "repr v < repr w" using assms by (rule repr_less)
  show "\<not> prefix (repr v) (repr w)"
    using assms prefix_free lt_irrefl by blast
qed

lemma repr_append_less_iff:
  assumes "valid v" and "valid w"
  shows "repr v @ r < repr w @ s \<longleftrightarrow> lt v w \<or> v = w \<and> r < s"
proof -
  consider "v = w" | "v \<noteq> w" "lt v w" | "v \<noteq> w" "\<not> lt v w" "lt w v"
    using lt_total [OF assms] by blast
  then show ?thesis
  proof cases
    case 1
    then show ?thesis by (simp add: lt_irrefl)
  next
    case 2
    then show ?thesis using repr_less_append [OF assms] by blast
  next
    case 3
    then have "repr w @ s < repr v @ r" using repr_less_append [OF assms(2,1)] by blast
    then have "\<not> repr v @ r < repr w @ s" by (rule less_not_sym)
    with 3 show ?thesis by blast
  qed
qed

lemma repr_less_iff:
  assumes "valid v" and "valid w"
  shows "repr v < repr w \<longleftrightarrow> lt v w"
  using repr_append_less_iff [OF assms, of "[]" "[]"] by simp

end

end
