(* ===== verification/Datum.thy ===== *)
theory Datum
  imports Bytes_Ext
begin

unbundle bit_operations_syntax

text \<open>
  Values and their kinds, \<^verbatim>\<open>common_types/src/datum.rs\<close>. Signed integers (and \<open>Timestamp\<close>,
  \<open>Date\<close>, \<open>Time\<close>) are carried as their bit patterns and read by \<open>sint\<close>; floats are their IEEE
  754 bit patterns, compared as IEEE does; strings are their UTF-8 bytes. The derived \<open>PartialOrd\<close>
  of the source is \<open>partial_cmp\<close>: the variant first, then the payload.
\<close>

section \<open>Kinds\<close>

datatype datum_kind =
  K_Null
| K_Timestamp
| K_Double
| K_Float
| K_Varbinary
| K_String
| K_UInt64
| K_UInt32
| K_UInt16
| K_UInt8
| K_Int64
| K_Int32
| K_Int16
| K_Int8
| K_Boolean
| K_Date
| K_Time

definition datum_kind_values :: "datum_kind list" where
  "datum_kind_values =
     [K_Null, K_Timestamp, K_Double, K_Float, K_Varbinary, K_String, K_UInt64, K_UInt32, K_UInt16,
      K_UInt8, K_Int64, K_Int32, K_Int16, K_Int8, K_Boolean, K_Date, K_Time]"

definition is_timestamp_kind :: "datum_kind \<Rightarrow> bool" where
  "is_timestamp_kind k \<longleftrightarrow> k = K_Timestamp"

definition is_f64_castable :: "datum_kind \<Rightarrow> bool" where
  "is_f64_castable k \<longleftrightarrow>
     k \<in> {K_Double, K_Float, K_UInt64, K_UInt32, K_UInt16, K_UInt8, K_Int64, K_Int32, K_Int16, K_Int8}"

fun is_key_kind :: "datum_kind \<Rightarrow> bool" where
  "is_key_kind K_Null \<longleftrightarrow> False"
| "is_key_kind K_Double \<longleftrightarrow> False"
| "is_key_kind K_Float \<longleftrightarrow> False"
| "is_key_kind _ \<longleftrightarrow> True"

fun unsign_kind :: "datum_kind \<Rightarrow> datum_kind option" where
  "unsign_kind K_Int64 = Some K_UInt64"
| "unsign_kind K_UInt64 = Some K_UInt64"
| "unsign_kind K_Int32 = Some K_UInt32"
| "unsign_kind K_UInt32 = Some K_UInt32"
| "unsign_kind K_Int16 = Some K_UInt16"
| "unsign_kind K_UInt16 = Some K_UInt16"
| "unsign_kind K_Int8 = Some K_UInt8"
| "unsign_kind K_UInt8 = Some K_UInt8"
| "unsign_kind _ = None"

primrec into_u8 :: "datum_kind \<Rightarrow> u8" where
  "into_u8 K_Null = 0"
| "into_u8 K_Timestamp = 1"
| "into_u8 K_Double = 2"
| "into_u8 K_Float = 3"
| "into_u8 K_Varbinary = 4"
| "into_u8 K_String = 5"
| "into_u8 K_UInt64 = 6"
| "into_u8 K_UInt32 = 7"
| "into_u8 K_UInt16 = 8"
| "into_u8 K_UInt8 = 9"
| "into_u8 K_Int64 = 10"
| "into_u8 K_Int32 = 11"
| "into_u8 K_Int16 = 12"
| "into_u8 K_Int8 = 13"
| "into_u8 K_Boolean = 14"
| "into_u8 K_Date = 15"
| "into_u8 K_Time = 16"

text \<open>\<open>DatumKind::size\<close>: \<open>None\<close> for the kinds of variable length.\<close>

primrec datum_kind_size :: "datum_kind \<Rightarrow> nat option" where
  "datum_kind_size K_Null = Some 0"
| "datum_kind_size K_Timestamp = Some 8"
| "datum_kind_size K_Double = Some 8"
| "datum_kind_size K_Float = Some 4"
| "datum_kind_size K_Varbinary = None"
| "datum_kind_size K_String = None"
| "datum_kind_size K_UInt64 = Some 8"
| "datum_kind_size K_UInt32 = Some 4"
| "datum_kind_size K_UInt16 = Some 2"
| "datum_kind_size K_UInt8 = Some 1"
| "datum_kind_size K_Int64 = Some 8"
| "datum_kind_size K_Int32 = Some 4"
| "datum_kind_size K_Int16 = Some 2"
| "datum_kind_size K_Int8 = Some 1"
| "datum_kind_size K_Boolean = Some 1"
| "datum_kind_size K_Date = Some 4"
| "datum_kind_size K_Time = Some 8"

datatype datum_error = InvalidDatumByte u8

text \<open>\<open>DatumKind::try_from(u8)\<close> tries the kinds in order.\<close>

fun first_kind :: "u8 \<Rightarrow> datum_kind list \<Rightarrow> (datum_error, datum_kind) result" where
  "first_kind v [] = Err (InvalidDatumByte v)"
| "first_kind v (k # ks) = (if into_u8 k = v then Ok k else first_kind v ks)"

definition datum_kind_try_from :: "u8 \<Rightarrow> (datum_error, datum_kind) result" where
  "datum_kind_try_from v = first_kind v datum_kind_values"

section \<open>Values\<close>

datatype datum =
  D_Null
| D_Timestamp u64
| D_Double u64
| D_Float u32
| D_Varbinary "u8 list"
| D_String "u8 list"
| D_UInt64 u64
| D_UInt32 u32
| D_UInt16 u16
| D_UInt8 u8
| D_Int64 u64
| D_Int32 u32
| D_Int16 u16
| D_Int8 u8
| D_Boolean bool
| D_Date u32
| D_Time u64

primrec kind :: "datum \<Rightarrow> datum_kind" where
  "kind D_Null = K_Null"
| "kind (D_Timestamp v) = K_Timestamp"
| "kind (D_Double v) = K_Double"
| "kind (D_Float v) = K_Float"
| "kind (D_Varbinary v) = K_Varbinary"
| "kind (D_String v) = K_String"
| "kind (D_UInt64 v) = K_UInt64"
| "kind (D_UInt32 v) = K_UInt32"
| "kind (D_UInt16 v) = K_UInt16"
| "kind (D_UInt8 v) = K_UInt8"
| "kind (D_Int64 v) = K_Int64"
| "kind (D_Int32 v) = K_Int32"
| "kind (D_Int16 v) = K_Int16"
| "kind (D_Int8 v) = K_Int8"
| "kind (D_Boolean v) = K_Boolean"
| "kind (D_Date v) = K_Date"
| "kind (D_Time v) = K_Time"

primrec datum_empty :: "datum_kind \<Rightarrow> datum" where
  "datum_empty K_Null = D_Null"
| "datum_empty K_Timestamp = D_Timestamp 0"
| "datum_empty K_Double = D_Double 0"
| "datum_empty K_Float = D_Float 0"
| "datum_empty K_Varbinary = D_Varbinary []"
| "datum_empty K_String = D_String []"
| "datum_empty K_UInt64 = D_UInt64 0"
| "datum_empty K_UInt32 = D_UInt32 0"
| "datum_empty K_UInt16 = D_UInt16 0"
| "datum_empty K_UInt8 = D_UInt8 0"
| "datum_empty K_Int64 = D_Int64 0"
| "datum_empty K_Int32 = D_Int32 0"
| "datum_empty K_Int16 = D_Int16 0"
| "datum_empty K_Int8 = D_Int8 0"
| "datum_empty K_Boolean = D_Boolean False"
| "datum_empty K_Date = D_Date 0"
| "datum_empty K_Time = D_Time 0"

definition is_null :: "datum \<Rightarrow> bool" where
  "is_null d \<longleftrightarrow> d = D_Null"

fun as_timestamp :: "datum \<Rightarrow> int option" where
  "as_timestamp (D_Timestamp v) = Some (sint v)"
| "as_timestamp _ = None"

fun as_str :: "datum \<Rightarrow> u8 list option" where
  "as_str (D_String v) = Some v"
| "as_str _ = None"

fun as_varbinary :: "datum \<Rightarrow> u8 list option" where
  "as_varbinary (D_Varbinary v) = Some v"
| "as_varbinary _ = None"

text \<open>Widening casts: an unsigned value is zero-extended, a signed one sign-extended.\<close>

fun as_u64 :: "datum \<Rightarrow> u64 option" where
  "as_u64 (D_UInt64 v) = Some v"
| "as_u64 (D_UInt32 v) = Some (ucast v)"
| "as_u64 (D_UInt16 v) = Some (ucast v)"
| "as_u64 (D_UInt8 v) = Some (ucast v)"
| "as_u64 (D_Int64 v) = Some v"
| "as_u64 (D_Int32 v) = Some (scast v)"
| "as_u64 (D_Int16 v) = Some (scast v)"
| "as_u64 (D_Int8 v) = Some (scast v)"
| "as_u64 (D_Boolean v) = Some (if v then 1 else 0)"
| "as_u64 _ = None"

fun as_i64 :: "datum \<Rightarrow> u64 option" where
  "as_i64 (D_UInt64 v) = Some v"
| "as_i64 (D_UInt32 v) = Some (ucast v)"
| "as_i64 (D_UInt16 v) = Some (ucast v)"
| "as_i64 (D_UInt8 v) = Some (ucast v)"
| "as_i64 (D_Int64 v) = Some v"
| "as_i64 (D_Int32 v) = Some (scast v)"
| "as_i64 (D_Int16 v) = Some (scast v)"
| "as_i64 (D_Int8 v) = Some (scast v)"
| "as_i64 (D_Boolean v) = Some (if v then 1 else 0)"
| "as_i64 (D_Date v) = Some (scast v)"
| "as_i64 (D_Time v) = Some v"
| "as_i64 _ = None"

text \<open>\<open>to_le_bytes\<close>: the low byte first.\<close>

definition le_bytes :: "nat \<Rightarrow> nat \<Rightarrow> u8 list" where
  "le_bytes n v = rev (be_bytes n v)"

definition le_value :: "u8 list \<Rightarrow> nat" where
  "le_value bs = be_value 0 (rev bs)"

primrec to_bytes :: "datum \<Rightarrow> u8 list" where
  "to_bytes D_Null = [0]"
| "to_bytes (D_Timestamp v) = le_bytes 8 (unat v)"
| "to_bytes (D_Double v) = le_bytes 8 (unat v)"
| "to_bytes (D_Float v) = le_bytes 4 (unat v)"
| "to_bytes (D_Varbinary v) = v"
| "to_bytes (D_String v) = v"
| "to_bytes (D_UInt64 v) = le_bytes 8 (unat v)"
| "to_bytes (D_UInt32 v) = le_bytes 4 (unat v)"
| "to_bytes (D_UInt16 v) = le_bytes 2 (unat v)"
| "to_bytes (D_UInt8 v) = le_bytes 1 (unat v)"
| "to_bytes (D_Int64 v) = le_bytes 8 (unat v)"
| "to_bytes (D_Int32 v) = le_bytes 4 (unat v)"
| "to_bytes (D_Int16 v) = le_bytes 2 (unat v)"
| "to_bytes (D_Int8 v) = le_bytes 1 (unat v)"
| "to_bytes (D_Boolean v) = (if v then [1] else [0])"
| "to_bytes (D_Date v) = le_bytes 4 (unat v)"
| "to_bytes (D_Time v) = le_bytes 8 (unat v)"

primrec do_with_bytes :: "datum \<Rightarrow> (u8 list \<Rightarrow> 'r) \<Rightarrow> 'r" where
  "do_with_bytes D_Null f = f [0]"
| "do_with_bytes (D_Timestamp v) f = f (le_bytes 8 (unat v))"
| "do_with_bytes (D_Double v) f = f (le_bytes 8 (unat v))"
| "do_with_bytes (D_Float v) f = f (le_bytes 4 (unat v))"
| "do_with_bytes (D_Varbinary v) f = f v"
| "do_with_bytes (D_String v) f = f v"
| "do_with_bytes (D_UInt64 v) f = f (le_bytes 8 (unat v))"
| "do_with_bytes (D_UInt32 v) f = f (le_bytes 4 (unat v))"
| "do_with_bytes (D_UInt16 v) f = f (le_bytes 2 (unat v))"
| "do_with_bytes (D_UInt8 v) f = f (le_bytes 1 (unat v))"
| "do_with_bytes (D_Int64 v) f = f (le_bytes 8 (unat v))"
| "do_with_bytes (D_Int32 v) f = f (le_bytes 4 (unat v))"
| "do_with_bytes (D_Int16 v) f = f (le_bytes 2 (unat v))"
| "do_with_bytes (D_Int8 v) f = f (le_bytes 1 (unat v))"
| "do_with_bytes (D_Boolean v) f = (if v then f [1] else f [0])"
| "do_with_bytes (D_Date v) f = f (le_bytes 4 (unat v))"
| "do_with_bytes (D_Time v) f = f (le_bytes 8 (unat v))"

text \<open>
  \<open>0.checked_sub(v)\<close> overflows for the least value only; negating a float flips its sign bit.
\<close>

definition checked_neg :: "'a::len word \<Rightarrow> 'a word option" where
  "checked_neg v = (if sint v = - (2 ^ (LENGTH('a) - 1)) then None else Some (- v))"

fun to_negative :: "datum \<Rightarrow> datum option" where
  "to_negative (D_Double v) = Some (D_Double (v XOR push_bit 63 1))"
| "to_negative (D_Float v) = Some (D_Float (v XOR push_bit 31 1))"
| "to_negative (D_Int64 v) = map_option D_Int64 (checked_neg v)"
| "to_negative (D_Int32 v) = map_option D_Int32 (checked_neg v)"
| "to_negative (D_Int16 v) = map_option D_Int16 (checked_neg v)"
| "to_negative (D_Int8 v) = map_option D_Int8 (checked_neg v)"
| "to_negative (D_Boolean v) = Some (D_Boolean (\<not> v))"
| "to_negative _ = None"

fun is_fixed_sized :: "datum \<Rightarrow> bool" where
  "is_fixed_sized (D_Varbinary _) \<longleftrightarrow> False"
| "is_fixed_sized (D_String _) \<longleftrightarrow> False"
| "is_fixed_sized _ \<longleftrightarrow> True"

primrec datum_size :: "datum \<Rightarrow> nat" where
  "datum_size D_Null = 1"
| "datum_size (D_Timestamp v) = 8"
| "datum_size (D_Double v) = 8"
| "datum_size (D_Float v) = 4"
| "datum_size (D_Varbinary v) = length v"
| "datum_size (D_String v) = length v"
| "datum_size (D_UInt64 v) = 8"
| "datum_size (D_UInt32 v) = 4"
| "datum_size (D_UInt16 v) = 2"
| "datum_size (D_UInt8 v) = 1"
| "datum_size (D_Int64 v) = 8"
| "datum_size (D_Int32 v) = 4"
| "datum_size (D_Int16 v) = 2"
| "datum_size (D_Int8 v) = 1"
| "datum_size (D_Boolean v) = 1"
| "datum_size (D_Date v) = 4"
| "datum_size (D_Time v) = 8"

section \<open>The order of values\<close>

datatype cmp_ordering = Less | Equal | Greater

definition lin_cmp :: "'a::linorder \<Rightarrow> 'a \<Rightarrow> cmp_ordering" where
  "lin_cmp x y = (if x < y then Less else if x = y then Equal else Greater)"

text \<open>
  IEEE 754 comparison on bit patterns: a pattern whose magnitude is above that of infinity is a
  NaN and compares with nothing; the others compare as signed magnitudes, so both zeros are equal.
\<close>

definition float_key :: "nat \<Rightarrow> nat \<Rightarrow> int" where
  "float_key w v = (if 2 ^ (w - 1) \<le> v then - int (v - 2 ^ (w - 1)) else int v)"

definition float_partial_cmp :: "nat \<Rightarrow> nat \<Rightarrow> nat \<Rightarrow> nat \<Rightarrow> cmp_ordering option" where
  "float_partial_cmp w infty x y =
     (if int infty < \<bar>float_key w x\<bar> \<or> int infty < \<bar>float_key w y\<bar> then None
      else Some (lin_cmp (float_key w x) (float_key w y)))"

definition f64_partial_cmp :: "u64 \<Rightarrow> u64 \<Rightarrow> cmp_ordering option" where
  "f64_partial_cmp x y = float_partial_cmp 64 0x7ff0000000000000 (unat x) (unat y)"

definition f32_partial_cmp :: "u32 \<Rightarrow> u32 \<Rightarrow> cmp_ordering option" where
  "f32_partial_cmp x y = float_partial_cmp 32 0x7f800000 (unat x) (unat y)"

text \<open>Values of different variants compare by the position of the variant.\<close>

definition variant_cmp :: "datum \<Rightarrow> datum \<Rightarrow> cmp_ordering option" where
  "variant_cmp d e = Some (lin_cmp (into_u8 (kind d)) (into_u8 (kind e)))"

primrec partial_cmp :: "datum \<Rightarrow> datum \<Rightarrow> cmp_ordering option" where
  "partial_cmp D_Null e = variant_cmp D_Null e"
| "partial_cmp (D_Timestamp v) e =
     (case e of D_Timestamp w \<Rightarrow> Some (lin_cmp (sint v) (sint w)) | _ \<Rightarrow> variant_cmp (D_Timestamp v) e)"
| "partial_cmp (D_Double v) e =
     (case e of D_Double w \<Rightarrow> f64_partial_cmp v w | _ \<Rightarrow> variant_cmp (D_Double v) e)"
| "partial_cmp (D_Float v) e =
     (case e of D_Float w \<Rightarrow> f32_partial_cmp v w | _ \<Rightarrow> variant_cmp (D_Float v) e)"
| "partial_cmp (D_Varbinary v) e =
     (case e of D_Varbinary w \<Rightarrow> Some (lin_cmp v w) | _ \<Rightarrow> variant_cmp (D_Varbinary v) e)"
| "partial_cmp (D_String v) e =
     (case e of D_String w \<Rightarrow> Some (lin_cmp v w) | _ \<Rightarrow> variant_cmp (D_String v) e)"
| "partial_cmp (D_UInt64 v) e =
     (case e of D_UInt64 w \<Rightarrow> Some (lin_cmp v w) | _ \<Rightarrow> variant_cmp (D_UInt64 v) e)"
| "partial_cmp (D_UInt32 v) e =
     (case e of D_UInt32 w \<Rightarrow> Some (lin_cmp v w) | _ \<Rightarrow> variant_cmp (D_UInt32 v) e)"
| "partial_cmp (D_UInt16 v) e =
     (case e of D_UInt16 w \<Rightarrow> Some (lin_cmp v w) | _ \<Rightarrow> variant_cmp (D_UInt16 v) e)"
| "partial_cmp (D_UInt8 v) e =
     (case e of D_UInt8 w \<Rightarrow> Some (lin_cmp v w) | _ \<Rightarrow> variant_cmp (D_UInt8 v) e)"
| "partial_cmp (D_Int64 v) e =
     (case e of D_Int64 w \<Rightarrow> Some (lin_cmp (sint v) (sint w)) | _ \<Rightarrow> variant_cmp (D_Int64 v) e)"
| "partial_cmp (D_Int32 v) e =
     (case e of D_Int32 w \<Rightarrow> Some (lin_cmp (sint v) (sint w)) | _ \<Rightarrow> variant_cmp (D_Int32 v) e)"
| "partial_cmp (D_Int16 v) e =
     (case e of D_Int16 w \<Rightarrow> Some (lin_cmp (sint v) (sint w)) | _ \<Rightarrow> variant_cmp (D_Int16 v) e)"
| "partial_cmp (D_Int8 v) e =
     (case e of D_Int8 w \<Rightarrow> Some (lin_cmp (sint v) (sint w)) | _ \<Rightarrow> variant_cmp (D_Int8 v) e)"
| "partial_cmp (D_Boolean v) e =
     (case e of D_Boolean w \<Rightarrow> Some (lin_cmp v w) | _ \<Rightarrow> variant_cmp (D_Boolean v) e)"
| "partial_cmp (D_Date v) e =
     (case e of D_Date w \<Rightarrow> Some (lin_cmp (sint v) (sint w)) | _ \<Rightarrow> variant_cmp (D_Date v) e)"
| "partial_cmp (D_Time v) e =
     (case e of D_Time w \<Rightarrow> Some (lin_cmp (sint v) (sint w)) | _ \<Rightarrow> variant_cmp (D_Time v) e)"

definition datum_lt :: "datum \<Rightarrow> datum \<Rightarrow> bool" where
  "datum_lt d e \<longleftrightarrow> partial_cmp d e = Some Less"

lemma lin_cmp_simps [simp]:
  "lin_cmp x y = Less \<longleftrightarrow> x < y" "lin_cmp x y = Equal \<longleftrightarrow> x = y" "lin_cmp x y = Greater \<longleftrightarrow> y < x"
  by (auto simp: lin_cmp_def)

section \<open>Lemmas\<close>

lemma into_u8_inject [simp]: "into_u8 k = into_u8 k' \<longleftrightarrow> k = k'"
  by (cases k; cases k') simp_all

lemma datum_kind_try_from_into_u8 [simp]: "datum_kind_try_from (into_u8 k) = Ok k"
  by (cases k) (simp_all add: datum_kind_try_from_def datum_kind_values_def)

lemma first_kind_Ok: "first_kind v ks = Ok k \<Longrightarrow> into_u8 k = v"
  by (induction ks) (auto split: if_splits)

lemma kind_datum_empty [simp]: "kind (datum_empty k) = k"
  by (cases k) simp_all

lemma do_with_bytes_to_bytes: "do_with_bytes d f = f (to_bytes d)"
  by (cases d) simp_all

lemma length_le_bytes [simp]: "length (le_bytes n v) = n"
  by (simp add: le_bytes_def)

lemma le_value_bytes: "v < 256 ^ n \<Longrightarrow> le_value (le_bytes n v) = v"
  by (simp add: le_value_def le_bytes_def be_value_bytes)

lemma datum_size_to_bytes: "datum_size d = length (to_bytes d)"
  by (cases d) simp_all

lemma is_fixed_sized_iff: "is_fixed_sized d \<longleftrightarrow> datum_kind_size (kind d) \<noteq> None"
  by (cases d) simp_all

lemma partial_cmp_kinds: "kind d \<noteq> kind e \<Longrightarrow> partial_cmp d e = variant_cmp d e"
  by (cases d) (auto split: datum.split)

lemma datum_lt_irrefl [simp]: "\<not> datum_lt d d"
  by (cases d) (simp_all add: datum_lt_def f64_partial_cmp_def f32_partial_cmp_def
    float_partial_cmp_def variant_cmp_def)

lemma datum_lt_Null [simp]: "datum_lt D_Null e \<longleftrightarrow> e \<noteq> D_Null" "\<not> datum_lt e D_Null"
  by (cases e; simp add: datum_lt_def variant_cmp_def word_less_nat_alt)+

text \<open>On the kinds of key columns the order is total: no two values fail to compare.\<close>

lemma partial_cmp_key_kind:
  assumes "kind d = kind e" and "is_key_kind (kind d)"
  shows "partial_cmp d e \<noteq> None" and "partial_cmp d e = Some Equal \<longleftrightarrow> d = e"
    and "partial_cmp d e = Some Greater \<longleftrightarrow> partial_cmp e d = Some Less"
  using assms by (cases d; cases e; auto intro: signed_word_eqI)+

lemma datum_lt_total:
  assumes "kind d = kind e" and "is_key_kind (kind d)" and "d \<noteq> e"
  shows "datum_lt d e \<or> datum_lt e d"
proof (cases "the (partial_cmp d e)")
  case Less
  then show ?thesis using partial_cmp_key_kind(1) [OF assms(1,2)] by (auto simp: datum_lt_def)
next
  case Equal
  then show ?thesis using partial_cmp_key_kind(1,2) [OF assms(1,2)] assms(3) by auto
next
  case Greater
  then show ?thesis using partial_cmp_key_kind(1,3) [OF assms(1,2)] by (auto simp: datum_lt_def)
qed

lemma sint_minus:
  assumes "sint v \<noteq> - (2 ^ (LENGTH('a) - 1))"
  shows "sint (- v) = - sint (v :: 'a::len word)"
proof -
  have "- (2 ^ (LENGTH('a) - 1)) \<le> sint v" "sint v < 2 ^ (LENGTH('a) - 1)"
    by (rule sint_ge sint_lt)+
  with assms show ?thesis
    by (simp add: sint_word_minus signed_take_bit_int_eq_self)
qed

lemma checked_neg_Some:
  assumes "checked_neg (v :: 'a::len word) = Some w"
  shows "checked_neg w = Some v" and "sint w = - sint v"
proof -
  from assms have v: "sint v \<noteq> - (2 ^ (LENGTH('a) - 1))" and w: "w = - v"
    by (auto simp: checked_neg_def split: if_splits)
  from sint_minus [OF v] w show s: "sint w = - sint v" by simp
  have "sint v < 2 ^ (LENGTH('a) - 1)" by (rule sint_lt)
  with s w show "checked_neg w = Some v"
    by (auto simp: checked_neg_def)
qed

lemma checked_neg_None: "checked_neg v = None \<longleftrightarrow> sint v = - (2 ^ (LENGTH('a) - 1))" for v :: "'a::len word"
  by (simp add: checked_neg_def)

end
