(* ===== verification/Schema.thy ===== *)
theory Schema
  imports Datum
begin

text \<open>
  Table schemas and rows: \<^verbatim>\<open>common_types/src/schema.rs\<close>, \<^verbatim>\<open>column_schema.rs\<close> and
  \<^verbatim>\<open>row/mod.rs\<close>. A hash map from names to indexes is a map, a hash set a set. The display name of a
  column is left out: every constructor of a column computes it from the name, and nothing modelled
  reads it. So is the arrow schema that a \<open>Schema\<close> carries along. The default value is an expression
  of the parser crate, which the code only moves and serialises: it stands for itself as its text.
\<close>

section \<open>Columns\<close>

type_synonym column_id = u32

datatype sql_expr = Sql_Expr string

record column_schema =
  cs_id :: column_id
  cs_name :: string
  cs_data_type :: datum_kind
  cs_is_nullable :: bool
  cs_is_tag :: bool
  cs_is_dictionary :: bool
  cs_comment :: string
  cs_default_value :: "sql_expr option"

datatype column_compat_error =
  IncompatDataType string datum_kind datum_kind
| NotNullable string

datatype read_op = Exact | FillNull

primrec is_valid_tag_type :: "datum_kind \<Rightarrow> bool" where
  "is_valid_tag_type K_Null \<longleftrightarrow> False"
| "is_valid_tag_type K_Timestamp \<longleftrightarrow> True"
| "is_valid_tag_type K_Double \<longleftrightarrow> False"
| "is_valid_tag_type K_Float \<longleftrightarrow> False"
| "is_valid_tag_type K_Varbinary \<longleftrightarrow> True"
| "is_valid_tag_type K_String \<longleftrightarrow> True"
| "is_valid_tag_type K_UInt64 \<longleftrightarrow> True"
| "is_valid_tag_type K_UInt32 \<longleftrightarrow> True"
| "is_valid_tag_type K_UInt16 \<longleftrightarrow> True"
| "is_valid_tag_type K_UInt8 \<longleftrightarrow> True"
| "is_valid_tag_type K_Int64 \<longleftrightarrow> True"
| "is_valid_tag_type K_Int32 \<longleftrightarrow> True"
| "is_valid_tag_type K_Int16 \<longleftrightarrow> True"
| "is_valid_tag_type K_Int8 \<longleftrightarrow> True"
| "is_valid_tag_type K_Boolean \<longleftrightarrow> True"
| "is_valid_tag_type K_Date \<longleftrightarrow> True"
| "is_valid_tag_type K_Time \<longleftrightarrow> True"

definition column_compatible_for_write ::
    "column_schema \<Rightarrow> column_schema \<Rightarrow> (column_compat_error, unit) result" where
  "column_compatible_for_write self writer =
     (if cs_data_type self \<noteq> cs_data_type writer
      then Err (IncompatDataType (cs_name self) (cs_data_type writer) (cs_data_type self))
      else if \<not> (cs_is_nullable self \<or> \<not> cs_is_nullable writer) then Err (NotNullable (cs_name self))
      else Ok ())"

definition compatible_for_read ::
    "column_schema \<Rightarrow> column_schema \<Rightarrow> (column_compat_error, read_op) result" where
  "compatible_for_read self source =
     (if cs_is_nullable self
      then if cs_id self = cs_id source then Ok Exact else Ok FillNull
      else if cs_id self = cs_id source \<and> \<not> cs_is_nullable source then Ok Exact
      else Err (NotNullable (cs_name source)))"

section \<open>Schemas\<close>

text \<open>The bytes a value of a kind takes in the fixed part of a contiguous row, its header included.\<close>

primrec byte_size_of_datum :: "datum_kind \<Rightarrow> nat" where
  "byte_size_of_datum K_Null = 1 + 1"
| "byte_size_of_datum K_Timestamp = 8 + 1"
| "byte_size_of_datum K_Double = 8 + 1"
| "byte_size_of_datum K_Float = 4 + 1"
| "byte_size_of_datum K_Varbinary = 4 + 1"
| "byte_size_of_datum K_String = 4 + 1"
| "byte_size_of_datum K_UInt64 = 8 + 1"
| "byte_size_of_datum K_UInt32 = 4 + 1"
| "byte_size_of_datum K_UInt16 = 2 + 1"
| "byte_size_of_datum K_UInt8 = 1 + 1"
| "byte_size_of_datum K_Int64 = 8 + 1"
| "byte_size_of_datum K_Int32 = 4 + 1"
| "byte_size_of_datum K_Int16 = 2 + 1"
| "byte_size_of_datum K_Int8 = 1 + 1"
| "byte_size_of_datum K_Boolean = 1 + 1"
| "byte_size_of_datum K_Date = 4 + 1"
| "byte_size_of_datum K_Time = 8 + 1"

record column_schemas =
  columns :: "column_schema list"
  name_to_index :: "string \<Rightarrow> nat option"
  byte_offsets :: "nat list"
  string_buffer_offset :: nat

text \<open>The loop over the columns that pushes the offset of each.\<close>

fun push_offsets :: "nat \<Rightarrow> nat list \<Rightarrow> column_schema list \<Rightarrow> nat list \<times> nat" where
  "push_offsets current offsets [] = (offsets, current)"
| "push_offsets current offsets (c # cols) =
     push_offsets (current + byte_size_of_datum (cs_data_type c)) (offsets @ [current]) cols"

definition column_schemas_new :: "column_schema list \<Rightarrow> column_schemas" where
  "column_schemas_new cols =
     (let (offsets, current) = push_offsets 0 [] cols
      in \<lparr>columns = cols,
          name_to_index = map_of (rev (zip (map cs_name cols) [0..<length cols])),
          byte_offsets = offsets,
          string_buffer_offset = current\<rparr>)"

record schema =
  primary_key_indexes :: "nat list"
  timestamp_index :: nat
  tsid_index :: "nat option"
  column_schemas_of :: column_schemas
  schema_version :: u32

definition schema_columns :: "schema \<Rightarrow> column_schema list" where
  "schema_columns s = columns (column_schemas_of s)"

definition num_columns :: "schema \<Rightarrow> nat" where
  "num_columns s = length (schema_columns s)"

definition schema_column :: "schema \<Rightarrow> nat \<Rightarrow> ('e, column_schema) result" where
  "schema_column s i = index_res (schema_columns s) i"

definition index_of :: "schema \<Rightarrow> string \<Rightarrow> nat option" where
  "index_of s name = name_to_index (column_schemas_of s) name"

definition column_with_name :: "schema \<Rightarrow> string \<Rightarrow> column_schema option" where
  "column_with_name s name = map_option (\<lambda>i. schema_columns s ! i) (index_of s name)"

definition key_columns :: "schema \<Rightarrow> column_schema list" where
  "key_columns s =
     map snd (filter (\<lambda>(idx, col). idx = timestamp_index s \<or> idx \<in> set (primary_key_indexes s))
       (enumerate 0 (schema_columns s)))"

definition normal_columns :: "schema \<Rightarrow> column_schema list" where
  "normal_columns s =
     map snd (filter (\<lambda>(idx, col). idx \<noteq> timestamp_index s \<and> idx \<notin> set (primary_key_indexes s))
       (enumerate 0 (schema_columns s)))"

definition is_collapsible_column :: "schema \<Rightarrow> nat \<Rightarrow> ('e, bool) result" where
  "is_collapsible_column s i =
     (if timestamp_index s = i then Ok True
      else res_bind (schema_column s i) (\<lambda>c.
        if cs_is_tag c then Ok False
        else Ok (case tsid_index s of None \<Rightarrow> True | Some tsid_idx \<Rightarrow> tsid_idx \<noteq> i)))"

definition unique_keys :: "schema \<Rightarrow> string list" where
  "unique_keys s =
     (case tsid_index s of
        Some idx \<Rightarrow> map cs_name (filter cs_is_tag (schema_columns s)) @
          [cs_name (schema_columns s ! idx), cs_name (schema_columns s ! timestamp_index s)]
      | None \<Rightarrow> map (\<lambda>i. cs_name (schema_columns s ! i)) (primary_key_indexes s))"

subsection \<open>Compatibility of a writer's schema\<close>

type_synonym index_in_writer = "nat option list"

definition for_same_schema :: "nat \<Rightarrow> index_in_writer" where
  "for_same_schema n = map Some [0..<n]"

definition column_index_in_writer :: "index_in_writer \<Rightarrow> nat \<Rightarrow> ('e, nat option) result" where
  "column_index_in_writer idx i = index_res idx i"

datatype schema_compat_error =
  IncompatWriteColumn column_compat_error
| MissingWriteColumn string
| WriteMoreColumn "string list"

text \<open>One column of the table in the loop of \<open>compatible_for_write\<close>.\<close>

definition compat_column ::
    "schema \<Rightarrow> column_schema \<Rightarrow> nat \<times> index_in_writer \<Rightarrow> (schema_compat_error, nat \<times> index_in_writer) result" where
  "compat_column writer column = (\<lambda>(n, idx).
     case index_of writer (cs_name column) of
       Some writer_index \<Rightarrow>
         res_bind (schema_column writer writer_index) (\<lambda>writer_column.
         res_bind (res_ctx IncompatWriteColumn (column_compatible_for_write column writer_column)) (\<lambda>_.
           Ok (n + 1, idx @ [Some writer_index])))
     | None \<Rightarrow>
         if cs_is_nullable column then Ok (n, idx @ [None])
         else Err (MissingWriteColumn (cs_name column)))"

definition compatible_for_write ::
    "schema \<Rightarrow> schema \<Rightarrow> index_in_writer \<Rightarrow> (schema_compat_error, index_in_writer) result" where
  "compatible_for_write self writer idx =
     res_bind (res_fold (compat_column writer) (schema_columns self) (0, idx)) (\<lambda>(n, idx).
       if n = num_columns writer then Ok idx
       else Err (WriteMoreColumn (map cs_name
              (filter (\<lambda>c. column_with_name self (cs_name c) = None) (schema_columns writer)))))"

subsection \<open>The builder\<close>

datatype column_schema_error = DecodeDefaultValue "u8 list"

datatype schema_error =
  NullKeyColumn string
| TimestampKeyExists string string
| ColumnNameExists string
| KeyColumnType string datum_kind
| ColumnIdExists string column_id
| TimestampNotInPrimaryKey
| InvalidPrimaryKeyWithTsid
| ColumnSchemaDeserializeFailed column_schema_error

record builder =
  bd_columns :: "column_schema list"
  bd_primary_key_indexes :: "nat list"
  bd_timestamp_index :: "nat option"
  bd_column_names :: "string set"
  bd_column_ids :: "column_id set"
  bd_version :: u32
  bd_auto_increment :: bool
  bd_max_column_id :: column_id

abbreviation (input) COLUMN_ID_UNINIT :: column_id where "COLUMN_ID_UNINIT \<equiv> 0"
abbreviation (input) DEFAULT_SCHEMA_VERSION :: u32 where "DEFAULT_SCHEMA_VERSION \<equiv> 1"

definition builder_new :: builder where
  "builder_new =
     \<lparr>bd_columns = [], bd_primary_key_indexes = [], bd_timestamp_index = None, bd_column_names = {},
      bd_column_ids = {}, bd_version = DEFAULT_SCHEMA_VERSION, bd_auto_increment = False,
      bd_max_column_id = COLUMN_ID_UNINIT\<rparr>"

text \<open>The increment overflows when the largest id is the last one there is.\<close>

definition may_alloc_column_id :: "builder \<Rightarrow> column_schema \<Rightarrow> (schema_error, builder \<times> column_schema) result" where
  "may_alloc_column_id b column =
     res_bind
       (if bd_auto_increment b \<and> cs_id column = COLUMN_ID_UNINIT
        then if bd_max_column_id b = - 1 then Panic
             else Ok (column\<lparr>cs_id := bd_max_column_id b + 1\<rparr>)
        else Ok column)
       (\<lambda>column. Ok (b\<lparr>bd_max_column_id := max (bd_max_column_id b) (cs_id column)\<rparr>, column))"

definition validate_column :: "builder \<Rightarrow> column_schema \<Rightarrow> bool \<Rightarrow> (schema_error, unit) result" where
  "validate_column b column is_key =
     (if cs_name column \<in> bd_column_names b then Err (ColumnNameExists (cs_name column))
      else if is_key \<and> \<not> is_key_kind (cs_data_type column)
      then Err (KeyColumnType (cs_name column) (cs_data_type column))
      else if cs_id column \<in> bd_column_ids b then Err (ColumnIdExists (cs_name column) (cs_id column))
      else Ok ())"

definition insert_new_column :: "builder \<Rightarrow> column_schema \<Rightarrow> builder" where
  "insert_new_column b column =
     b\<lparr>bd_column_names := insert (cs_name column) (bd_column_names b),
       bd_column_ids := insert (cs_id column) (bd_column_ids b),
       bd_columns := bd_columns b @ [column]\<rparr>"

definition add_key_column :: "builder \<Rightarrow> column_schema \<Rightarrow> (schema_error, builder) result" where
  "add_key_column b column =
     res_bind (may_alloc_column_id b column) (\<lambda>(b, column).
     res_bind (validate_column b column True) (\<lambda>_.
       if cs_is_nullable column then Err (NullKeyColumn (cs_name column))
       else
         res_bind
           (if cs_data_type column = K_Timestamp
            then case bd_timestamp_index b of
                   Some i \<Rightarrow> Err (TimestampKeyExists (cs_name (bd_columns b ! i)) (cs_name column))
                 | None \<Rightarrow> Ok (b\<lparr>bd_timestamp_index := Some (length (bd_columns b))\<rparr>)
            else Ok b)
           (\<lambda>b. Ok (insert_new_column
             (b\<lparr>bd_primary_key_indexes := bd_primary_key_indexes b @ [length (bd_columns b)]\<rparr>) column))))"

definition add_normal_column :: "builder \<Rightarrow> column_schema \<Rightarrow> (schema_error, builder) result" where
  "add_normal_column b column =
     res_bind (may_alloc_column_id b column) (\<lambda>(b, column).
     res_bind (validate_column b column False) (\<lambda>_. Ok (insert_new_column b column)))"

definition find_tsid_index :: "column_schema list \<Rightarrow> nat option" where
  "find_tsid_index cols =
     map_option fst (find (\<lambda>(idx, c). cs_name c = ''tsid'') (enumerate 0 cols))"

definition build :: "builder \<Rightarrow> (schema_error, schema) result" where
  "build b =
     (case bd_timestamp_index b of
        None \<Rightarrow> Err TimestampNotInPrimaryKey
      | Some ts \<Rightarrow>
          if bd_primary_key_indexes b = [] then Panic
          else let tsid = find_tsid_index (bd_columns b)
               in if tsid \<noteq> None \<and> length (bd_primary_key_indexes b) \<noteq> 2 then Err InvalidPrimaryKeyWithTsid
                  else Ok \<lparr>primary_key_indexes = bd_primary_key_indexes b, timestamp_index = ts,
                           tsid_index = tsid, column_schemas_of = column_schemas_new (bd_columns b),
                           schema_version = bd_version b\<rparr>)"

subsection \<open>The protobuf form\<close>

text \<open>
  The messages of the protobuf crate, and what the conversions use of the crates around them: the
  number of a data type, the accessor that reads it back, and serde's JSON of an expression, whose
  failure to encode is a panic.
\<close>

datatype data_type_pb =
  Pb_Null | Pb_Timestamp | Pb_Double | Pb_Float | Pb_Varbinary | Pb_String | Pb_Uint64 | Pb_Uint32 | Pb_Uint16
| Pb_Uint8 | Pb_Int64 | Pb_Int32 | Pb_Int16 | Pb_Int8 | Pb_Bool | Pb_Date | Pb_Time

primrec kind_to_pb :: "datum_kind \<Rightarrow> data_type_pb" where
  "kind_to_pb K_Null = Pb_Null"
| "kind_to_pb K_Timestamp = Pb_Timestamp"
| "kind_to_pb K_Double = Pb_Double"
| "kind_to_pb K_Float = Pb_Float"
| "kind_to_pb K_Varbinary = Pb_Varbinary"
| "kind_to_pb K_String = Pb_String"
| "kind_to_pb K_UInt64 = Pb_Uint64"
| "kind_to_pb K_UInt32 = Pb_Uint32"
| "kind_to_pb K_UInt16 = Pb_Uint16"
| "kind_to_pb K_UInt8 = Pb_Uint8"
| "kind_to_pb K_Int64 = Pb_Int64"
| "kind_to_pb K_Int32 = Pb_Int32"
| "kind_to_pb K_Int16 = Pb_Int16"
| "kind_to_pb K_Int8 = Pb_Int8"
| "kind_to_pb K_Boolean = Pb_Bool"
| "kind_to_pb K_Date = Pb_Date"
| "kind_to_pb K_Time = Pb_Time"

primrec kind_from_pb :: "data_type_pb \<Rightarrow> datum_kind" where
  "kind_from_pb Pb_Null = K_Null"
| "kind_from_pb Pb_Timestamp = K_Timestamp"
| "kind_from_pb Pb_Double = K_Double"
| "kind_from_pb Pb_Float = K_Float"
| "kind_from_pb Pb_Varbinary = K_Varbinary"
| "kind_from_pb Pb_String = K_String"
| "kind_from_pb Pb_Uint64 = K_UInt64"
| "kind_from_pb Pb_Uint32 = K_UInt32"
| "kind_from_pb Pb_Uint16 = K_UInt16"
| "kind_from_pb Pb_Uint8 = K_UInt8"
| "kind_from_pb Pb_Int64 = K_Int64"
| "kind_from_pb Pb_Int32 = K_Int32"
| "kind_from_pb Pb_Int16 = K_Int16"
| "kind_from_pb Pb_Int8 = K_Int8"
| "kind_from_pb Pb_Bool = K_Boolean"
| "kind_from_pb Pb_Date = K_Date"
| "kind_from_pb Pb_Time = K_Time"

record pb_api =
  pa_code :: "data_type_pb \<Rightarrow> int"
  pa_data_type :: "int \<Rightarrow> data_type_pb"
  pa_to_vec :: "sql_expr \<Rightarrow> u8 list option"
  pa_from_slice :: "u8 list \<Rightarrow> sql_expr option"

record column_schema_pb =
  cp_name :: string
  cp_data_type :: int
  cp_is_nullable :: bool
  cp_id :: column_id
  cp_is_tag :: bool
  cp_is_dictionary :: bool
  cp_comment :: string
  cp_default_value :: "u8 list option"

definition column_to_pb :: "pb_api \<Rightarrow> column_schema \<Rightarrow> ('e, column_schema_pb) result" where
  "column_to_pb api c =
     res_bind (case cs_default_value c of
                 None \<Rightarrow> Ok None
               | Some v \<Rightarrow> (case pa_to_vec api v of None \<Rightarrow> Panic | Some encoded_value \<Rightarrow> Ok (Some encoded_value)))
       (\<lambda>default_value.
         Ok \<lparr>cp_name = cs_name c, cp_data_type = pa_code api (kind_to_pb (cs_data_type c)), cp_is_nullable = cs_is_nullable c,
             cp_id = cs_id c, cp_is_tag = cs_is_tag c, cp_is_dictionary = cs_is_dictionary c, cp_comment = cs_comment c,
             cp_default_value = default_value\<rparr>)"

definition column_from_pb :: "pb_api \<Rightarrow> column_schema_pb \<Rightarrow> (column_schema_error, column_schema) result" where
  "column_from_pb api pb =
     res_bind (case cp_default_value pb of
                 None \<Rightarrow> Ok None
               | Some encoded_val \<Rightarrow>
                   (case pa_from_slice api encoded_val of None \<Rightarrow> Err (DecodeDefaultValue encoded_val) | Some v \<Rightarrow> Ok (Some v)))
       (\<lambda>default_value.
         Ok \<lparr>cs_id = cp_id pb, cs_name = cp_name pb, cs_data_type = kind_from_pb (pa_data_type api (cp_data_type pb)),
             cs_is_nullable = cp_is_nullable pb, cs_is_tag = cp_is_tag pb, cs_is_dictionary = cp_is_dictionary pb,
             cs_comment = cp_comment pb, cs_default_value = default_value\<rparr>)"

record table_schema_pb =
  pb_timestamp_id :: column_id
  pb_version :: u32
  pb_columns :: "column_schema_pb list"
  pb_primary_key_ids :: "column_id list"

definition primary_key_ids :: "schema \<Rightarrow> column_id list" where
  "primary_key_ids s = map (\<lambda>i. cs_id (schema_columns s ! i)) (primary_key_indexes s)"

definition schema_to_pb :: "pb_api \<Rightarrow> schema \<Rightarrow> ('e, table_schema_pb) result" where
  "schema_to_pb api s =
     res_bind (res_fold (\<lambda>c columns. res_bind (column_to_pb api c) (\<lambda>pb. Ok (columns @ [pb]))) (schema_columns s) []) (\<lambda>columns.
       Ok \<lparr>pb_timestamp_id = cs_id (schema_columns s ! timestamp_index s),
           pb_version = schema_version s,
           pb_columns = columns,
           pb_primary_key_ids = primary_key_ids s\<rparr>)"

definition pb_add_column :: "column_id list \<Rightarrow> column_schema \<Rightarrow> builder \<Rightarrow> (schema_error, builder) result" where
  "pb_add_column pk_ids column b =
     (if cs_id column \<in> set pk_ids then add_key_column b column else add_normal_column b column)"

definition schema_from_pb :: "pb_api \<Rightarrow> table_schema_pb \<Rightarrow> (schema_error, schema) result" where
  "schema_from_pb api pb =
     res_bind (res_fold (\<lambda>column_schema_pb b.
                 res_bind (res_ctx ColumnSchemaDeserializeFailed (column_from_pb api column_schema_pb)) (\<lambda>column.
                   pb_add_column (pb_primary_key_ids pb) column b)) (pb_columns pb)
                (builder_new\<lparr>bd_version := pb_version pb\<rparr>)) build"

section \<open>Rows\<close>

type_synonym row = "datum list"

datatype row_error =
  NullColumn string
| TypeMismatch string datum_kind datum_kind
| InvalidColumnNum nat nat
| ColumnOutOfBound nat nat
| MissingColumns

definition row_timestamp :: "row \<Rightarrow> schema \<Rightarrow> ('e, int option) result" where
  "row_timestamp row s = res_bind (index_res row (timestamp_index s)) (\<lambda>d. Ok (as_timestamp d))"

definition row_size :: "row \<Rightarrow> nat" where
  "row_size row = sum_list (map datum_size row)"

definition check_datum_type :: "datum \<Rightarrow> column_schema \<Rightarrow> (row_error, unit) result" where
  "check_datum_type d column =
     (if d = D_Null
      then if cs_is_nullable column then Ok () else Err (NullColumn (cs_name column))
      else if kind d = cs_data_type column then Ok ()
      else Err (TypeMismatch (cs_name column) (cs_data_type column) (kind d)))"

definition check_row_schema :: "row \<Rightarrow> schema \<Rightarrow> (row_error, unit) result" where
  "check_row_schema row s =
     (if num_columns s = length row
      then res_fold (\<lambda>(index, d) _. res_bind (schema_column s index) (check_datum_type d))
             (enumerate 0 row) ()
      else Err (InvalidColumnNum (num_columns s) (length row)))"

text \<open>
  Rows compare by the key columns in order; two values that do not compare make the \<open>unwrap\<close> of
  the source panic.
\<close>

fun compare_row :: "nat list \<Rightarrow> row \<Rightarrow> row \<Rightarrow> ('e, cmp_ordering) result" where
  "compare_row [] lhs rhs = Ok Equal"
| "compare_row (column_idx # rest) lhs rhs =
     res_bind (index_res lhs column_idx) (\<lambda>left_datum.
     res_bind (index_res rhs column_idx) (\<lambda>right_datum.
       case partial_cmp left_datum right_datum of
         None \<Rightarrow> Panic
       | Some Equal \<Rightarrow> compare_row rest lhs rhs
       | Some v \<Rightarrow> Ok v))"

subsection \<open>Row groups\<close>

record row_group =
  rg_schema :: schema
  rg_rows :: "row list"
  rg_min_timestamp :: int
  rg_max_timestamp :: int

record row_group_builder =
  rgb_schema :: schema
  rgb_rows :: "row list"
  rgb_min_timestamp :: "int option"
  rgb_max_timestamp :: int

definition row_group_builder_new :: "schema \<Rightarrow> row_group_builder" where
  "row_group_builder_new s =
     \<lparr>rgb_schema = s, rgb_rows = [], rgb_min_timestamp = None, rgb_max_timestamp = 0\<rparr>"

definition update_timestamps :: "row_group_builder \<Rightarrow> row \<Rightarrow> ('e, row_group_builder) result" where
  "update_timestamps g row =
     res_bind (row_timestamp row (rgb_schema g)) (\<lambda>ts.
       case ts of
         None \<Rightarrow> Panic
       | Some t \<Rightarrow>
           Ok (g\<lparr>rgb_min_timestamp := Some (case rgb_min_timestamp g of Some m \<Rightarrow> min m t | None \<Rightarrow> t),
                 rgb_max_timestamp := max (rgb_max_timestamp g) t\<rparr>))"

definition push_checked_row :: "row_group_builder \<Rightarrow> row \<Rightarrow> ('e, row_group_builder) result" where
  "push_checked_row g row =
     res_bind (update_timestamps g row) (\<lambda>g. Ok (g\<lparr>rgb_rows := rgb_rows g @ [row]\<rparr>))"

definition row_group_with_rows :: "schema \<Rightarrow> row list \<Rightarrow> (row_error, row_group_builder) result" where
  "row_group_with_rows s rows =
     res_bind (res_fold (\<lambda>row g. res_bind (check_row_schema row (rgb_schema g)) (\<lambda>_. update_timestamps g row))
                 rows (row_group_builder_new s))
       (\<lambda>g. Ok (g\<lparr>rgb_rows := rows\<rparr>))"

definition row_group_build :: "row_group_builder \<Rightarrow> row_group" where
  "row_group_build g =
     \<lparr>rg_schema = rgb_schema g, rg_rows = rgb_rows g,
      rg_min_timestamp = (case rgb_min_timestamp g of Some m \<Rightarrow> m | None \<Rightarrow> 0),
      rg_max_timestamp = rgb_max_timestamp g\<rparr>"

text \<open>The row builder: the columns so far and the group it will push to.\<close>

definition append_datum ::
    "row_group_builder \<times> datum list \<Rightarrow> datum \<Rightarrow> (row_error, row_group_builder \<times> datum list) result" where
  "append_datum rb d =
     (case rb of (g, cols) \<Rightarrow>
        if length cols < num_columns (rgb_schema g)
        then res_bind (schema_column (rgb_schema g) (length cols)) (\<lambda>column.
             res_bind (check_datum_type d column) (\<lambda>_. Ok (g, cols @ [d])))
        else Err (ColumnOutOfBound (num_columns (rgb_schema g)) (length cols)))"

definition row_builder_finish :: "row_group_builder \<times> datum list \<Rightarrow> (row_error, row_group_builder) result" where
  "row_builder_finish rb =
     (case rb of (g, cols) \<Rightarrow>
        if length cols = num_columns (rgb_schema g) then push_checked_row g cols else Err MissingColumns)"

section \<open>Well-formed schemas\<close>

text \<open>
  What the documentation of \<open>Schema\<close> promises: names and ids are distinct, the key columns are
  listed in column order, are of key kinds and never null, and exactly one of them, the one at
  \<open>timestamp_index\<close>, is a timestamp; a schema with a \<open>tsid\<close> column has the key (tsid, timestamp).
\<close>

definition key_ok :: "column_schema list \<Rightarrow> nat list \<Rightarrow> bool" where
  "key_ok cols pk \<longleftrightarrow>
     sorted_wrt (<) pk \<and>
     (\<forall>i \<in> set pk. i < length cols \<and> is_key_kind (cs_data_type (cols ! i)) \<and> \<not> cs_is_nullable (cols ! i))"

definition timestamp_ok :: "column_schema list \<Rightarrow> nat list \<Rightarrow> nat option \<Rightarrow> bool" where
  "timestamp_ok cols pk ts \<longleftrightarrow>
     (\<forall>i \<in> set pk. cs_data_type (cols ! i) = K_Timestamp \<longrightarrow> ts = Some i) \<and>
     (\<forall>t. ts = Some t \<longrightarrow> t \<in> set pk \<and> cs_data_type (cols ! t) = K_Timestamp)"

definition columns_ok :: "column_schema list \<Rightarrow> bool" where
  "columns_ok cols \<longleftrightarrow> distinct (map cs_name cols) \<and> distinct (map cs_id cols)"

definition schema_wf :: "schema \<Rightarrow> bool" where
  "schema_wf s \<longleftrightarrow>
     columns_ok (schema_columns s) \<and> key_ok (schema_columns s) (primary_key_indexes s) \<and>
     timestamp_ok (schema_columns s) (primary_key_indexes s) (Some (timestamp_index s)) \<and>
     tsid_index s = find_tsid_index (schema_columns s) \<and>
     (tsid_index s \<noteq> None \<longrightarrow> length (primary_key_indexes s) = 2) \<and>
     column_schemas_of s = column_schemas_new (schema_columns s)"

definition builder_inv :: "builder \<Rightarrow> bool" where
  "builder_inv b \<longleftrightarrow>
     columns_ok (bd_columns b) \<and> key_ok (bd_columns b) (bd_primary_key_indexes b) \<and>
     timestamp_ok (bd_columns b) (bd_primary_key_indexes b) (bd_timestamp_index b) \<and>
     bd_column_names b = set (map cs_name (bd_columns b)) \<and> bd_column_ids b = set (map cs_id (bd_columns b))"

text \<open>The states a builder can be in.\<close>

inductive builder_reachable :: "builder \<Rightarrow> bool" where
  start: "builder_reachable builder_new"
| version: "builder_reachable b \<Longrightarrow> builder_reachable (b\<lparr>bd_version := v\<rparr>)"
| auto_increment: "builder_reachable b \<Longrightarrow> builder_reachable (b\<lparr>bd_auto_increment := a\<rparr>)"
| key: "builder_reachable b \<Longrightarrow> add_key_column b c = Ok b' \<Longrightarrow> builder_reachable b'"
| normal: "builder_reachable b \<Longrightarrow> add_normal_column b c = Ok b' \<Longrightarrow> builder_reachable b'"

lemma key_nth: "key_ok cols pk \<Longrightarrow> i \<in> set pk \<Longrightarrow> (cols @ [c]) ! i = cols ! i"
  unfolding key_ok_def by (metis nth_append)

lemma key_ok_append: "key_ok cols pk \<Longrightarrow> key_ok (cols @ [c]) pk"
  using key_nth [of cols pk _ c] unfolding key_ok_def by fastforce

lemma key_ok_append_key:
  assumes "key_ok cols pk" and "is_key_kind (cs_data_type c)" and "\<not> cs_is_nullable c"
  shows "key_ok (cols @ [c]) (pk @ [length cols])"
  using key_ok_append [OF assms(1), of c] assms unfolding key_ok_def by (simp add: sorted_wrt_append)

lemma timestamp_ok_append:
  assumes "key_ok cols pk" and "timestamp_ok cols pk ts"
  shows "timestamp_ok (cols @ [c]) pk ts"
  using key_nth [OF assms(1), of _ c] assms(2) unfolding timestamp_ok_def by metis

lemma timestamp_ok_append_key:
  assumes "key_ok cols pk" and "timestamp_ok cols pk ts"
    and "cs_data_type c = K_Timestamp \<Longrightarrow> ts = None"
  shows "timestamp_ok (cols @ [c]) (pk @ [length cols])
     (if cs_data_type c = K_Timestamp then Some (length cols) else ts)"
proof (cases "cs_data_type c = K_Timestamp")
  case True
  then have none: "\<forall>i \<in> set pk. cs_data_type ((cols @ [c]) ! i) \<noteq> K_Timestamp"
    using timestamp_ok_append [OF assms(1,2), of c] assms(3) unfolding timestamp_ok_def by blast
  show ?thesis
    unfolding timestamp_ok_def
  proof (intro conjI ballI allI impI)
    fix i assume "i \<in> set (pk @ [length cols])" and "cs_data_type ((cols @ [c]) ! i) = K_Timestamp"
    with none have "i = length cols" by auto
    with True show "(if cs_data_type c = K_Timestamp then Some (length cols) else ts) = Some i" by simp
  qed (use True in simp_all)
next
  case False
  have "timestamp_ok (cols @ [c]) pk ts" by (rule timestamp_ok_append [OF assms(1,2)])
  moreover have "cs_data_type ((cols @ [c]) ! length cols) \<noteq> K_Timestamp" using False by simp
  moreover have "set (pk @ [length cols]) = insert (length cols) (set pk)" by simp
  ultimately show ?thesis unfolding timestamp_ok_def using False by (metis insert_iff)
qed

lemma builder_inv_insert:
  assumes "columns_ok (bd_columns b)" and "bd_column_names b = set (map cs_name (bd_columns b))"
    and "bd_column_ids b = set (map cs_id (bd_columns b))"
    and "cs_name c \<notin> bd_column_names b" and "cs_id c \<notin> bd_column_ids b"
    and "key_ok (bd_columns b @ [c]) (bd_primary_key_indexes b)"
    and "timestamp_ok (bd_columns b @ [c]) (bd_primary_key_indexes b) (bd_timestamp_index b)"
  shows "builder_inv (insert_new_column b c)"
  using assms by (simp add: builder_inv_def insert_new_column_def columns_ok_def)

lemma validate_column_Ok:
  assumes "validate_column b c is_key = Ok u"
  shows "cs_name c \<notin> bd_column_names b" and "cs_id c \<notin> bd_column_ids b"
    and "is_key \<Longrightarrow> is_key_kind (cs_data_type c)"
  using assms by (auto simp: validate_column_def split: if_splits)

lemma may_alloc_column_id_Ok:
  "may_alloc_column_id b c = Ok (b', c') \<Longrightarrow> \<exists>m. b' = b\<lparr>bd_max_column_id := m\<rparr>"
  by (auto simp: may_alloc_column_id_def result_simps)

text \<open>What \<open>add_key_column\<close> has checked and done when it succeeds; \<open>c1\<close> is the column with its id.\<close>

definition next_timestamp_index :: "builder \<Rightarrow> column_schema \<Rightarrow> nat option" where
  "next_timestamp_index b c =
     (if cs_data_type c = K_Timestamp then Some (length (bd_columns b)) else bd_timestamp_index b)"

lemma add_key_column_Ok:
  assumes "add_key_column b c = Ok b'"
  obtains m c1 where "validate_column (b\<lparr>bd_max_column_id := m\<rparr>) c1 True = Ok ()"
    and "\<not> cs_is_nullable c1" and "cs_data_type c1 = K_Timestamp \<Longrightarrow> bd_timestamp_index b = None"
    and "b' = insert_new_column (b\<lparr>bd_max_column_id := m, bd_timestamp_index := next_timestamp_index b c1,
           bd_primary_key_indexes := bd_primary_key_indexes b @ [length (bd_columns b)]\<rparr>) c1"
proof -
  obtain b1 c1 where alloc: "may_alloc_column_id b c = Ok (b1, c1)"
    and valid: "validate_column b1 c1 True = Ok ()" and nn: "\<not> cs_is_nullable c1"
    using assms by (auto simp: add_key_column_def result_simps split: if_splits)
  obtain m where b1: "b1 = b\<lparr>bd_max_column_id := m\<rparr>"
    using may_alloc_column_id_Ok [OF alloc] by auto
  from assms alloc valid nn show thesis
    unfolding b1
    by (intro that [of m c1])
      (auto simp: add_key_column_def next_timestamp_index_def result_simps split: if_splits option.splits)
qed

lemma add_key_column_inv:
  assumes "builder_inv b" and "add_key_column b c = Ok b'"
  shows "builder_inv b'"
  using assms(2)
proof (cases rule: add_key_column_Ok)
  case (1 m c1)
  have "key_ok (bd_columns b @ [c1]) (bd_primary_key_indexes b @ [length (bd_columns b)])"
    using assms(1) 1(2) validate_column_Ok(3) [OF 1(1)] by (intro key_ok_append_key) (simp_all add: builder_inv_def)
  moreover have "timestamp_ok (bd_columns b @ [c1]) (bd_primary_key_indexes b @ [length (bd_columns b)])
      (next_timestamp_index b c1)"
    using assms(1) 1(3) unfolding next_timestamp_index_def
    by (intro timestamp_ok_append_key) (simp_all add: builder_inv_def)
  ultimately show ?thesis
    unfolding 1(4) using assms(1) validate_column_Ok(1,2) [OF 1(1)]
    by (intro builder_inv_insert) (simp_all add: builder_inv_def)
qed

lemma add_normal_column_inv:
  assumes "builder_inv b" and "add_normal_column b c = Ok b'"
  shows "builder_inv b'"
proof -
  obtain b1 c1 where alloc: "may_alloc_column_id b c = Ok (b1, c1)"
    and valid: "validate_column b1 c1 False = Ok ()" and b': "b' = insert_new_column b1 c1"
    using assms(2) by (auto simp: add_normal_column_def result_simps)
  from may_alloc_column_id_Ok [OF alloc] assms(1) have inv: "builder_inv b1"
    by (auto simp: builder_inv_def)
  then show ?thesis
    unfolding b' using validate_column_Ok(1,2) [OF valid] key_ok_append timestamp_ok_append
    by (intro builder_inv_insert) (simp_all add: builder_inv_def)
qed

lemma builder_reachable_inv: "builder_reachable b \<Longrightarrow> builder_inv b"
proof (induction rule: builder_reachable.induct)
  case start
  show ?case by (simp add: builder_inv_def builder_new_def columns_ok_def key_ok_def timestamp_ok_def)
next
  case (version b v)
  then show ?case by (simp add: builder_inv_def)
next
  case (auto_increment b a)
  then show ?case by (simp add: builder_inv_def)
qed (auto intro: add_key_column_inv add_normal_column_inv)

lemma columns_column_schemas_new [simp]: "columns (column_schemas_new cols) = cols"
  by (simp add: column_schemas_new_def split: prod.split)

lemma build_inv_wf:
  assumes "builder_inv b" and "build b = Ok s"
  shows "schema_wf s"
  using assms by (auto simp: build_def schema_wf_def schema_columns_def builder_inv_def Let_def
    split: option.splits if_splits)

lemma timestamp_ok_nonempty: "timestamp_ok cols pk (Some t) \<Longrightarrow> pk \<noteq> []"
  unfolding timestamp_ok_def by (metis empty_iff empty_set)

lemma build_inv_not_Panic: "builder_inv b \<Longrightarrow> build b \<noteq> Panic"
  by (auto simp: build_def builder_inv_def Let_def split: option.splits dest: timestamp_ok_nonempty)

section \<open>Looking columns up\<close>

lemma index_of_Some_iff:
  assumes "schema_wf s"
  shows "index_of s name = Some i \<longleftrightarrow> i < num_columns s \<and> cs_name (schema_columns s ! i) = name"
proof -
  let ?cols = "schema_columns s"
  let ?ps = "zip (map cs_name ?cols) [0..<length ?cols]"
  have d: "distinct (map fst (rev ?ps))"
    using assms by (simp add: schema_wf_def columns_ok_def map_fst_zip rev_map [symmetric])
  have "index_of s name = map_of (rev ?ps) name"
  proof -
    have "column_schemas_of s = column_schemas_new ?cols" using assms by (simp only: schema_wf_def)
    then show ?thesis by (simp add: index_of_def column_schemas_new_def split: prod.splits)
  qed
  then have "index_of s name = Some i \<longleftrightarrow> (name, i) \<in> set ?ps"
    using d by (simp add: map_of_eq_Some_iff)
  also have "\<dots> \<longleftrightarrow> i < length ?cols \<and> cs_name (?cols ! i) = name"
    by (force simp: set_zip)
  finally show ?thesis by (simp add: num_columns_def)
qed

lemma column_compatible_for_write_Ok:
  "column_compatible_for_write c w = Ok u \<longleftrightarrow>
     cs_data_type c = cs_data_type w \<and> (cs_is_nullable w \<longrightarrow> cs_is_nullable c)"
  by (auto simp: column_compatible_for_write_def)

lemma schema_column_Ok [result_simps]:
  "schema_column s i = Ok c \<longleftrightarrow> i < num_columns s \<and> c = schema_columns s ! i"
  by (auto simp: schema_column_def num_columns_def result_simps)

text \<open>What a successful compatibility check says of a table column and its place in the writer.\<close>

definition index_ok :: "schema \<Rightarrow> column_schema \<Rightarrow> nat option \<Rightarrow> bool" where
  "index_ok writer c idx \<longleftrightarrow>
     (case idx of
        None \<Rightarrow> index_of writer (cs_name c) = None \<and> cs_is_nullable c
      | Some j \<Rightarrow> index_of writer (cs_name c) = Some j \<and> j < num_columns writer \<and>
          cs_data_type c = cs_data_type (schema_columns writer ! j) \<and>
          (cs_is_nullable (schema_columns writer ! j) \<longrightarrow> cs_is_nullable c))"

lemma compat_column_Ok:
  "compat_column writer c (n, idx) = Ok (n', idx') \<longleftrightarrow>
     (\<exists>e. index_ok writer c e \<and> idx' = idx @ [e] \<and> n' = n + (if e = None then 0 else 1))"
proof (cases "index_of writer (cs_name c)")
  case None
  then show ?thesis by (auto simp: compat_column_def index_ok_def split: option.splits)
next
  case (Some j)
  then show ?thesis
    by (auto simp: compat_column_def index_ok_def result_simps column_compatible_for_write_Ok
      split: option.splits)
qed

lemma compat_columns_Ok:
  "res_fold (compat_column writer) cols (n, idx) = Ok (n', idx') \<longleftrightarrow>
     (\<exists>es. list_all2 (index_ok writer) cols es \<and> idx' = idx @ es \<and>
        n' = n + length (filter (\<lambda>e. e \<noteq> None) es))"
proof (induction cols arbitrary: n idx)
  case (Cons c cols)
  have "res_fold (compat_column writer) (c # cols) (n, idx) = Ok (n', idx') \<longleftrightarrow>
      (\<exists>n1 idx1. compat_column writer c (n, idx) = Ok (n1, idx1) \<and>
         res_fold (compat_column writer) cols (n1, idx1) = Ok (n', idx'))"
    by (simp add: result_simps)
  then show ?case
    unfolding compat_column_Ok Cons.IH by (auto simp: list_all2_Cons1) force+
qed auto

lemma compatible_for_write_Ok:
  assumes "compatible_for_write t w [] = Ok idx"
  shows "list_all2 (index_ok w) (schema_columns t) idx"
    and "length (filter (\<lambda>e. e \<noteq> None) idx) = num_columns w"
  using assms by (auto simp: compatible_for_write_def result_simps compat_columns_Ok split: if_splits)

lemma index_ok_Some: "index_ok w c (Some j) \<Longrightarrow> schema_wf w \<Longrightarrow>
    j < num_columns w \<and> cs_name (schema_columns w ! j) = cs_name c"
  by (simp add: index_ok_def index_of_Some_iff)

text \<open>Every column of the writer has exactly one column of the table that reads it.\<close>

lemma compat_distinct:
  assumes "schema_wf w" and "list_all2 (index_ok w) cols idx" and "distinct (map cs_name cols)"
  shows "distinct (map the (filter (\<lambda>e. e \<noteq> None) idx))"
    and "set (map the (filter (\<lambda>e. e \<noteq> None) idx)) \<subseteq> {..<num_columns w}"
    and "Some j \<in> set idx \<Longrightarrow> cs_name (schema_columns w ! j) \<in> set (map cs_name cols)"
  using assms(2,3)
proof (induction arbitrary: j)
  case (Cons c cols e idx)
  {
    case 1
    show ?case
    proof (cases e)
      case (Some j)
      have "Some j \<notin> set idx"
        using Cons.IH(3) [of j] 1 index_ok_Some [OF Cons.hyps(1) [unfolded Some] assms(1)] by auto
      with Cons.IH(1) 1 Some show ?thesis by auto
    qed (use Cons 1 in simp)
  next
    case 2
    then show ?case
      using Cons.IH(2) Cons.hyps(1) assms(1) index_ok_Some by (cases e) auto
  next
    case 3
    then show ?case
      using Cons.IH(3) [of j] Cons.hyps(1) assms(1) index_ok_Some by auto
  }
qed auto

lemma compat_onto:
  assumes "schema_wf t" and "schema_wf w" and "compatible_for_write t w [] = Ok idx" and "j < num_columns w"
  shows "Some j \<in> set idx"
proof -
  let ?js = "map the (filter (\<lambda>e. e \<noteq> None) idx)"
  note ok = compatible_for_write_Ok [OF assms(3)]
  have "distinct (map cs_name (schema_columns t))" using assms(1) by (simp add: schema_wf_def columns_ok_def)
  note d = compat_distinct [OF assms(2) ok(1) this]
  have "card (set ?js) = card {..<num_columns w}"
    using d(1) ok(2) by (simp only: distinct_card length_map card_lessThan)
  with d(2) have "set ?js = {..<num_columns w}" by (intro card_subset_eq) simp_all
  with assms(4) have "j \<in> set ?js" by simp
  then show ?thesis by auto
qed

section \<open>Rows in the schema of the table\<close>

definition table_row :: "index_in_writer \<Rightarrow> row \<Rightarrow> row" where
  "table_row idx row = map (\<lambda>e. case e of Some j \<Rightarrow> row ! j | None \<Rightarrow> D_Null) idx"

lemma check_datum_type_Ok:
  "check_datum_type d c = Ok u \<longleftrightarrow> (if d = D_Null then cs_is_nullable c else kind d = cs_data_type c)"
  by (auto simp: check_datum_type_def)

lemma check_row_schema_Ok:
  "check_row_schema row s = Ok () \<longleftrightarrow>
     list_all2 (\<lambda>d c. check_datum_type d c = Ok ()) row (schema_columns s)"
proof -
  have "res_fold (\<lambda>(index, d) _. res_bind (schema_column s index) (check_datum_type d)) (enumerate i ds) () = Ok () \<longleftrightarrow>
      (\<forall>j < length ds. i + j < num_columns s \<and> check_datum_type (ds ! j) (schema_columns s ! (i + j)) = Ok ())"
    for i ds
  proof (induction ds arbitrary: i)
    case (Cons d ds)
    show ?case
      by (auto simp: result_simps Cons.IH All_less_Suc2)
  qed simp
  then show ?thesis
    by (auto simp: check_row_schema_def num_columns_def list_all2_conv_all_nth)
qed

lemma distinct_map_nth_eq:
  "distinct (map f xs) \<Longrightarrow> i < length xs \<Longrightarrow> k < length xs \<Longrightarrow> f (xs ! i) = f (xs ! k) \<Longrightarrow> i = k"
  by (metis nth_eq_iff_index_eq length_map nth_map)

lemma compat_length: "compatible_for_write t w [] = Ok idx \<Longrightarrow> length idx = num_columns t"
  using list_all2_lengthD [OF compatible_for_write_Ok(1), of t w idx] by (simp add: num_columns_def)

lemma compat_entry:
  "compatible_for_write t w [] = Ok idx \<Longrightarrow> i < num_columns t \<Longrightarrow> index_ok w (schema_columns t ! i) (idx ! i)"
  using compatible_for_write_Ok(1) by (simp add: list_all2_conv_all_nth num_columns_def)

lemma compat_unique:
  assumes "schema_wf t" and "schema_wf w" and "compatible_for_write t w [] = Ok idx"
  shows "\<forall>j < num_columns w. \<exists>!i. i < num_columns t \<and> idx ! i = Some j"
proof (intro allI impI)
  fix j assume "j < num_columns w"
  then obtain i where i: "i < num_columns t" "idx ! i = Some j"
    using compat_onto [OF assms] compat_length [OF assms(3)] by (metis in_set_conv_nth)
  have "i' = i" if "i' < num_columns t" "idx ! i' = Some j" for i'
  proof (rule distinct_map_nth_eq [where f = cs_name])
    show "distinct (map cs_name (schema_columns t))"
      using assms(1) by (simp add: schema_wf_def columns_ok_def)
    show "cs_name (schema_columns t ! i') = cs_name (schema_columns t ! i)"
      using compat_entry [OF assms(3) i(1)] compat_entry [OF assms(3) that(1)] i(2) that(2)
        index_ok_Some [OF _ assms(2)] by metis
  qed (use i that in \<open>simp_all add: num_columns_def\<close>)
  with i show "\<exists>!i. i < num_columns t \<and> idx ! i = Some j" by blast
qed

lemma compat_row:
  assumes "compatible_for_write t w [] = Ok idx" and "check_row_schema row w = Ok ()"
  shows "check_row_schema (table_row idx row) t = Ok ()"
proof -
  have row: "check_datum_type (row ! j) (schema_columns w ! j) = Ok ()" if "j < num_columns w" for j
    using assms(2) that by (simp add: check_row_schema_Ok list_all2_conv_all_nth num_columns_def)
  have "check_datum_type (table_row idx row ! i) (schema_columns t ! i) = Ok ()" if "i < num_columns t" for i
    using compat_entry [OF assms(1) that] that row compat_length [OF assms(1)]
    by (auto simp: table_row_def index_ok_def check_datum_type_Ok split: option.splits if_splits)
  then show ?thesis
    using compat_length [OF assms(1)]
    by (simp add: check_row_schema_Ok list_all2_conv_all_nth table_row_def num_columns_def)
qed

section \<open>The protobuf round trip\<close>

text \<open>The builder after the first \<open>k\<close> columns of a schema have been read back.\<close>

definition pb_prefix :: "schema \<Rightarrow> nat \<Rightarrow> builder" where
  "pb_prefix s k =
     \<lparr>bd_columns = take k (schema_columns s),
      bd_primary_key_indexes = filter (\<lambda>i. i < k) (primary_key_indexes s),
      bd_timestamp_index = (if timestamp_index s < k then Some (timestamp_index s) else None),
      bd_column_names = set (map cs_name (take k (schema_columns s))),
      bd_column_ids = set (map cs_id (take k (schema_columns s))),
      bd_version = schema_version s, bd_auto_increment = False,
      bd_max_column_id = fold max (map cs_id (take k (schema_columns s))) COLUMN_ID_UNINIT\<rparr>"

lemma filter_less_Suc:
  "sorted_wrt (<) xs \<Longrightarrow> filter (\<lambda>i. i < Suc k) xs = filter (\<lambda>i. i < k) xs @ (if k \<in> set xs then [k] else [])"
  for xs :: "nat list"
proof (induction xs)
  case (Cons x xs)
  show ?case
  proof (cases "x < k")
    case True
    with Cons show ?thesis by auto
  next
    case False
    then have "filter (\<lambda>i. i < Suc k) xs = []" "filter (\<lambda>i. i < k) xs = []" "k \<notin> set xs"
      using Cons.prems by (auto simp: filter_empty_conv)
    with False show ?thesis by auto
  qed
qed simp

lemma distinct_take_nth:
  "distinct (map f xs) \<Longrightarrow> k < length xs \<Longrightarrow> f (xs ! k) \<notin> f ` set (take k xs)"
  by (auto simp: in_set_conv_nth distinct_map inj_on_def distinct_conv_nth)

lemma pk_ids_iff:
  assumes "schema_wf s" and "k < num_columns s"
  shows "cs_id (schema_columns s ! k) \<in> set (primary_key_ids s) \<longleftrightarrow>
    k \<in> set (primary_key_indexes s)"
proof -
  have "i = k" if "i \<in> set (primary_key_indexes s)"
    "cs_id (schema_columns s ! i) = cs_id (schema_columns s ! k)" for i
  proof -
    have "i < num_columns s" using that(1) assms(1) by (auto simp: schema_wf_def key_ok_def num_columns_def)
    with that(2) assms show ?thesis
      unfolding schema_wf_def columns_ok_def num_columns_def by (intro distinct_map_nth_eq [where f = cs_id]) auto
  qed
  then show ?thesis by (auto simp: primary_key_ids_def)
qed

lemma pb_add_column_prefix:
  assumes wf: "schema_wf s" and k: "k < num_columns s"
  shows "pb_add_column (primary_key_ids s) (schema_columns s ! k) (pb_prefix s k) =
    Ok (pb_prefix s (Suc k))"
proof -
  let ?c = "schema_columns s ! k"
  have k': "k < length (schema_columns s)" using k by (simp add: num_columns_def)
  have fresh: "cs_name ?c \<notin> cs_name ` set (take k (schema_columns s))"
    "cs_id ?c \<notin> cs_id ` set (take k (schema_columns s))"
    using wf k' distinct_take_nth by (auto simp: schema_wf_def columns_ok_def)
  have sorted: "sorted_wrt (<) (primary_key_indexes s)" using wf by (simp add: schema_wf_def key_ok_def)
  have ts_pk: "timestamp_index s \<in> set (primary_key_indexes s)"
    using wf unfolding schema_wf_def timestamp_ok_def by blast
  have ts_kind: "cs_data_type (schema_columns s ! timestamp_index s) = K_Timestamp"
    using wf unfolding schema_wf_def timestamp_ok_def by blast
  show ?thesis
  proof (cases "k \<in> set (primary_key_indexes s)")
    case True
    then have kc: "is_key_kind (cs_data_type ?c)" "\<not> cs_is_nullable ?c"
      using wf by (auto simp: schema_wf_def key_ok_def)
    have ts: "cs_data_type ?c = K_Timestamp \<longleftrightarrow> timestamp_index s = k"
      using wf True ts_kind unfolding schema_wf_def timestamp_ok_def by blast
    show ?thesis
      using True kc fresh k' ts
      by (simp add: pb_add_column_def pk_ids_iff [OF wf k] add_key_column_def may_alloc_column_id_def
        validate_column_def pb_prefix_def insert_new_column_def filter_less_Suc [OF sorted]
        take_Suc_conv_app_nth max.commute less_Suc_eq [of "timestamp_index s"])
  next
    case False
    then have "timestamp_index s \<noteq> k" using ts_pk by auto
    with False fresh k' show ?thesis
      by (simp add: pb_add_column_def pk_ids_iff [OF wf k] add_normal_column_def may_alloc_column_id_def
        validate_column_def pb_prefix_def insert_new_column_def filter_less_Suc [OF sorted]
        take_Suc_conv_app_nth max.commute less_Suc_eq [of "timestamp_index s"])
  qed
qed

lemma pb_fold_prefix:
  assumes "schema_wf s" and "k \<le> num_columns s"
  shows "res_fold (pb_add_column (primary_key_ids s)) (take k (schema_columns s))
    (builder_new\<lparr>bd_version := schema_version s\<rparr>) = Ok (pb_prefix s k)"
  using assms(2)
proof (induction k)
  case 0
  show ?case by (simp add: pb_prefix_def builder_new_def)
next
  case (Suc k)
  then show ?case
    using pb_add_column_prefix [OF assms(1), of k]
    by (simp add: take_Suc_conv_app_nth num_columns_def res_fold_append)
qed

lemma build_pb_prefix:
  assumes wf: "schema_wf s"
  shows "build (pb_prefix s (num_columns s)) = Ok s"
proof -
  have pk: "\<forall>i \<in> set (primary_key_indexes s). i < num_columns s"
    using wf by (simp add: schema_wf_def key_ok_def num_columns_def)
  then have all: "filter (\<lambda>i. i < num_columns s) (primary_key_indexes s) = primary_key_indexes s" by simp
  have ts: "timestamp_index s \<in> set (primary_key_indexes s)"
    using wf unfolding schema_wf_def timestamp_ok_def by blast
  then have "primary_key_indexes s \<noteq> []" and "timestamp_index s < num_columns s" using pk by auto
  moreover have "find_tsid_index (schema_columns s) = None \<or> length (primary_key_indexes s) = 2"
    using wf unfolding schema_wf_def by metis
  moreover have "tsid_index s = find_tsid_index (schema_columns s)"
    "column_schemas_of s = column_schemas_new (schema_columns s)" using wf unfolding schema_wf_def by blast+
  ultimately show ?thesis
    using all by (simp add: build_def pb_prefix_def Let_def num_columns_def)
qed

section \<open>Row groups\<close>

definition timestamps_of :: "schema \<Rightarrow> row list \<Rightarrow> int list" where
  "timestamps_of s rows = map (\<lambda>row. sint (case row ! timestamp_index s of D_Timestamp t \<Rightarrow> t | _ \<Rightarrow> 0)) rows"

lemma row_timestamp_checked:
  assumes "schema_wf s" and "check_row_schema row s = Ok ()"
  shows "\<exists>t. row ! timestamp_index s = D_Timestamp t \<and> row_timestamp row s = Ok (Some (sint t))"
proof -
  let ?i = "timestamp_index s"
  have "?i \<in> set (primary_key_indexes s)" and kind: "cs_data_type (schema_columns s ! ?i) = K_Timestamp"
    using assms(1) unfolding schema_wf_def timestamp_ok_def by blast+
  then have i: "?i < length (schema_columns s)" and nn: "\<not> cs_is_nullable (schema_columns s ! ?i)"
    using assms(1) by (auto simp: schema_wf_def key_ok_def)
  then have "check_datum_type (row ! ?i) (schema_columns s ! ?i) = Ok ()" and len: "?i < length row"
    using assms(2) by (auto simp: check_row_schema_Ok list_all2_conv_all_nth)
  then have "kind (row ! ?i) = K_Timestamp" using kind nn by (simp add: check_datum_type_Ok split: if_splits)
  then obtain t where "row ! ?i = D_Timestamp t" by (cases "row ! ?i") simp_all
  with len show ?thesis by (simp add: row_timestamp_def index_res_def)
qed

lemma with_rows_fold:
  assumes "schema_wf (rgb_schema g)" and "\<forall>row \<in> set rows. check_row_schema row (rgb_schema g) = Ok ()"
  shows "res_fold (\<lambda>row g. res_bind (check_row_schema row (rgb_schema g)) (\<lambda>_. update_timestamps g row)) rows g =
    Ok (g\<lparr>rgb_min_timestamp := fold (\<lambda>t m. Some (case m of Some m \<Rightarrow> min m t | None \<Rightarrow> t))
             (timestamps_of (rgb_schema g) rows) (rgb_min_timestamp g),
          rgb_max_timestamp := fold (\<lambda>t m. max m t) (timestamps_of (rgb_schema g) rows) (rgb_max_timestamp g)\<rparr>)"
  using assms
proof (induction rows arbitrary: g)
  case Nil
  then show ?case by (simp add: timestamps_of_def)
next
  case (Cons row rows)
  from row_timestamp_checked [OF Cons.prems(1), of row] Cons.prems(2)
  obtain t where "row ! timestamp_index (rgb_schema g) = D_Timestamp t"
    and "\<And>x. row_timestamp row (rgb_schema g) = (Ok (Some (sint t)) :: (row_error, _) result)" by auto
  with Cons show ?case by (simp add: update_timestamps_def timestamps_of_def)
qed

lemma fold_min_Some: "fold (\<lambda>t m. Some (case m of Some m \<Rightarrow> min m t | None \<Rightarrow> t)) ts (Some m) =
    Some (Min (insert m (set ts)))" for m :: int
proof (induction ts arbitrary: m)
  case (Cons t ts)
  have "Min (insert m (insert t (set ts))) = Min (insert (min m t) (set ts))"
    by (cases "set ts = {}") (simp_all add: min.assoc)
  with Cons show ?case by simp
qed simp

lemma fold_max: "fold (\<lambda>t m. max m t) ts m = Max (insert m (set ts))" for m :: int
proof (induction ts arbitrary: m)
  case (Cons t ts)
  have "Max (insert m (insert t (set ts))) = Max (insert (max m t) (set ts))"
    by (cases "set ts = {}") (simp_all add: max.assoc)
  with Cons show ?case by simp
qed simp

text \<open>
  What is relied on of the crates: the accessor reads back the number of a data type, and serde
  encodes every expression so that it decodes to itself.
\<close>

definition pb_api_ok :: "pb_api \<Rightarrow> bool" where
  "pb_api_ok api \<longleftrightarrow> (\<forall>t. pa_data_type api (pa_code api t) = t) \<and>
     (\<forall>e. \<exists>v. pa_to_vec api e = Some v \<and> pa_from_slice api v = Some e)"

lemma kind_pb_inverse: "kind_from_pb (kind_to_pb k) = k"
  by (cases k) simp_all

lemma column_pb_inverse:
  assumes "pb_api_ok api"
  shows "\<exists>pb. column_to_pb api c = (Ok pb :: ('e, _) result) \<and> column_from_pb api pb = Ok c"
proof (cases "cs_default_value c")
  case None
  then show ?thesis
    using assms by (cases c) (simp add: column_to_pb_def column_from_pb_def pb_api_ok_def kind_pb_inverse)
next
  case (Some e)
  obtain v where "pa_to_vec api e = Some v" "pa_from_slice api v = Some e" using assms unfolding pb_api_ok_def by blast
  then show ?thesis
    using Some assms by (cases c) (simp add: column_to_pb_def column_from_pb_def pb_api_ok_def kind_pb_inverse)
qed

lemma columns_to_pb:
  assumes "pb_api_ok api"
  shows "\<exists>pbs. res_fold (\<lambda>c columns. res_bind (column_to_pb api c) (\<lambda>pb. Ok (columns @ [pb]))) cs acc = (Ok (acc @ pbs) :: ('e, _) result) \<and>
    list_all2 (\<lambda>pb c. column_from_pb api pb = Ok c) pbs cs"
proof (induction cs arbitrary: acc)
  case (Cons c cs)
  obtain pb where pb: "column_to_pb api c = (Ok pb :: ('e, _) result)" "column_from_pb api pb = Ok c"
    using column_pb_inverse [OF assms, of c, where 'e = 'e] by blast
  from Cons [of "acc @ [pb]"] obtain pbs where
    "res_fold (\<lambda>c columns. res_bind (column_to_pb api c) (\<lambda>pb. Ok (columns @ [pb]))) cs (acc @ [pb]) = (Ok ((acc @ [pb]) @ pbs) :: ('e, _) result)"
    "list_all2 (\<lambda>pb c. column_from_pb api pb = Ok c) pbs cs" by blast
  with pb show ?case by (intro exI [of _ "pb # pbs"]) simp
qed simp

lemma columns_from_pb:
  assumes "list_all2 (\<lambda>pb c. column_from_pb api pb = Ok c) pbs cs"
  shows "res_fold (\<lambda>pb b. res_bind (res_ctx ColumnSchemaDeserializeFailed (column_from_pb api pb)) (\<lambda>c. pb_add_column ids c b)) pbs b =
    res_fold (pb_add_column ids) cs b"
  using assms
proof (induction arbitrary: b rule: list_all2_induct)
  case (Cons pb pbs c cs)
  then show ?case by (cases "pb_add_column ids c b") simp_all
qed simp

lemma schema_pb_inverse:
  assumes "pb_api_ok api" and "schema_wf s"
  shows "\<exists>pb. schema_to_pb api s = (Ok pb :: ('e, _) result) \<and> schema_from_pb api pb = Ok s"
proof -
  obtain pbs where pbs: "res_fold (\<lambda>c columns. res_bind (column_to_pb api c) (\<lambda>pb. Ok (columns @ [pb]))) (schema_columns s) [] = (Ok pbs :: ('e, _) result)"
    "list_all2 (\<lambda>pb c. column_from_pb api pb = Ok c) pbs (schema_columns s)"
    using columns_to_pb [OF assms(1), of "schema_columns s" "[]", where 'e = 'e] by auto
  have "res_fold (pb_add_column (primary_key_ids s)) (schema_columns s)
      (builder_new\<lparr>bd_version := schema_version s\<rparr>) = Ok (pb_prefix s (num_columns s))"
    using pb_fold_prefix [OF assms(2), of "num_columns s"] by (simp add: num_columns_def)
  then show ?thesis
    using build_pb_prefix [OF assms(2)] pbs(1) by (simp add: schema_from_pb_def schema_to_pb_def columns_from_pb [OF pbs(2)])
qed

text \<open>A default value that does not decode is reported, before any later column is looked at.\<close>

lemma schema_from_pb_bad_default:
  assumes "cp_default_value pb = Some v" and "pa_from_slice api v = None"
  shows "schema_from_pb api \<lparr>pb_timestamp_id = t, pb_version = n, pb_columns = pb # pbs, pb_primary_key_ids = ids\<rparr> =
    Err (ColumnSchemaDeserializeFailed (DecodeDefaultValue v))"
  using assms by (simp add: schema_from_pb_def column_from_pb_def)

section \<open>A schema to try things on\<close>

definition demo_column :: "nat \<Rightarrow> string \<Rightarrow> datum_kind \<Rightarrow> bool \<Rightarrow> column_schema" where
  "demo_column i name k nullable =
     \<lparr>cs_id = of_nat i, cs_name = name, cs_data_type = k, cs_is_nullable = nullable, cs_is_tag = False,
      cs_is_dictionary = False, cs_comment = [], cs_default_value = None\<rparr>"

definition demo_columns :: "column_schema list" where
  "demo_columns =
     [demo_column 1 ''host'' K_String False, demo_column 2 ''ts'' K_Timestamp False,
      demo_column 3 ''cpu'' K_Double True, demo_column 4 ''mem'' K_Double True]"

definition demo_schema :: schema where
  "demo_schema =
     \<lparr>primary_key_indexes = [0, 1], timestamp_index = 1, tsid_index = None,
      column_schemas_of = column_schemas_new demo_columns, schema_version = 1\<rparr>"

text \<open>The same table as a client sees it that does not write the column \<open>cpu\<close>.\<close>

definition demo_writer :: schema where
  "demo_writer = demo_schema\<lparr>column_schemas_of :=
     column_schemas_new [demo_columns ! 0, demo_columns ! 1, demo_columns ! 3]\<rparr>"

lemma demo_columns_of [simp]:
  "schema_columns demo_schema = demo_columns"
  "schema_columns demo_writer = [demo_columns ! 0, demo_columns ! 1, demo_columns ! 3]"
  by (simp_all add: schema_columns_def demo_schema_def demo_writer_def)

lemmas demo_defs = demo_columns_def demo_column_def

lemma demo_schema_wf: "schema_wf demo_schema" "schema_wf demo_writer"
  by (simp_all add: schema_wf_def columns_ok_def key_ok_def timestamp_ok_def)
    (simp_all add: demo_schema_def demo_writer_def demo_defs find_tsid_index_def)

lemma demo_compatible: "compatible_for_write demo_schema demo_writer [] = Ok [Some 0, Some 1, None, Some 2]"
  by (simp add: compatible_for_write_def compat_column_def num_columns_def index_of_def schema_column_def
    index_res_def column_compatible_for_write_def demo_writer_def demo_schema_def demo_defs
    column_schemas_new_def schema_columns_def)

text \<open>A numbering of the data types and an encoding of expressions that keep what is asked of the crates.\<close>

definition demo_types :: "data_type_pb list" where
  "demo_types = [Pb_Null, Pb_Timestamp, Pb_Double, Pb_Float, Pb_Varbinary, Pb_String, Pb_Uint64, Pb_Uint32, Pb_Uint16,
     Pb_Uint8, Pb_Int64, Pb_Int32, Pb_Int16, Pb_Int8, Pb_Bool, Pb_Date, Pb_Time]"

definition demo_api :: pb_api where
  "demo_api =
     \<lparr>pa_code = (\<lambda>t. int (length (takeWhile (\<lambda>u. u \<noteq> t) demo_types))),
      pa_data_type = (\<lambda>i. if 0 \<le> i \<and> i < 17 then demo_types ! nat i else Pb_Null),
      pa_to_vec = (\<lambda>e. case e of Sql_Expr t \<Rightarrow> Some (map (\<lambda>c. of_nat (of_char c)) t)),
      pa_from_slice = (\<lambda>v. Some (Sql_Expr (map (\<lambda>b. char_of (unat b)) v)))\<rparr>"

lemma demo_api_ok: "pb_api_ok demo_api"
proof -
  have char: "char_of (unat (of_nat (of_char c) :: u8)) = c" for c
  proof -
    have "(of_char c :: nat) < 2 ^ 8" using range_nat_of_char by auto
    then have "unat (of_nat (of_char c) :: u8) = of_char c" by (simp add: unat_of_nat)
    then show ?thesis by simp
  qed
  have "pa_data_type demo_api (pa_code demo_api t) = t" for t
    by (cases t) (simp_all add: demo_api_def demo_types_def)
  moreover have "\<exists>v. pa_to_vec demo_api e = Some v \<and> pa_from_slice demo_api v = Some e" for e
    by (cases e) (simp add: demo_api_def char comp_def)
  ultimately show ?thesis by (simp add: pb_api_ok_def)
qed

definition demo_default_schema :: schema where
  "demo_default_schema = demo_schema\<lparr>column_schemas_of :=
     column_schemas_new [demo_columns ! 0, demo_columns ! 1, (demo_columns ! 2)\<lparr>cs_default_value := Some (Sql_Expr ''1'')\<rparr>]\<rparr>"

lemma demo_default_schema_wf: "schema_wf demo_default_schema"
  by (simp add: schema_wf_def columns_ok_def key_ok_def timestamp_ok_def)
    (simp add: demo_schema_def demo_default_schema_def demo_defs find_tsid_index_def schema_columns_def)

section \<open>Properties\<close>

text \<open>
  C21. A schema built by the builder is well formed, and building never hits the assertion on empty
  keys: after any sequence of builder calls that succeeded, names and ids are distinct, the key
  columns are in order, of key kinds and not nullable, exactly one of them is the timestamp, and a
  schema with a \<open>tsid\<close> has two key columns.
\<close>

theorem build_schema_wf:
  assumes "builder_reachable b"
  shows "build b \<noteq> Panic \<and> (\<forall>s. build b = Ok s \<longrightarrow> schema_wf s)"
  using builder_reachable_inv [OF assms] build_inv_not_Panic build_inv_wf by blast

theorem build_schema_wf_witness:
  "\<exists>b s. res_bind (add_key_column builder_new (demo_columns ! 0)) (\<lambda>b. add_key_column b (demo_columns ! 1)) = Ok b \<and>
     build b = Ok s \<and> schema_wf s"
proof -
  let ?b = "res_bind (add_key_column builder_new (demo_columns ! 0)) (\<lambda>b. add_key_column b (demo_columns ! 1))"
  have "case ?b of Ok b \<Rightarrow> (case build b of Ok s \<Rightarrow> True | _ \<Rightarrow> False) | _ \<Rightarrow> False" by code_simp
  then obtain b s where b: "?b = Ok b" "build b = Ok s" by (auto split: result.splits)
  then have "builder_reachable b"
    unfolding res_bind_eq_Ok by (blast intro: builder_reachable.start builder_reachable.key)
  from build_schema_wf [OF this] b show ?thesis by blast
qed

text \<open>
  C22. A schema survives its protobuf form: writing it does not panic, and reading it back, column by
  column with the data types and the default values, gives the schema.  Relied on are the numbers of
  the data types and serde's encoding of expressions.
\<close>

theorem schema_pb_round_trip:
  assumes "pb_api_ok api" and "schema_wf s"
  shows "\<exists>pb. schema_to_pb api s = (Ok pb :: (unit, _) result) \<and> schema_from_pb api pb = Ok s"
  using assms by (rule schema_pb_inverse)

theorem schema_pb_round_trip_witness:
  "pb_api_ok demo_api \<and> schema_wf demo_default_schema \<and>
   (\<exists>pb. schema_to_pb demo_api demo_default_schema = (Ok pb :: (unit, _) result) \<and>
     schema_from_pb demo_api pb = Ok demo_default_schema)"
  using schema_pb_round_trip [OF demo_api_ok demo_default_schema_wf] demo_api_ok demo_default_schema_wf by blast

text \<open>
  C23. What a successful write-compatibility check guarantees: the index mapping has one entry for
  each table column, every column of the writer is read by exactly one of them, and every row that
  fits the writer's schema becomes, by the mapping with nulls for the missing columns, a row that
  fits the table's schema.
\<close>

theorem compatible_for_write_sound:
  assumes "schema_wf t" and "schema_wf w" and "compatible_for_write t w [] = Ok idx"
  shows "length idx = num_columns t \<and>
    (\<forall>j < num_columns w. \<exists>!i. i < num_columns t \<and> idx ! i = Some j) \<and>
    (\<forall>row. check_row_schema row w = Ok () \<longrightarrow> check_row_schema (table_row idx row) t = Ok ())"
  using compat_length [OF assms(3)] compat_unique [OF assms] compat_row [OF assms(3)] by blast

theorem compatible_for_write_sound_witness:
  "length [Some 0, Some 1, None, Some 2 :: nat option] = num_columns demo_schema \<and>
   check_row_schema (table_row [Some 0, Some 1, None, Some 2] [D_String [97], D_Timestamp 7, D_Double 3]) demo_schema =
     Ok ()"
  using compatible_for_write_sound [OF demo_schema_wf demo_compatible]
  by (simp add: check_row_schema_Ok check_datum_type_Ok demo_defs)

text \<open>
  C24. The time range of a row group: for rows that fit a well-formed schema, building a group from
  them succeeds, the minimum is the least timestamp of the rows, but the maximum is the largest of
  the timestamps \<^emph>\<open>and zero\<close>, so it exceeds every timestamp of a group from before 1970.
\<close>

theorem row_group_timestamps:
  assumes "schema_wf s" and "rows \<noteq> []" and "\<forall>row \<in> set rows. check_row_schema row s = Ok ()"
  shows "\<exists>g. row_group_with_rows s rows = Ok g \<and> rg_rows (row_group_build g) = rows \<and>
    rg_min_timestamp (row_group_build g) = Min (set (timestamps_of s rows)) \<and>
    rg_max_timestamp (row_group_build g) = Max (insert 0 (set (timestamps_of s rows)))"
proof -
  obtain t ts where ts: "timestamps_of s rows = t # ts"
    using assms(2) by (cases rows) (auto simp: timestamps_of_def)
  then show ?thesis
    using with_rows_fold [of "row_group_builder_new s" rows] assms(1,3)
    by (simp add: row_group_with_rows_def row_group_build_def row_group_builder_new_def fold_min_Some fold_max)
      (cases "set ts = {}", simp_all add: max.assoc)
qed

theorem row_group_timestamps_witness:
  "\<exists>g. row_group_with_rows demo_schema [[D_String [97], D_Timestamp (- 5), D_Null, D_Null]] = Ok g \<and>
     rg_rows (row_group_build g) = [[D_String [97], D_Timestamp (- 5), D_Null, D_Null]] \<and>
     rg_min_timestamp (row_group_build g) = Min (set (timestamps_of demo_schema [[D_String [97], D_Timestamp (- 5), D_Null, D_Null]])) \<and>
     rg_max_timestamp (row_group_build g) = Max (insert 0 (set (timestamps_of demo_schema [[D_String [97], D_Timestamp (- 5), D_Null, D_Null]])))"
  by (rule row_group_timestamps [OF demo_schema_wf(1)])
    (simp_all add: check_row_schema_Ok check_datum_type_Ok demo_defs)

end
