(* ===== verification/Contiguous_Row.thy ===== *)
theory Contiguous_Row
  imports Schema
begin

unbundle bit_operations_syntax

text \<open>
  Rows in one buffer, as the memtable stores them: \<^verbatim>\<open>common_types/src/row/contiguous.rs\<close>, and the
  bit set for their null columns, \<^verbatim>\<open>common_types/src/bitset.rs\<close>. The native byte order of the
  source (\<open>to_ne_bytes\<close>) is taken to be little-endian; writer and reader use the same one. Indexing
  and slicing out of range panic, and a view of a value is the value.
\<close>

section \<open>Bit sets\<close>

datatype contiguous_error =
  StringTooLong nat
| RowTooLong nat
| NumNullColsMissing
| InvalidBitSetBytes nat nat

record bit_set =
  bs_buffer :: "u8 list"
  bs_num_bits :: nat

definition bit_set_num_bytes :: "nat \<Rightarrow> nat" where
  "bit_set_num_bytes n = (n + 7) div 8"

definition bit_set_new :: "nat \<Rightarrow> bit_set" where
  "bit_set_new n = \<lparr>bs_buffer = replicate (bit_set_num_bytes n) 0, bs_num_bits = n\<rparr>"

definition bit_set_all_set :: "nat \<Rightarrow> bit_set" where
  "bit_set_all_set n = \<lparr>bs_buffer = replicate (bit_set_num_bytes n) 0xFF, bs_num_bits = n\<rparr>"

definition bit_set_try_from_raw :: "u8 list \<Rightarrow> nat \<Rightarrow> bit_set option" where
  "bit_set_try_from_raw buffer n =
     (if length buffer < bit_set_num_bytes n then None else Some \<lparr>bs_buffer = buffer, bs_num_bits = n\<rparr>)"

definition compute_byte_bit_index :: "nat \<Rightarrow> nat \<times> nat" where
  "compute_byte_bit_index index = (index div 8, index mod 8)"

definition bit_set_set :: "bit_set \<Rightarrow> nat \<Rightarrow> (contiguous_error, bit_set \<times> bool) result" where
  "bit_set_set s index =
     (if bs_num_bits s \<le> index then Ok (s, False)
      else case compute_byte_bit_index index of (byte_index, bit_index) \<Rightarrow>
        res_bind (index_res (bs_buffer s) byte_index) (\<lambda>v.
          Ok (s\<lparr>bs_buffer := (bs_buffer s)[byte_index := v OR 2 ^ bit_index]\<rparr>, True)))"

definition bit_set_unset :: "bit_set \<Rightarrow> nat \<Rightarrow> (contiguous_error, bit_set \<times> bool) result" where
  "bit_set_unset s index =
     (if bs_num_bits s \<le> index then Ok (s, False)
      else case compute_byte_bit_index index of (byte_index, bit_index) \<Rightarrow>
        res_bind (index_res (bs_buffer s) byte_index) (\<lambda>v.
          Ok (s\<lparr>bs_buffer := (bs_buffer s)[byte_index := v AND (255 - 2 ^ bit_index)]\<rparr>, True)))"

definition bit_set_is_set :: "bit_set \<Rightarrow> nat \<Rightarrow> (contiguous_error, bool option) result" where
  "bit_set_is_set s index =
     (if bs_num_bits s \<le> index then Ok None
      else case compute_byte_bit_index index of (byte_index, bit_index) \<Rightarrow>
        res_bind (index_res (bs_buffer s) byte_index) (\<lambda>v. Ok (Some (v AND 2 ^ bit_index \<noteq> 0))))"

text \<open>A bit set by its bits.\<close>

definition bit_set_wf :: "bit_set \<Rightarrow> bool" where
  "bit_set_wf s \<longleftrightarrow> bit_set_num_bytes (bs_num_bits s) \<le> length (bs_buffer s)"

definition bit_set_bit :: "bit_set \<Rightarrow> nat \<Rightarrow> bool" where
  "bit_set_bit s i \<longleftrightarrow> bit (bs_buffer s ! (i div 8)) (i mod 8)"

lemma byte_index_less: "bit_set_wf s \<Longrightarrow> i < bs_num_bits s \<Longrightarrow> i div 8 < length (bs_buffer s)"
proof -
  assume "bit_set_wf s" and i: "i < bs_num_bits s"
  then have "(bs_num_bits s + 7) div 8 \<le> length (bs_buffer s)" by (simp add: bit_set_wf_def bit_set_num_bytes_def)
  moreover have "i div 8 < (bs_num_bits s + 7) div 8"
  proof -
    have "(i + 8) div 8 \<le> (bs_num_bits s + 7) div 8" using i by (intro div_le_mono) simp
    then show ?thesis by simp
  qed
  ultimately show ?thesis by simp
qed

lemma bit_set_is_set_ok:
  "bit_set_wf s \<Longrightarrow> i < bs_num_bits s \<Longrightarrow> bit_set_is_set s i = Ok (Some (bit_set_bit s i))"
  using byte_index_less [of s i]
  by (simp add: bit_set_is_set_def compute_byte_bit_index_def index_res_def and_exp_eq_0_iff_not_bit bit_set_bit_def)

lemma bit_255: "bit (255 :: int) k \<longleftrightarrow> k < 8"
proof -
  have "(255 :: int) = mask 8" by (simp add: mask_eq_exp_minus_1)
  then show ?thesis by (simp only: bit_mask_iff) simp
qed

lemma and_unset_mask: "k < 8 \<Longrightarrow> v AND (255 - 2 ^ k) = unset_bit k v" for v :: u8
proof -
  assume "k < 8"
  have "(255 :: u8) - 2 ^ k = NOT (2 ^ k)" by (simp add: not_eq_complement)
  then show ?thesis by (simp add: unset_bit_eq_and_not push_bit_eq_mult)
qed

lemma bit_set_unset_ok:
  assumes "bit_set_wf s" and "i < bs_num_bits s"
  shows "\<exists>s'. bit_set_unset s i = Ok (s', True) \<and> bit_set_wf s' \<and> bs_num_bits s' = bs_num_bits s \<and>
    length (bs_buffer s') = length (bs_buffer s) \<and> (\<forall>j. bit_set_bit s' j \<longleftrightarrow> bit_set_bit s j \<and> j \<noteq> i)"
proof -
  let ?s = "s\<lparr>bs_buffer := (bs_buffer s)[i div 8 := unset_bit (i mod 8) (bs_buffer s ! (i div 8))]\<rparr>"
  have idx: "i div 8 < length (bs_buffer s)" using assms by (rule byte_index_less)
  have "bit_set_unset s i = Ok (?s, True)"
    using assms(2) idx
    by (simp add: bit_set_unset_def compute_byte_bit_index_def index_res_def and_unset_mask)
  moreover have "bit_set_bit ?s j \<longleftrightarrow> bit_set_bit s j \<and> j \<noteq> i" for j
  proof (cases "j div 8 = i div 8")
    case True
    then have ne: "i mod 8 = j mod 8 \<longleftrightarrow> j = i" by (metis mult_div_mod_eq)
    have "bit_set_bit ?s j \<longleftrightarrow> bit (unset_bit (i mod 8) (bs_buffer s ! (i div 8))) (j mod 8)"
      using True idx by (simp add: bit_set_bit_def)
    also have "\<dots> \<longleftrightarrow> bit_set_bit s j \<and> j \<noteq> i"
      unfolding bit_unset_bit_iff ne bit_set_bit_def True by blast
    finally show ?thesis .
  next
    case False
    then have "bit_set_bit ?s j \<longleftrightarrow> bit_set_bit s j" by (simp add: bit_set_bit_def)
    moreover have "j \<noteq> i" using False by blast
    ultimately show ?thesis by blast
  qed
  moreover have "bit_set_wf ?s" using assms(1) by (simp add: bit_set_wf_def)
  ultimately show ?thesis by (intro exI [of _ ?s]) simp
qed

section \<open>Limits and slices\<close>

abbreviation (input) MAX_STRING_LEN :: nat where "MAX_STRING_LEN \<equiv> 1024 * 1024 * 16"
abbreviation (input) MAX_ROW_LEN :: nat where "MAX_ROW_LEN \<equiv> 1024 * 1024 * 1024"
abbreviation (input) size_of_num_bits :: nat where "size_of_num_bits \<equiv> 4"
abbreviation (input) size_of_offset :: nat where "size_of_offset \<equiv> 4"

text \<open>\<open>&buf[..n]\<close> and \<open>&buf[n..]\<close>\<close>

definition slice_to :: "u8 list \<Rightarrow> nat \<Rightarrow> (contiguous_error, u8 list) result" where
  "slice_to buf n = (if n \<le> length buf then Ok (take n buf) else Panic)"

definition slice_from :: "u8 list \<Rightarrow> nat \<Rightarrow> (contiguous_error, u8 list) result" where
  "slice_from buf n = (if n \<le> length buf then Ok (drop n buf) else Panic)"

section \<open>The writer\<close>

definition write_byte_to_offset :: "u8 list \<Rightarrow> nat \<Rightarrow> u8 \<Rightarrow> (contiguous_error, u8 list \<times> nat) result" where
  "write_byte_to_offset inner offset v =
     (if offset < length inner then Ok (inner[offset := v], offset + 1) else Panic)"

definition write_slice_to_offset :: "u8 list \<Rightarrow> nat \<Rightarrow> u8 list \<Rightarrow> (contiguous_error, u8 list \<times> nat) result" where
  "write_slice_to_offset inner offset src =
     (if offset + length src \<le> length inner
      then Ok (take offset inner @ src @ drop (offset + length src) inner, offset + length src)
      else Panic)"

text \<open>The arms of \<open>write_datum\<close> for values of fixed size, and for byte strings and strings.\<close>

definition write_fixed ::
    "u8 list \<Rightarrow> datum_kind \<Rightarrow> u8 list \<Rightarrow> nat \<Rightarrow> nat \<Rightarrow> (contiguous_error, u8 list \<times> nat \<times> nat) result" where
  "write_fixed inner k value_buf offset next_string_offset =
     res_bind (write_byte_to_offset inner offset (into_u8 k)) (\<lambda>(inner, offset).
     res_bind (write_slice_to_offset inner offset value_buf) (\<lambda>(inner, offset).
       Ok (inner, offset, next_string_offset)))"

definition write_var_len ::
    "u8 list \<Rightarrow> datum_kind \<Rightarrow> u8 list \<Rightarrow> nat \<Rightarrow> nat \<Rightarrow> (contiguous_error, u8 list \<times> nat \<times> nat) result" where
  "write_var_len inner k v offset next_string_offset =
     res_bind (write_byte_to_offset inner offset (into_u8 k)) (\<lambda>(inner, offset).
       if next_string_offset \<le> MAX_ROW_LEN
       then res_bind (write_slice_to_offset inner offset (le_bytes 4 next_string_offset)) (\<lambda>(inner, offset).
         if length v \<le> MAX_STRING_LEN
         then res_bind (write_slice_to_offset inner next_string_offset (le_bytes 4 (length v))) (\<lambda>(inner, next_string_offset).
              res_bind (write_slice_to_offset inner next_string_offset v) (\<lambda>(inner, next_string_offset).
                Ok (inner, offset, next_string_offset)))
         else Err (StringTooLong (length v)))
       else Err (StringTooLong next_string_offset))"

primrec write_datum ::
    "u8 list \<Rightarrow> datum \<Rightarrow> nat \<Rightarrow> nat \<Rightarrow> (contiguous_error, u8 list \<times> nat \<times> nat) result" where
  "write_datum inner D_Null offset next_string_offset = Ok (inner, offset, next_string_offset)"
| "write_datum inner (D_Timestamp v) offset next_string_offset =
     write_fixed inner K_Timestamp (le_bytes 8 (unat v)) offset next_string_offset"
| "write_datum inner (D_Double v) offset next_string_offset =
     write_fixed inner K_Double (le_bytes 8 (unat v)) offset next_string_offset"
| "write_datum inner (D_Float v) offset next_string_offset =
     write_fixed inner K_Float (le_bytes 4 (unat v)) offset next_string_offset"
| "write_datum inner (D_Varbinary v) offset next_string_offset =
     write_var_len inner K_Varbinary v offset next_string_offset"
| "write_datum inner (D_String v) offset next_string_offset =
     write_var_len inner K_String v offset next_string_offset"
| "write_datum inner (D_UInt64 v) offset next_string_offset =
     write_fixed inner K_UInt64 (le_bytes 8 (unat v)) offset next_string_offset"
| "write_datum inner (D_UInt32 v) offset next_string_offset =
     write_fixed inner K_UInt32 (le_bytes 4 (unat v)) offset next_string_offset"
| "write_datum inner (D_UInt16 v) offset next_string_offset =
     write_fixed inner K_UInt16 (le_bytes 2 (unat v)) offset next_string_offset"
| "write_datum inner (D_UInt8 v) offset next_string_offset =
     write_fixed inner K_UInt8 [v] offset next_string_offset"
| "write_datum inner (D_Int64 v) offset next_string_offset =
     write_fixed inner K_Int64 (le_bytes 8 (unat v)) offset next_string_offset"
| "write_datum inner (D_Int32 v) offset next_string_offset =
     write_fixed inner K_Int32 (le_bytes 4 (unat v)) offset next_string_offset"
| "write_datum inner (D_Int16 v) offset next_string_offset =
     write_fixed inner K_Int16 (le_bytes 2 (unat v)) offset next_string_offset"
| "write_datum inner (D_Int8 v) offset next_string_offset =
     write_fixed inner K_Int8 [v] offset next_string_offset"
| "write_datum inner (D_Boolean v) offset next_string_offset =
     write_fixed inner K_Boolean [if v then 1 else 0] offset next_string_offset"
| "write_datum inner (D_Date v) offset next_string_offset =
     write_fixed inner K_Date (le_bytes 4 (unat v)) offset next_string_offset"
| "write_datum inner (D_Time v) offset next_string_offset =
     write_fixed inner K_Time (le_bytes 8 (unat v)) offset next_string_offset"

text \<open>
  The value a table column gets from a row of the writer: outer \<open>None\<close> when the writer does not
  have the column.
\<close>

definition writer_datum :: "index_in_writer \<Rightarrow> row \<Rightarrow> nat \<Rightarrow> (contiguous_error, (nat \<times> datum) option) result" where
  "writer_datum idx row index_in_table =
     res_bind (column_index_in_writer idx index_in_table) (\<lambda>e.
       case e of
         Some writer_index \<Rightarrow> res_bind (index_res row writer_index) (\<lambda>d. Ok (Some (writer_index, d)))
       | None \<Rightarrow> Ok None)"

definition count_null :: "index_in_writer \<Rightarrow> row \<Rightarrow> nat \<Rightarrow> nat \<Rightarrow> (contiguous_error, nat) result" where
  "count_null idx row i num_null_cols =
     res_bind (writer_datum idx row i) (\<lambda>e.
       case e of
         Some (_, d) \<Rightarrow> Ok (if is_null d then num_null_cols + 1 else num_null_cols)
       | None \<Rightarrow> Ok (num_null_cols + 1))"

text \<open>The two lengths that \<open>write_row_with_nulls\<close> computes first.\<close>

definition measure_nulls ::
    "index_in_writer \<Rightarrow> row \<Rightarrow> nat \<Rightarrow> nat \<times> nat \<Rightarrow> (contiguous_error, nat \<times> nat) result" where
  "measure_nulls idx row i = (\<lambda>(encoded_len, num_bytes_of_variable_col).
     res_bind (writer_datum idx row i) (\<lambda>e.
       case e of
         Some (_, d) \<Rightarrow>
           (let encoded_len = (if is_null d then encoded_len else encoded_len + byte_size_of_datum (kind d))
            in if is_fixed_sized d then Ok (encoded_len, num_bytes_of_variable_col)
               else Ok (encoded_len + (datum_size d + size_of_offset),
                        num_bytes_of_variable_col + (datum_size d + size_of_offset)))
       | None \<Rightarrow> Ok (encoded_len, num_bytes_of_variable_col)))"

text \<open>A column in the writing loop; the null bit is cleared at the index \<^emph>\<open>in the writer\<close>.\<close>

definition write_column_with_nulls ::
    "index_in_writer \<Rightarrow> row \<Rightarrow> nat \<Rightarrow> u8 list \<times> nat \<times> nat \<times> bit_set \<Rightarrow>
     (contiguous_error, u8 list \<times> nat \<times> nat \<times> bit_set) result" where
  "write_column_with_nulls idx row i = (\<lambda>(inner, datum_offset, next_string_offset, nulls).
     res_bind (writer_datum idx row i) (\<lambda>e.
       case e of
         Some (writer_index, d) \<Rightarrow>
           res_bind (write_datum inner d datum_offset next_string_offset) (\<lambda>(inner, datum_offset, next_string_offset).
             if is_null d
             then res_bind (bit_set_unset nulls writer_index) (\<lambda>(nulls, _).
                    Ok (inner, datum_offset, next_string_offset, nulls))
             else Ok (inner, datum_offset, next_string_offset, nulls))
       | None \<Rightarrow> Ok (inner, datum_offset, next_string_offset, nulls)))"

definition write_row_with_nulls :: "schema \<Rightarrow> index_in_writer \<Rightarrow> row \<Rightarrow> (contiguous_error, u8 list) result" where
  "write_row_with_nulls t idx row =
     res_bind (res_fold (measure_nulls idx row) [0..<num_columns t] (0, 0)) (\<lambda>(len, num_bytes_of_variable_col).
     let num_bits = num_columns t;
         nulls = bit_set_all_set num_bits;
         encoded_len = len + (size_of_num_bits + length (bs_buffer nulls))
     in if encoded_len < num_bytes_of_variable_col then Panic
        else
          res_bind (res_fold (write_column_with_nulls idx row) [0..<num_columns t]
                     (replicate encoded_len 0, size_of_num_bits + length (bs_buffer nulls),
                      encoded_len - num_bytes_of_variable_col, nulls))
            (\<lambda>(inner, _, _, nulls).
          res_bind (write_slice_to_offset inner 0 (le_bytes 4 (num_bits mod 2 ^ 32))) (\<lambda>(inner, _).
          res_bind (write_slice_to_offset inner size_of_num_bits (bs_buffer nulls)) (\<lambda>(inner, _).
            Ok inner))))"

definition measure_var :: "index_in_writer \<Rightarrow> row \<Rightarrow> nat \<Rightarrow> nat \<Rightarrow> (contiguous_error, nat) result" where
  "measure_var idx row i encoded_len =
     res_bind (writer_datum idx row i) (\<lambda>e.
       case e of
         Some (_, d) \<Rightarrow> Ok (if is_fixed_sized d then encoded_len else encoded_len + (4 + datum_size d))
       | None \<Rightarrow> Ok encoded_len)"

definition write_column_without_nulls ::
    "schema \<Rightarrow> index_in_writer \<Rightarrow> row \<Rightarrow> nat \<Rightarrow> u8 list \<times> nat \<times> nat \<Rightarrow>
     (contiguous_error, u8 list \<times> nat \<times> nat) result" where
  "write_column_without_nulls t idx row i = (\<lambda>(inner, datum_offset, next_string_offset).
     res_bind (writer_datum idx row i) (\<lambda>e.
       case e of
         Some (_, d) \<Rightarrow> write_datum inner d datum_offset next_string_offset
       | None \<Rightarrow>
           res_bind (schema_column t i) (\<lambda>c.
             Ok (inner, datum_offset + byte_size_of_datum (cs_data_type c), next_string_offset))))"

definition write_row_without_nulls :: "schema \<Rightarrow> index_in_writer \<Rightarrow> row \<Rightarrow> (contiguous_error, u8 list) result" where
  "write_row_without_nulls t idx row =
     (let datum_buffer_len = string_buffer_offset (column_schemas_of t) + size_of_num_bits
      in res_bind (res_fold (measure_var idx row) [0..<num_columns t] datum_buffer_len) (\<lambda>encoded_len.
         res_bind (res_fold (write_column_without_nulls t idx row) [0..<num_columns t]
                    (replicate encoded_len (into_u8 K_Null), size_of_num_bits, datum_buffer_len))
           (\<lambda>(inner, _, _). Ok inner)))"

definition write_row :: "schema \<Rightarrow> index_in_writer \<Rightarrow> row \<Rightarrow> (contiguous_error, u8 list) result" where
  "write_row t idx row =
     res_bind (res_fold (count_null idx row) [0..<num_columns t] 0) (\<lambda>num_null_cols.
       if 0 < num_null_cols then write_row_with_nulls t idx row else write_row_without_nulls t idx row)"

section \<open>The reader\<close>

definition must_read_bytes :: "u8 list \<Rightarrow> u8 list \<Rightarrow> (contiguous_error, u8 list) result" where
  "must_read_bytes datum_buf string_buf =
     res_bind (slice_to datum_buf size_of_offset) (\<lambda>value_buf.
     res_bind (slice_from string_buf (le_value value_buf)) (\<lambda>string_buf.
     res_bind (slice_to string_buf 4) (\<lambda>len_buf.
     res_bind (slice_from string_buf 4) (\<lambda>string_buf.
       slice_to string_buf (le_value len_buf)))))"

primrec must_read_view :: "datum_kind \<Rightarrow> u8 list \<Rightarrow> u8 list \<Rightarrow> (contiguous_error, datum) result" where
  "must_read_view K_Null datum_buf string_buf = Ok D_Null"
| "must_read_view K_Timestamp datum_buf string_buf =
     res_bind (slice_to datum_buf 8) (\<lambda>b. Ok (D_Timestamp (of_nat (le_value b))))"
| "must_read_view K_Double datum_buf string_buf =
     res_bind (slice_to datum_buf 8) (\<lambda>b. Ok (D_Double (of_nat (le_value b))))"
| "must_read_view K_Float datum_buf string_buf =
     res_bind (slice_to datum_buf 4) (\<lambda>b. Ok (D_Float (of_nat (le_value b))))"
| "must_read_view K_Varbinary datum_buf string_buf =
     res_bind (must_read_bytes datum_buf string_buf) (\<lambda>v. Ok (D_Varbinary v))"
| "must_read_view K_String datum_buf string_buf =
     res_bind (must_read_bytes datum_buf string_buf) (\<lambda>v. Ok (D_String v))"
| "must_read_view K_UInt64 datum_buf string_buf =
     res_bind (slice_to datum_buf 8) (\<lambda>b. Ok (D_UInt64 (of_nat (le_value b))))"
| "must_read_view K_UInt32 datum_buf string_buf =
     res_bind (slice_to datum_buf 4) (\<lambda>b. Ok (D_UInt32 (of_nat (le_value b))))"
| "must_read_view K_UInt16 datum_buf string_buf =
     res_bind (slice_to datum_buf 2) (\<lambda>b. Ok (D_UInt16 (of_nat (le_value b))))"
| "must_read_view K_UInt8 datum_buf string_buf =
     res_bind (index_res datum_buf 0) (\<lambda>v. Ok (D_UInt8 v))"
| "must_read_view K_Int64 datum_buf string_buf =
     res_bind (slice_to datum_buf 8) (\<lambda>b. Ok (D_Int64 (of_nat (le_value b))))"
| "must_read_view K_Int32 datum_buf string_buf =
     res_bind (slice_to datum_buf 4) (\<lambda>b. Ok (D_Int32 (of_nat (le_value b))))"
| "must_read_view K_Int16 datum_buf string_buf =
     res_bind (slice_to datum_buf 2) (\<lambda>b. Ok (D_Int16 (of_nat (le_value b))))"
| "must_read_view K_Int8 datum_buf string_buf =
     res_bind (index_res datum_buf 0) (\<lambda>v. Ok (D_Int8 v))"
| "must_read_view K_Boolean datum_buf string_buf =
     res_bind (index_res datum_buf 0) (\<lambda>v. Ok (D_Boolean (v \<noteq> 0)))"
| "must_read_view K_Date datum_buf string_buf =
     res_bind (slice_to datum_buf 4) (\<lambda>b. Ok (D_Date (of_nat (le_value b))))"
| "must_read_view K_Time datum_buf string_buf =
     res_bind (slice_to datum_buf 8) (\<lambda>b. Ok (D_Time (of_nat (le_value b))))"

text \<open>The free function \<open>datum_view_at\<close>: an unknown kind byte reads as null.\<close>

definition read_datum_view :: "u8 list \<Rightarrow> u8 list \<Rightarrow> (contiguous_error, datum) result" where
  "read_datum_view datum_buf string_buf =
     res_bind (index_res datum_buf 0) (\<lambda>b.
       case datum_kind_try_from b of
         Ok k \<Rightarrow> res_bind (slice_from datum_buf 1) (\<lambda>datum_buf. must_read_view k datum_buf string_buf)
       | _ \<Rightarrow> Ok D_Null)"

datatype row_reader =
  NoNulls "u8 list" "nat list" nat
| WithNulls "u8 list" "int list" nat

text \<open>The loop that shifts the offsets of the columns back by the null columns before them.\<close>

definition fix_offset ::
    "schema \<Rightarrow> bit_set \<Rightarrow> nat \<times> nat \<Rightarrow> int list \<times> nat \<Rightarrow> (contiguous_error, int list \<times> nat) result" where
  "fix_offset s nulls = (\<lambda>(index, expect_offset) (offsets, acc_null_bytes).
     res_bind (bit_set_is_set nulls index) (\<lambda>b.
       case b of
         Some True \<Rightarrow>
           if expect_offset < acc_null_bytes then Panic
           else Ok (offsets @ [int (expect_offset - acc_null_bytes)], acc_null_bytes)
       | Some False \<Rightarrow>
           res_bind (schema_column s index) (\<lambda>c.
             Ok (offsets @ [- 1], acc_null_bytes + byte_size_of_datum (cs_data_type c)))
       | None \<Rightarrow> Ok (offsets @ [- 1], acc_null_bytes)))"

definition reader_with_nulls :: "u8 list \<Rightarrow> schema \<Rightarrow> nat \<Rightarrow> (contiguous_error, row_reader) result" where
  "reader_with_nulls buf s num_bits =
     (if num_bits = 0 then Panic
      else let bit_set_size = bit_set_num_bytes num_bits
           in res_bind (slice_from buf size_of_num_bits) (\<lambda>bit_set_buf.
              if length bit_set_buf < bit_set_size
              then Err (InvalidBitSetBytes bit_set_size (length bit_set_buf))
              else case bit_set_try_from_raw (take bit_set_size bit_set_buf) num_bits of
                     None \<Rightarrow> Panic
                   | Some nulls \<Rightarrow>
                       res_bind (res_fold (fix_offset s nulls) (enumerate 0 (byte_offsets (column_schemas_of s))) ([], 0))
                         (\<lambda>(offsets, _). Ok (WithNulls buf offsets (size_of_num_bits + bit_set_size)))))"

definition reader_try_new :: "u8 list \<Rightarrow> schema \<Rightarrow> (contiguous_error, row_reader) result" where
  "reader_try_new buf s =
     (if length buf < size_of_num_bits then Err NumNullColsMissing
      else res_bind (slice_to buf size_of_num_bits) (\<lambda>b.
        let num_bits = le_value b
        in if 0 < num_bits then reader_with_nulls buf s num_bits
           else Ok (NoNulls buf (byte_offsets (column_schemas_of s)) size_of_num_bits)))"

primrec num_datum_views :: "row_reader \<Rightarrow> nat" where
  "num_datum_views (NoNulls buf offsets datum_offset) = length offsets"
| "num_datum_views (WithNulls buf offsets datum_offset) = length offsets"

primrec datum_view_at :: "row_reader \<Rightarrow> nat \<Rightarrow> (contiguous_error, datum) result" where
  "datum_view_at (NoNulls buf offsets datum_offset) index =
     res_bind (index_res offsets index) (\<lambda>offset.
     res_bind (slice_from buf (datum_offset + offset)) (\<lambda>datum_buf. read_datum_view datum_buf buf))"
| "datum_view_at (WithNulls buf offsets datum_offset) index =
     res_bind (index_res offsets index) (\<lambda>offset.
       if offset < 0 then Ok D_Null
       else res_bind (slice_from buf (datum_offset + nat offset)) (\<lambda>datum_buf. read_datum_view datum_buf buf))"

text \<open>\<open>ProjectedContiguousRow\<close>: the columns of a projection, null where the source has none.\<close>

definition projected_datum_view_at :: "row_reader \<Rightarrow> nat option list \<Rightarrow> nat \<Rightarrow> (contiguous_error, datum) result" where
  "projected_datum_view_at r projection index =
     res_bind (index_res projection index) (\<lambda>p.
       case p of Some i \<Rightarrow> datum_view_at r i | None \<Rightarrow> Ok D_Null)"

section \<open>The layout of a row\<close>

text \<open>
  What a value takes in the datum block, when its payload (if it has one) is at \<open>o\<close> in the
  buffer, and what it takes in the payload block.
\<close>

definition fixed_enc :: "datum \<Rightarrow> nat \<Rightarrow> u8 list" where
  "fixed_enc d o' =
     (if is_null d then [] else into_u8 (kind d) # (if is_fixed_sized d then to_bytes d else le_bytes 4 o'))"

definition var_enc :: "datum \<Rightarrow> u8 list" where
  "var_enc d = (if is_fixed_sized d then [] else le_bytes 4 (length (to_bytes d)) @ to_bytes d)"

definition fixed_len :: "datum list \<Rightarrow> nat" where
  "fixed_len ds = sum_list (map (\<lambda>d. if is_null d then 0 else byte_size_of_datum (kind d)) ds)"

definition var_block :: "datum list \<Rightarrow> u8 list" where
  "var_block ds = concat (map var_enc ds)"

primrec fixed_block :: "nat \<Rightarrow> datum list \<Rightarrow> u8 list" where
  "fixed_block o' [] = []"
| "fixed_block o' (d # ds) = fixed_enc d o' @ fixed_block (o' + length (var_enc d)) ds"

lemma fixed_len_simps [simp]:
  "fixed_len [] = 0" "fixed_len (xs @ ys) = fixed_len xs + fixed_len ys"
  "fixed_len (d # ds) = (if is_null d then 0 else byte_size_of_datum (kind d)) + fixed_len ds"
  by (simp_all add: fixed_len_def)

lemma var_block_simps [simp]:
  "var_block [] = []" "var_block (xs @ ys) = var_block xs @ var_block ys" "var_block (d # ds) = var_enc d @ var_block ds"
  by (simp_all add: var_block_def)

lemma length_fixed_enc [simp]: "length (fixed_enc d o') = (if is_null d then 0 else byte_size_of_datum (kind d))"
  by (cases d) (simp_all add: fixed_enc_def is_null_def)

lemma length_fixed_block [simp]: "length (fixed_block o' ds) = fixed_len ds"
  by (induction ds arbitrary: o') simp_all

lemma fixed_block_append [simp]:
  "fixed_block o' (xs @ ys) = fixed_block o' xs @ fixed_block (o' + length (var_block xs)) ys"
  by (induction xs arbitrary: o') (simp_all add: add.assoc)

lemma length_var_enc: "length (var_enc d) = (if is_fixed_sized d then 0 else 4 + datum_size d)"
  by (simp add: var_enc_def datum_size_to_bytes)

lemma le_bytes_1: "le_bytes 1 (unat (v :: u8)) = [v]" "le_bytes (Suc 0) (unat (v :: u8)) = [v]"
  by (simp_all add: le_bytes_def)

lemma write_slice_at:
  "length X = length S \<Longrightarrow> length A = n \<Longrightarrow> write_slice_to_offset (A @ X @ B) n S = Ok (A @ S @ B, n + length S)"
  by (auto simp: write_slice_to_offset_def)

lemma write_byte_at: "length A = n \<Longrightarrow> write_byte_to_offset (A @ x # B) n v = Ok (A @ v # B, n + 1)"
  by (auto simp: write_byte_to_offset_def)

lemma write_fixed_at:
  assumes "length X = Suc (length v)" and "length A = n"
  shows "write_fixed (A @ X @ B) k v n o' = Ok (A @ (into_u8 k # v) @ B, n + length X, o')"
proof -
  obtain x X' where X: "X = x # X'" "length X' = length v" using assms(1) by (cases X) auto
  have "write_slice_to_offset ((A @ [into_u8 k]) @ X' @ B) (n + 1) v = Ok ((A @ [into_u8 k]) @ v @ B, n + 1 + length v)"
    using X(2) assms(2) by (intro write_slice_at) simp_all
  with assms X show ?thesis by (simp add: write_fixed_def write_byte_at)
qed

lemma write_var_len_at:
  assumes "length X = 5" and "length A = n" and "length Y = 4 + length v" and "o' = length A + length X + length B"
    and "o' \<le> MAX_ROW_LEN" and "length v \<le> MAX_STRING_LEN"
  shows "write_var_len (A @ X @ B @ Y @ C) k v n o' =
    Ok (A @ (into_u8 k # le_bytes 4 o') @ B @ (le_bytes 4 (length v) @ v) @ C, n + 5, o' + length Y)"
proof -
  obtain x X' where X: "X = x # X'" "length X' = 4" using assms(1) by (cases X) auto
  define Y1 Y2 where "Y1 = take 4 Y" and "Y2 = drop 4 Y"
  then have Y: "Y = Y1 @ Y2" "length Y1 = 4" "length Y2 = length v" using assms(3) by simp_all
  have w1: "write_slice_to_offset ((A @ [into_u8 k]) @ X' @ (B @ Y @ C)) (n + 1) (le_bytes 4 o') =
      Ok ((A @ [into_u8 k]) @ le_bytes 4 o' @ (B @ Y @ C), n + 1 + length (le_bytes 4 o'))"
    using X(2) assms(2) by (intro write_slice_at) simp_all
  let ?A = "A @ into_u8 k # le_bytes 4 o' @ B"
  have A: "length ?A = o'" using assms(1,4) by simp
  have w2: "write_slice_to_offset (?A @ Y1 @ (Y2 @ C)) o' (le_bytes 4 (length v)) =
      Ok (?A @ le_bytes 4 (length v) @ (Y2 @ C), o' + length (le_bytes 4 (length v)))"
    using Y(2) A by (intro write_slice_at) simp_all
  have w3: "write_slice_to_offset ((?A @ le_bytes 4 (length v)) @ Y2 @ C) (o' + 4) v =
      Ok ((?A @ le_bytes 4 (length v)) @ v @ C, o' + 4 + length v)"
    using Y(3) A by (intro write_slice_at) simp_all
  show ?thesis
    using w1 w2 w3 X Y assms by (simp add: write_var_len_def write_byte_at)
qed

lemma write_datum_at:
  assumes "length X = length (fixed_enc d o')" and "length A = n" and "length Y = length (var_enc d)"
    and "o' = length A + length X + length B" and "o' \<le> MAX_ROW_LEN"
    and "is_fixed_sized d \<or> datum_size d \<le> MAX_STRING_LEN"
  shows "write_datum (A @ X @ B @ Y @ C) d n o' =
    Ok (A @ fixed_enc d o' @ B @ var_enc d @ C, n + length X, o' + length Y)"
proof (cases "is_fixed_sized d")
  case True
  then have Y: "Y = []" using assms(3) by (simp add: length_var_enc)
  show ?thesis
  proof (cases "is_null d")
    case True
    with assms(1) Y show ?thesis by (simp add: is_null_def fixed_enc_def var_enc_def)
  next
    case False
    have "length X = Suc (length (to_bytes d))"
      using assms(1) True False by (simp add: fixed_enc_def)
    from write_fixed_at [OF this assms(2), of "B @ C" "kind d" o'] True False Y assms(2)
    show ?thesis
      by (cases d) (simp_all add: fixed_enc_def var_enc_def is_null_def le_bytes_1 split: if_splits)
  qed
next
  case False
  then show ?thesis
    using assms by (cases d) (simp_all add: fixed_enc_def var_enc_def is_null_def write_var_len_at)
qed

section \<open>Writing a row\<close>

definition strings_fit :: "datum list \<Rightarrow> bool" where
  "strings_fit ds \<longleftrightarrow> (\<forall>d \<in> set ds. is_fixed_sized d \<or> datum_size d \<le> MAX_STRING_LEN)"

lemma writer_datum_table_row:
  assumes "\<forall>j. Some j \<in> set idx \<longrightarrow> j < length row" and "i < length idx"
  shows "writer_datum idx row i =
    Ok (case idx ! i of Some j \<Rightarrow> Some (j, table_row idx row ! i) | None \<Rightarrow> None)"
proof -
  have "idx ! i = Some j \<Longrightarrow> j < length row" for j using assms nth_mem by metis
  with assms(2) show ?thesis
    by (auto simp: writer_datum_def column_index_in_writer_def index_res_def table_row_def split: option.splits)
qed

text \<open>
  The buffer after the first \<open>k\<close> values: behind \<open>pre\<close> their part of the datum block, then zeros up
  to the payload block, then their payloads.
\<close>

definition written :: "u8 list \<Rightarrow> datum list \<Rightarrow> nat \<Rightarrow> u8 list" where
  "written pre ds k =
     pre @ fixed_block (length pre + fixed_len ds) (take k ds) @ replicate (fixed_len (drop k ds)) 0 @
     var_block (take k ds) @ replicate (length (var_block (drop k ds))) 0"

lemma write_datum_written:
  assumes "k < length ds" and "strings_fit ds" and "length pre + fixed_len ds + length (var_block ds) \<le> MAX_ROW_LEN"
  shows "write_datum (written pre ds k) (ds ! k) (length pre + fixed_len (take k ds))
      (length pre + fixed_len ds + length (var_block (take k ds))) =
    Ok (written pre ds (Suc k), length pre + fixed_len (take (Suc k) ds),
        length pre + fixed_len ds + length (var_block (take (Suc k) ds)))"
proof -
  let ?d = "ds ! k" and ?base = "length pre + fixed_len ds"
  let ?o = "?base + length (var_block (take k ds))"
  let ?A = "pre @ fixed_block ?base (take k ds)" and ?X = "replicate (length (fixed_enc ?d ?o)) (0 :: u8)"
  let ?B = "replicate (fixed_len (drop (Suc k) ds)) 0 @ var_block (take k ds)"
  let ?Y = "replicate (length (var_enc ?d)) (0 :: u8)" and ?C = "replicate (length (var_block (drop (Suc k) ds))) (0 :: u8)"
  have drop: "drop k ds = ?d # drop (Suc k) ds" and take: "take (Suc k) ds = take k ds @ [?d]"
    using assms(1) by (simp_all add: Cons_nth_drop_Suc take_Suc_conv_app_nth)
  have ds: "ds = take k ds @ ?d # drop (Suc k) ds" using drop by (metis append_take_drop_id)
  have "fixed_len ds = fixed_len (take k ds) + fixed_len (drop k ds)"
    by (metis append_take_drop_id fixed_len_simps(2))
  then have o: "?o = length ?A + length ?X + length ?B" using drop by simp
  have "length (var_block ds) = length (var_block (take k ds)) + length (var_block (drop k ds))"
    by (metis append_take_drop_id length_append var_block_simps(2))
  then have "?o \<le> MAX_ROW_LEN" using assms(3) by simp
  moreover have "is_fixed_sized ?d \<or> datum_size ?d \<le> MAX_STRING_LEN"
    using assms(1,2) by (simp add: strings_fit_def)
  ultimately have "write_datum (?A @ ?X @ ?B @ ?Y @ ?C) ?d (length pre + fixed_len (take k ds)) ?o =
      Ok (?A @ fixed_enc ?d ?o @ ?B @ var_enc ?d @ ?C, length pre + fixed_len (take k ds) + length ?X, ?o + length ?Y)"
    using o by (intro write_datum_at) simp_all
  moreover have "written pre ds k = ?A @ ?X @ ?B @ ?Y @ ?C"
    by (simp add: written_def drop replicate_add)
  moreover have "written pre ds (Suc k) = ?A @ fixed_enc ?d ?o @ ?B @ var_enc ?d @ ?C"
    by (simp add: written_def take)
  ultimately show ?thesis by (simp add: take)
qed

lemma written_all: "length ds \<le> k \<Longrightarrow>
    written pre ds k = pre @ fixed_block (length pre + fixed_len ds) ds @ var_block ds"
  by (simp add: written_def)

lemma written_0: "written pre ds 0 = pre @ replicate (fixed_len ds + length (var_block ds)) 0"
  by (simp add: written_def replicate_add)

section \<open>Reading a value\<close>

lemma le_value_word:
  "of_nat (le_value (le_bytes 8 (unat v))) = (v :: u64)" "of_nat (le_value (le_bytes 4 (unat v'))) = (v' :: u32)"
  "of_nat (le_value (le_bytes 2 (unat v''))) = (v'' :: u16)"
proof -
  have "unat v < 256 ^ 8" "unat v' < 256 ^ 4" by (rule unat_u64_less unat_u32_less)+
  moreover have "unat v'' < 256 ^ 2" using unsigned_less [of v'', where ?'a = nat] by simp
  ultimately show "of_nat (le_value (le_bytes 8 (unat v))) = v" "of_nat (le_value (le_bytes 4 (unat v'))) = v'"
    "of_nat (le_value (le_bytes 2 (unat v''))) = v''" by (simp_all add: le_value_bytes)
qed

lemma must_read_bytes_at:
  assumes "datum_buf = le_bytes 4 o' @ r" and "o' \<le> length string_buf" and "o' < 2 ^ 32"
    and "drop o' string_buf = le_bytes 4 (length v) @ v @ r'" and "length v < 2 ^ 32"
  shows "must_read_bytes datum_buf string_buf = Ok v"
  using assms by (simp add: must_read_bytes_def slice_to_def slice_from_def le_value_bytes)

lemma read_datum_view_at:
  assumes "\<not> is_null d" and "datum_buf = fixed_enc d o' @ r" and "o' \<le> length string_buf" and "o' < 2 ^ 32"
    and "drop o' string_buf = var_enc d @ r'" and "is_fixed_sized d \<or> datum_size d \<le> MAX_STRING_LEN"
  shows "read_datum_view datum_buf string_buf = Ok d"
proof -
  define p where "p = (if is_fixed_sized d then to_bytes d else le_bytes 4 o')"
  have buf: "datum_buf = into_u8 (kind d) # p @ r" using assms(1,2) by (simp add: fixed_enc_def p_def)
  have view: "read_datum_view datum_buf string_buf = must_read_view (kind d) (p @ r) string_buf"
    by (simp add: read_datum_view_def buf index_res_def slice_from_def)
  show ?thesis
  proof (cases "is_fixed_sized d")
    case True
    with assms(1) show ?thesis
      unfolding view p_def
      by (cases d) (simp_all add: is_null_def slice_to_def index_res_def le_value_word le_bytes_1)
  next
    case False
    then have "must_read_bytes (p @ r) string_buf = Ok (to_bytes d)"
      using assms(3-6) by (intro must_read_bytes_at) (auto simp: p_def var_enc_def datum_size_to_bytes)
    with False show ?thesis unfolding view by (cases d) simp_all
  qed
qed

text \<open>Where value \<open>i\<close> of a finished buffer is.\<close>

lemma layout_nth:
  assumes "buf = hdr @ fixed_block (length hdr + fixed_len ds) ds @ var_block ds" and "i < length ds"
  defines "o' \<equiv> length hdr + fixed_len ds + length (var_block (take i ds))"
  shows "\<exists>r. drop (length hdr + fixed_len (take i ds)) buf = fixed_enc (ds ! i) o' @ r"
    and "\<exists>r. drop o' buf = var_enc (ds ! i) @ r" and "o' \<le> length buf"
    and "length hdr + fixed_len (take i ds) \<le> length buf"
proof -
  have ds: "ds = take i ds @ ds ! i # drop (Suc i) ds" using assms(2) by (rule id_take_nth_drop)
  have f: "fixed_block (length hdr + fixed_len ds) ds =
      fixed_block (length hdr + fixed_len ds) (take i ds) @ fixed_enc (ds ! i) o' @
      fixed_block (o' + length (var_enc (ds ! i))) (drop (Suc i) ds)"
    unfolding o'_def by (subst (2) ds) simp
  have v: "var_block ds = var_block (take i ds) @ var_enc (ds ! i) @ var_block (drop (Suc i) ds)"
    by (subst ds) simp
  show "\<exists>r. drop (length hdr + fixed_len (take i ds)) buf = fixed_enc (ds ! i) o' @ r"
    unfolding assms(1) f by simp
  show "\<exists>r. drop o' buf = var_enc (ds ! i) @ r"
    unfolding assms(1) v o'_def by simp
  show "o' \<le> length buf" unfolding assms(1) v o'_def by simp
  show "length hdr + fixed_len (take i ds) \<le> length buf" unfolding assms(1) f by simp
qed

lemma read_layout:
  assumes "buf = hdr @ fixed_block (length hdr + fixed_len ds) ds @ var_block ds" and "i < length ds"
    and "\<not> is_null (ds ! i)" and "strings_fit ds" and "length buf \<le> MAX_ROW_LEN"
  shows "res_bind (slice_from buf (length hdr + fixed_len (take i ds))) (\<lambda>datum_buf. read_datum_view datum_buf buf) =
    Ok (ds ! i)"
proof -
  let ?o = "length hdr + fixed_len ds + length (var_block (take i ds))"
  note l = layout_nth [OF assms(1,2)]
  obtain r r' where "drop (length hdr + fixed_len (take i ds)) buf = fixed_enc (ds ! i) ?o @ r"
    and "drop ?o buf = var_enc (ds ! i) @ r'" using l(1,2) by blast
  moreover have "is_fixed_sized (ds ! i) \<or> datum_size (ds ! i) \<le> MAX_STRING_LEN"
    using assms(2,4) by (simp add: strings_fit_def)
  ultimately have "read_datum_view (drop (length hdr + fixed_len (take i ds)) buf) buf = Ok (ds ! i)"
    using l(3) assms(3,5) by (intro read_datum_view_at) auto
  with l(4) show ?thesis by (simp add: slice_from_def)
qed

section \<open>The whole row\<close>

definition fits_writer :: "index_in_writer \<Rightarrow> row \<Rightarrow> bool" where
  "fits_writer idx row \<longleftrightarrow> (\<forall>j. Some j \<in> set idx \<longrightarrow> j < length row)"

lemma length_table_row [simp]: "length (table_row idx row) = length idx"
  by (simp add: table_row_def)

lemma writer_datum_cases:
  assumes "fits_writer idx row" and "k < length idx"
  obtains (some) j where "idx ! k = Some j" and "writer_datum idx row k = Ok (Some (j, table_row idx row ! k))"
  | (none) "idx ! k = None" and "writer_datum idx row k = Ok None" and "table_row idx row ! k = D_Null"
proof (cases "idx ! k")
  case None
  with writer_datum_table_row [of idx row k] assms show ?thesis
    by (intro none) (simp_all add: fits_writer_def table_row_def)
next
  case (Some j)
  with writer_datum_table_row [of idx row k] assms show ?thesis by (intro some) (simp_all add: fits_writer_def)
qed

lemma take_table_row:
  "k < length idx \<Longrightarrow> take (Suc k) (table_row idx row) = take k (table_row idx row) @ [table_row idx row ! k]"
  by (simp add: take_Suc_conv_app_nth)

lemma fold_count_null:
  assumes "fits_writer idx row" and "k \<le> length idx"
  shows "res_fold (count_null idx row) [0..<k] 0 = Ok (length (filter is_null (take k (table_row idx row))))"
  using assms(2)
proof (induction k)
  case (Suc k)
  then have k: "k < length idx" by simp
  from assms(1) k show ?case
    by (cases rule: writer_datum_cases)
      (use Suc k in \<open>simp_all add: res_fold_append count_null_def take_table_row is_null_def\<close>)
qed simp

lemma fold_measure_nulls:
  assumes "fits_writer idx row" and "k \<le> length idx"
  shows "res_fold (measure_nulls idx row) [0..<k] (0, 0) =
    Ok (fixed_len (take k (table_row idx row)) + length (var_block (take k (table_row idx row))),
        length (var_block (take k (table_row idx row))))"
  using assms(2)
proof (induction k)
  case (Suc k)
  then have k: "k < length idx" by simp
  from assms(1) k show ?case
    by (cases rule: writer_datum_cases)
      (use Suc k in \<open>simp_all add: res_fold_append measure_nulls_def take_table_row is_null_def
        length_var_enc Let_def\<close>)
qed simp

lemma fold_measure_var:
  assumes "fits_writer idx row" and "k \<le> length idx"
  shows "res_fold (measure_var idx row) [0..<k] m = Ok (m + length (var_block (take k (table_row idx row))))"
  using assms(2)
proof (induction k)
  case (Suc k)
  then have k: "k < length idx" by simp
  from assms(1) k show ?case
    by (cases rule: writer_datum_cases)
      (use Suc k in \<open>simp_all add: res_fold_append measure_var_def take_table_row length_var_enc\<close>)
qed simp

lemma write_columns_without_nulls:
  assumes "fits_writer idx row" and "k \<le> length idx"
  defines "tr \<equiv> table_row idx row"
  assumes "\<forall>d \<in> set tr. \<not> is_null d" and "strings_fit tr"
    and "length pre + fixed_len tr + length (var_block tr) \<le> MAX_ROW_LEN"
  shows "res_fold (write_column_without_nulls t idx row) [0..<k]
      (written pre tr 0, length pre, length pre + fixed_len tr) =
    Ok (written pre tr k, length pre + fixed_len (take k tr), length pre + fixed_len tr + length (var_block (take k tr)))"
  using assms(2)
proof (induction k)
  case (Suc k)
  then have k: "k < length idx" "k < length tr" by (simp_all add: tr_def)
  from assms(1) k(1) show ?case
  proof (cases rule: writer_datum_cases)
    case (some j)
    then show ?thesis
      using Suc k write_datum_written [OF k(2) assms(5,6)]
      by (simp add: res_fold_append write_column_without_nulls_def tr_def)
  next
    case none
    then show ?thesis using assms(4) nth_mem [OF k(2)] by (auto simp: tr_def is_null_def)
  qed
qed simp

text \<open>
  The bits of a null map by the positions that are cleared. The writer clears a bit for each null
  value that it has, at the index of the column in the writer.
\<close>

definition bits_are :: "nat \<Rightarrow> (nat \<Rightarrow> bool) \<Rightarrow> bit_set \<Rightarrow> bool" where
  "bits_are n cleared s \<longleftrightarrow> bit_set_wf s \<and> bs_num_bits s = n \<and> length (bs_buffer s) = bit_set_num_bytes n \<and>
     (\<forall>j < n. bit_set_bit s j \<longleftrightarrow> \<not> cleared j)"

definition cleared_at :: "index_in_writer \<Rightarrow> row \<Rightarrow> nat \<Rightarrow> nat \<Rightarrow> bool" where
  "cleared_at idx tr k j \<longleftrightarrow> (\<exists>i < k. idx ! i = Some j \<and> is_null (tr ! i))"

definition nulls_in_place :: "index_in_writer \<Rightarrow> row \<Rightarrow> bool" where
  "nulls_in_place idx tr \<longleftrightarrow> (\<forall>i < length tr. is_null (tr ! i) \<longrightarrow> idx ! i = Some i)"

lemma cleared_at_simps [simp]:
  "cleared_at idx tr 0 = (\<lambda>j. False)"
  "cleared_at idx tr (Suc k) = (\<lambda>j. cleared_at idx tr k j \<or> idx ! k = Some j \<and> is_null (tr ! k))"
  by (auto simp: cleared_at_def less_Suc_eq fun_eq_iff)

lemma cleared_in_place: "nulls_in_place idx tr \<Longrightarrow> j < length tr \<Longrightarrow> cleared_at idx tr (length tr) j \<longleftrightarrow> is_null (tr ! j)"
  by (auto simp: cleared_at_def nulls_in_place_def)

lemma bits_are_all_set: "bits_are n (\<lambda>j. False) (bit_set_all_set n)"
proof -
  have "bit_set_wf (bit_set_all_set n)" by (simp add: bit_set_wf_def bit_set_all_set_def)
  moreover have "bit_set_bit (bit_set_all_set n) j" if "j < n" for j
  proof -
    have "j div 8 < bit_set_num_bytes n"
      using byte_index_less [OF calculation, of j] that by (simp add: bit_set_all_set_def)
    then show ?thesis by (simp add: bit_set_bit_def bit_set_all_set_def bit_255)
  qed
  ultimately show ?thesis by (simp add: bits_are_def) (simp add: bit_set_all_set_def)
qed

lemma bits_are_unset:
  assumes "bits_are n P s"
  shows "\<exists>s' b. bit_set_unset s i = Ok (s', b) \<and> bits_are n (\<lambda>j. P j \<or> i = j) s'"
proof (cases "i < n")
  case True
  then obtain s' where s': "bit_set_unset s i = Ok (s', True)" "bit_set_wf s'" "bs_num_bits s' = bs_num_bits s"
    "length (bs_buffer s') = length (bs_buffer s)" and bits: "\<And>j. bit_set_bit s' j \<longleftrightarrow> bit_set_bit s j \<and> j \<noteq> i"
    using bit_set_unset_ok [of s i] assms by (auto simp: bits_are_def)
  have "bits_are n (\<lambda>j. P j \<or> i = j) s'" using assms s' unfolding bits_are_def bits by auto
  then show ?thesis using s'(1) by blast
next
  case False
  then have "bit_set_unset s i = Ok (s, False)" "bits_are n (\<lambda>j. P j \<or> i = j) s"
    using assms by (auto simp: bits_are_def bit_set_unset_def)
  then show ?thesis by blast
qed

lemma write_columns_with_nulls:
  assumes "fits_writer idx row" and "k \<le> length idx"
  defines "tr \<equiv> table_row idx row"
  assumes "strings_fit tr" and "length pre + fixed_len tr + length (var_block tr) \<le> MAX_ROW_LEN"
  shows "\<exists>nulls. res_fold (write_column_with_nulls idx row) [0..<k]
      (written pre tr 0, length pre, length pre + fixed_len tr, bit_set_all_set (length tr)) =
    Ok (written pre tr k, length pre + fixed_len (take k tr),
        length pre + fixed_len tr + length (var_block (take k tr)), nulls) \<and>
    bits_are (length tr) (cleared_at idx tr k) nulls"
  using assms(2)
proof (induction k)
  case 0
  show ?case using bits_are_all_set by simp
next
  case (Suc k)
  then have k: "k < length idx" "k < length tr" by (simp_all add: tr_def)
  from Suc obtain nulls where IH: "res_fold (write_column_with_nulls idx row) [0..<k]
      (written pre tr 0, length pre, length pre + fixed_len tr, bit_set_all_set (length tr)) =
    Ok (written pre tr k, length pre + fixed_len (take k tr),
        length pre + fixed_len tr + length (var_block (take k tr)), nulls)" and bits: "bits_are (length tr) (cleared_at idx tr k) nulls"
    by auto
  have "\<exists>nulls'. write_column_with_nulls idx row k (written pre tr k, length pre + fixed_len (take k tr),
        length pre + fixed_len tr + length (var_block (take k tr)), nulls) =
      Ok (written pre tr (Suc k), length pre + fixed_len (take (Suc k) tr),
        length pre + fixed_len tr + length (var_block (take (Suc k) tr)), nulls') \<and>
      bits_are (length tr) (cleared_at idx tr (Suc k)) nulls'"
    using assms(1) k(1)
  proof (cases rule: writer_datum_cases)
    case (some j)
    note step = some(2) [folded tr_def] write_datum_written [OF k(2) assms(4,5)]
    obtain s' b where "bit_set_unset nulls j = Ok (s', b)" "bits_are (length tr) (\<lambda>i. cleared_at idx tr k i \<or> j = i) s'"
      using bits_are_unset [OF bits, of j] by blast
    then show ?thesis
      using step bits some(1) by (cases "is_null (tr ! k)") (simp_all add: write_column_with_nulls_def)
  next
    case none
    then have null: "is_null (tr ! k)" "tr ! k = D_Null" by (simp_all add: tr_def is_null_def)
    have "written pre tr (Suc k) = written pre tr k" "fixed_len (take (Suc k) tr) = fixed_len (take k tr)"
      "var_block (take (Suc k) tr) = var_block (take k tr)"
      using write_datum_written [OF k(2) assms(4,5)] null k(2) by (simp_all add: take_Suc_conv_app_nth var_enc_def)
    then show ?thesis using none(1,2) bits by (simp add: write_column_with_nulls_def)
  qed
  with IH show ?case by (auto simp: res_fold_append)
qed

subsection \<open>Offsets of the columns\<close>

definition columns_len :: "column_schema list \<Rightarrow> nat" where
  "columns_len cols = sum_list (map (\<lambda>c. byte_size_of_datum (cs_data_type c)) cols)"

lemma push_offsets_eq:
  "push_offsets current offsets cols =
     (offsets @ map (\<lambda>i. current + columns_len (take i cols)) [0..<length cols], current + columns_len cols)"
proof (induction cols arbitrary: current offsets)
  case (Cons c cols)
  have "map (\<lambda>i. current + columns_len (take i (c # cols))) [0..<length (c # cols)] =
      current # map (\<lambda>i. current + byte_size_of_datum (cs_data_type c) + columns_len (take i cols)) [0..<length cols]"
    by (simp add: map_upt_Suc columns_len_def del: upt_Suc)
  with Cons show ?case by (simp add: columns_len_def)
qed (simp add: columns_len_def)

lemma column_schemas_new_offsets:
  "byte_offsets (column_schemas_new cols) = map (\<lambda>i. columns_len (take i cols)) [0..<length cols]"
  "string_buffer_offset (column_schemas_new cols) = columns_len cols"
  by (simp_all add: column_schemas_new_def push_offsets_eq)

lemma column_schemas_offsets:
  assumes "schema_wf t"
  shows "byte_offsets (column_schemas_of t) =
      map (\<lambda>i. columns_len (take i (schema_columns t))) [0..<num_columns t]"
    and "string_buffer_offset (column_schemas_of t) = columns_len (schema_columns t)"
proof -
  have eq: "column_schemas_of t = column_schemas_new (schema_columns t)" using assms by (simp only: schema_wf_def)
  show "byte_offsets (column_schemas_of t) =
      map (\<lambda>i. columns_len (take i (schema_columns t))) [0..<num_columns t]"
    by (rule arg_cong [OF eq, of byte_offsets, unfolded column_schemas_new_offsets, folded num_columns_def])
  show "string_buffer_offset (column_schemas_of t) = columns_len (schema_columns t)"
    by (rule arg_cong [OF eq, of string_buffer_offset, unfolded column_schemas_new_offsets])
qed

section \<open>Reading back what was written\<close>

definition row_writable :: "schema \<Rightarrow> index_in_writer \<Rightarrow> row \<Rightarrow> bool" where
  "row_writable t idx row \<longleftrightarrow>
     schema_wf t \<and> length idx = num_columns t \<and> num_columns t < 2 ^ 32 \<and> fits_writer idx row \<and>
     check_row_schema (table_row idx row) t = Ok () \<and> strings_fit (table_row idx row) \<and>
     size_of_num_bits + bit_set_num_bytes (num_columns t) + fixed_len (table_row idx row) +
       length (var_block (table_row idx row)) \<le> MAX_ROW_LEN"

lemma column_of_row:
  assumes "check_row_schema tr t = Ok ()" and "i < num_columns t" and "\<not> is_null (tr ! i)"
  shows "cs_data_type (schema_columns t ! i) = kind (tr ! i)"
  using assms
  by (auto simp: check_row_schema_Ok list_all2_conv_all_nth check_datum_type_Ok num_columns_def is_null_def)

lemma columns_len_Suc: "k < length cols \<Longrightarrow>
    columns_len (take (Suc k) cols) = columns_len (take k cols) + byte_size_of_datum (cs_data_type (cols ! k))"
  by (simp add: columns_len_def take_Suc_conv_app_nth)

lemma fixed_len_Suc: "k < length ds \<Longrightarrow>
    fixed_len (take (Suc k) ds) = fixed_len (take k ds) + (if is_null (ds ! k) then 0 else byte_size_of_datum (kind (ds ! k)))"
  by (simp add: take_Suc_conv_app_nth)

lemma fixed_len_le_columns_len:
  assumes "check_row_schema tr t = Ok ()" and "length tr = num_columns t" and "k \<le> num_columns t"
  shows "fixed_len (take k tr) \<le> columns_len (take k (schema_columns t))"
  using assms(3)
proof (induction k)
  case (Suc k)
  then show ?case
    using assms(2) column_of_row [OF assms(1), of k]
    by (simp add: columns_len_Suc fixed_len_Suc num_columns_def)
qed simp

lemma fixed_len_eq_columns_len:
  assumes "check_row_schema tr t = Ok ()" and "length tr = num_columns t" and "k \<le> num_columns t"
    and "\<forall>d \<in> set tr. \<not> is_null d"
  shows "columns_len (take k (schema_columns t)) = fixed_len (take k tr)"
  using assms(3)
proof (induction k)
  case (Suc k)
  then show ?case
    using assms(2,4) column_of_row [OF assms(1), of k]
    by (simp add: columns_len_Suc fixed_len_Suc num_columns_def)
qed (simp add: columns_len_def)

text \<open>A row without nulls.\<close>

lemma write_row_plain:
  assumes "row_writable t idx row"
  defines "tr \<equiv> table_row idx row"
  assumes "\<forall>d \<in> set tr. \<not> is_null d"
  shows "write_row t idx row =
    Ok (replicate 4 0 @ fixed_block (4 + fixed_len tr) tr @ var_block tr)"
proof -
  note w = assms(1) [unfolded row_writable_def, folded tr_def]
  have len: "length tr = num_columns t" using w by (simp add: tr_def)
  have "string_buffer_offset (column_schemas_of t) = fixed_len tr"
    using column_schemas_offsets(2) [of t] fixed_len_eq_columns_len [of tr t "num_columns t"] w len assms(3)
    by (simp add: num_columns_def)
  moreover have "filter is_null tr = []" using assms(3) by (simp add: filter_empty_conv)
  then have "res_fold (count_null idx row) [0..<num_columns t] 0 = Ok 0"
    using fold_count_null [of idx row "num_columns t"] w len by (simp add: tr_def [symmetric])
  moreover have "res_fold (measure_var idx row) [0..<num_columns t] (fixed_len tr + 4) =
      Ok (fixed_len tr + 4 + length (var_block tr))"
    using fold_measure_var [of idx row "num_columns t"] w len by (simp add: tr_def [symmetric])
  moreover have "res_fold (write_column_without_nulls t idx row) [0..<num_columns t]
      (replicate (fixed_len tr + 4 + length (var_block tr)) 0, 4, fixed_len tr + 4) =
    Ok (replicate 4 0 @ fixed_block (4 + fixed_len tr) tr @ var_block tr, 4 + fixed_len tr,
        4 + fixed_len tr + length (var_block tr))"
    using write_columns_without_nulls [of idx row "num_columns t" "replicate 4 0" t, folded tr_def] w len assms(3)
    by (simp add: written_0 written_all replicate_add [symmetric] ac_simps)
  ultimately show ?thesis
    by (simp add: write_row_def write_row_without_nulls_def)
qed

lemma read_row_plain:
  assumes "row_writable t idx row"
  defines "tr \<equiv> table_row idx row"
  assumes "\<forall>d \<in> set tr. \<not> is_null d"
  defines "buf \<equiv> replicate 4 0 @ fixed_block (4 + fixed_len tr) tr @ var_block tr"
  shows "\<exists>r. reader_try_new buf t = Ok r \<and> num_datum_views r = num_columns t \<and>
    (\<forall>i < num_columns t. datum_view_at r i = Ok (tr ! i))"
proof -
  note w = assms(1) [unfolded row_writable_def, folded tr_def]
  have len: "length tr = num_columns t" using w by (simp add: tr_def)
  have bo: "byte_offsets (column_schemas_of t) = map (\<lambda>i. fixed_len (take i tr)) [0..<num_columns t]"
    using column_schemas_offsets(1) [of t] fixed_len_eq_columns_len [OF _ len _ assms(3)] w by simp
  have "le_value (replicate 4 0) = 0" by (simp add: numeral_eq_Suc le_value_def)
  then have r: "reader_try_new buf t = Ok (NoNulls buf (map (\<lambda>i. fixed_len (take i tr)) [0..<num_columns t]) 4)"
    by (simp add: reader_try_new_def buf_def slice_to_def bo Let_def)
  have "res_bind (slice_from buf (4 + fixed_len (take i tr))) (\<lambda>b. read_datum_view b buf) = Ok (tr ! i)"
    if "i < num_columns t" for i
    using read_layout [of buf "replicate 4 0" tr i] w len that assms(3) by (simp add: buf_def)
  then have "\<forall>i < num_columns t. datum_view_at (NoNulls buf (map (\<lambda>i. fixed_len (take i tr)) [0..<num_columns t]) 4) i
      = Ok (tr ! i)"
    by (simp add: index_res_def)
  with r show ?thesis by simp
qed

text \<open>A row with nulls.\<close>

definition nulls_buf :: "nat \<Rightarrow> bit_set \<Rightarrow> datum list \<Rightarrow> u8 list" where
  "nulls_buf n nulls tr =
     (le_bytes 4 n @ bs_buffer nulls) @
     fixed_block (length (le_bytes 4 n @ bs_buffer nulls) + fixed_len tr) tr @ var_block tr"

lemma write_row_nulls:
  assumes "row_writable t idx row"
  defines "tr \<equiv> table_row idx row"
  assumes "\<exists>d \<in> set tr. is_null d"
  shows "\<exists>nulls. bits_are (num_columns t) (cleared_at idx tr (num_columns t)) nulls \<and> write_row t idx row =
    Ok (nulls_buf (num_columns t) nulls tr)"
proof -
  note w = assms(1) [unfolded row_writable_def, folded tr_def]
  let ?n = "num_columns t" and ?pre = "replicate (4 + bit_set_num_bytes (num_columns t)) (0 :: u8)"
  have len: "length tr = ?n" using w by (simp add: tr_def)
  have "filter is_null tr \<noteq> []" using assms(3) by (simp add: filter_empty_conv)
  then have count: "\<exists>c > 0. res_fold (count_null idx row) [0..<?n] 0 = Ok c"
    using fold_count_null [of idx row ?n] w len by (simp add: tr_def [symmetric])
  have measure: "res_fold (measure_nulls idx row) [0..<?n] (0, 0) =
      Ok (fixed_len tr + length (var_block tr), length (var_block tr))"
    using fold_measure_nulls [of idx row ?n] w len by (simp add: tr_def [symmetric])
  have all: "length (bs_buffer (bit_set_all_set ?n)) = bit_set_num_bytes ?n"
    by (simp add: bit_set_all_set_def)
  obtain nulls where cols: "res_fold (write_column_with_nulls idx row) [0..<?n]
      (replicate (fixed_len tr + length (var_block tr) + (4 + bit_set_num_bytes ?n)) 0, 4 + bit_set_num_bytes ?n,
       4 + bit_set_num_bytes ?n + fixed_len tr, bit_set_all_set ?n) =
    Ok (?pre @ fixed_block (4 + bit_set_num_bytes ?n + fixed_len tr) tr @ var_block tr,
        4 + bit_set_num_bytes ?n + fixed_len tr, 4 + bit_set_num_bytes ?n + fixed_len tr + length (var_block tr), nulls)"
    and bits: "bits_are ?n (cleared_at idx tr ?n) nulls"
    using write_columns_with_nulls [of idx row ?n ?pre, folded tr_def] w len
    by (auto simp: written_0 written_all replicate_add [symmetric] ac_simps)
  have nl: "length (bs_buffer nulls) = bit_set_num_bytes ?n" using bits by (simp add: bits_are_def)
  have "write_row t idx row = write_row_with_nulls t idx row"
    using count by (auto simp: write_row_def)
  also have "\<dots> = Ok (nulls_buf ?n nulls tr)"
    using measure all cols nl w
    by (simp add: nulls_buf_def write_row_with_nulls_def Let_def write_slice_to_offset_def replicate_add ac_simps)
  finally show ?thesis using bits by blast
qed

text \<open>
  The reader puts a column behind the columns whose bits are not cleared, which are the columns that
  have a value when each null column has the same place in the writer.
\<close>

primrec kept_len :: "column_schema list \<Rightarrow> (nat \<Rightarrow> bool) \<Rightarrow> nat \<Rightarrow> nat" where
  "kept_len cols P 0 = 0"
| "kept_len cols P (Suc k) = kept_len cols P k + (if P k then 0 else byte_size_of_datum (cs_data_type (cols ! k)))"

lemma kept_len_le: "k \<le> length cols \<Longrightarrow> kept_len cols P k \<le> columns_len (take k cols)"
  by (induction k) (auto simp: columns_len_Suc)

lemma kept_len_fixed_len:
  assumes "check_row_schema tr t = Ok ()" and "length tr = num_columns t" and "k \<le> num_columns t"
    and "\<forall>i < k. P i \<longleftrightarrow> is_null (tr ! i)"
  shows "kept_len (schema_columns t) P k = fixed_len (take k tr)"
  using assms(3,4)
proof (induction k)
  case (Suc k)
  then show ?case using assms(2) column_of_row [OF assms(1), of k] by (simp add: fixed_len_Suc)
qed simp

lemma fix_offsets:
  assumes "bits_are (num_columns t) P nulls" and "k \<le> num_columns t"
  shows "res_fold (fix_offset t nulls)
      (map (\<lambda>i. (i, columns_len (take i (schema_columns t)))) [0..<k]) ([], 0) =
    Ok (map (\<lambda>i. if P i then - 1 else int (kept_len (schema_columns t) P i)) [0..<k],
        columns_len (take k (schema_columns t)) - kept_len (schema_columns t) P k)"
  using assms(2)
proof (induction k)
  case (Suc k)
  then have k: "k < num_columns t" "k < length (schema_columns t)" by (simp_all add: num_columns_def)
  have le: "kept_len (schema_columns t) P k \<le> columns_len (take k (schema_columns t))" using kept_len_le k by simp
  have "bit_set_is_set nulls k = Ok (Some (\<not> P k))"
    using bit_set_is_set_ok [of nulls k] assms(1) k by (simp add: bits_are_def)
  then have "fix_offset t nulls (k, columns_len (take k (schema_columns t)))
      (xs, columns_len (take k (schema_columns t)) - kept_len (schema_columns t) P k) =
    Ok (xs @ [if P k then - 1 else int (kept_len (schema_columns t) P k)],
        columns_len (take (Suc k) (schema_columns t)) - kept_len (schema_columns t) P (Suc k))" for xs
    using le k
    by (cases "P k") (simp_all add: fix_offset_def schema_column_def index_res_def columns_len_Suc)
  with Suc k show ?case by (simp add: res_fold_append)
qed (simp add: columns_len_def)

lemma open_row_nulls:
  assumes "schema_wf t" and "0 < num_columns t" and "num_columns t < 2 ^ 32" and "bits_are (num_columns t) P nulls"
  shows "reader_try_new (nulls_buf (num_columns t) nulls tr) t =
    Ok (WithNulls (nulls_buf (num_columns t) nulls tr)
          (map (\<lambda>i. if P i then - 1 else int (kept_len (schema_columns t) P i)) [0..<num_columns t])
          (4 + bit_set_num_bytes (num_columns t)))"
proof -
  let ?n = "num_columns t"
  have nulls: "length (bs_buffer nulls) = bit_set_num_bytes ?n" "bs_num_bits nulls = ?n"
    using assms(4) by (simp_all add: bits_are_def)
  then have "bit_set_try_from_raw (bs_buffer nulls) ?n = Some nulls" by (simp add: bit_set_try_from_raw_def)
  moreover have "enumerate 0 (byte_offsets (column_schemas_of t)) =
      map (\<lambda>i. (i, columns_len (take i (schema_columns t)))) [0..<?n]"
    using column_schemas_offsets(1) [OF assms(1)] by (simp add: enumerate_eq_zip zip_map2 zip_same_conv_map)
  ultimately show ?thesis
    using fix_offsets [OF assms(4), of ?n] assms(2,3) nulls
    by (simp add: reader_try_new_def reader_with_nulls_def nulls_buf_def slice_to_def slice_from_def Let_def le_value_bytes)
qed

text \<open>A column whose bit is set reads as the value that is stored at its offset.\<close>

lemma read_row_nulls_at:
  assumes "row_writable t idx row" and "bits_are (num_columns t) P nulls" and "i < num_columns t" and "n < num_columns t"
    and "\<not> P i" and "\<not> is_null (table_row idx row ! n)"
    and "kept_len (schema_columns t) P i = fixed_len (take n (table_row idx row))"
  shows "res_bind (reader_try_new (nulls_buf (num_columns t) nulls (table_row idx row)) t) (\<lambda>r. datum_view_at r i) =
    Ok (table_row idx row ! n)"
proof -
  note w = assms(1) [unfolded row_writable_def]
  let ?tr = "table_row idx row" and ?n = "num_columns t"
  have nulls: "length (bs_buffer nulls) = bit_set_num_bytes ?n" using assms(2) by (simp add: bits_are_def)
  have "res_bind (slice_from (nulls_buf ?n nulls ?tr) (4 + bit_set_num_bytes ?n + fixed_len (take n ?tr)))
      (\<lambda>b. read_datum_view b (nulls_buf ?n nulls ?tr)) = Ok (?tr ! n)"
    using read_layout [OF nulls_buf_def, of n ?tr ?n nulls] w assms(4,6) nulls by (simp add: nulls_buf_def)
  then show ?thesis using open_row_nulls [of t P nulls ?tr] w assms(2,3,5,7) by (simp add: index_res_def)
qed

lemma read_row_nulls:
  assumes "row_writable t idx row" and "nulls_in_place idx (table_row idx row)" and "0 < num_columns t"
    and "bits_are (num_columns t) (cleared_at idx (table_row idx row) (num_columns t)) nulls"
  shows "\<exists>r. reader_try_new (nulls_buf (num_columns t) nulls (table_row idx row)) t = Ok r \<and> num_datum_views r = num_columns t \<and>
    (\<forall>i < num_columns t. datum_view_at r i = Ok (table_row idx row ! i))"
proof -
  note w = assms(1) [unfolded row_writable_def]
  let ?tr = "table_row idx row" and ?P = "cleared_at idx (table_row idx row) (num_columns t)"
  have len: "length ?tr = num_columns t" using w by simp
  have P: "?P i \<longleftrightarrow> is_null (?tr ! i)" if "i < num_columns t" for i
    using cleared_in_place [OF assms(2), of i] that len by simp
  have kept: "kept_len (schema_columns t) ?P i = fixed_len (take i ?tr)" if "i < num_columns t" for i
    using kept_len_fixed_len [OF _ len, of i] P that w by simp
  note r = open_row_nulls [of t ?P nulls ?tr]
  have "datum_view_at r' i = Ok (?tr ! i)"
    if "reader_try_new (nulls_buf (num_columns t) nulls ?tr) t = Ok r'" "i < num_columns t" for r' i
  proof (cases "is_null (?tr ! i)")
    case True
    then show ?thesis using r w assms(3,4) P that by (auto simp: index_res_def) (simp add: is_null_def)
  next
    case False
    then show ?thesis using read_row_nulls_at [OF assms(1,4) that(2,2)] P kept that by simp
  qed
  moreover obtain r' where "reader_try_new (nulls_buf (num_columns t) nulls ?tr) t = Ok r'" "num_datum_views r' = num_columns t"
    using r w assms(3,4) by simp
  ultimately show ?thesis by blast
qed

lemma row_round_trip:
  assumes "row_writable t idx row" and "nulls_in_place idx (table_row idx row)"
  shows "\<exists>buf r. write_row t idx row = Ok buf \<and> reader_try_new buf t = Ok r \<and>
    num_datum_views r = num_columns t \<and> (\<forall>i < num_columns t. datum_view_at r i = Ok (table_row idx row ! i))"
proof (cases "\<exists>d \<in> set (table_row idx row). is_null d")
  case True
  then have "0 < num_columns t"
    using assms(1) by (metis length_pos_if_in_set length_table_row row_writable_def)
  with write_row_nulls [OF assms(1) True] read_row_nulls [OF assms] show ?thesis by metis
next
  case False
  with write_row_plain [OF assms(1)] read_row_plain [OF assms(1)] show ?thesis by blast
qed

lemma write_row_length:
  assumes "row_writable t idx row" and "nulls_in_place idx (table_row idx row)"
  shows "\<exists>buf. write_row t idx row = Ok buf \<and> length buf \<le> MAX_ROW_LEN"
proof (cases "\<exists>d \<in> set (table_row idx row). is_null d")
  case True
  then show ?thesis using write_row_nulls [OF assms(1) True] assms(1) by (auto simp: bits_are_def row_writable_def nulls_buf_def)
next
  case False
  then show ?thesis using write_row_plain [OF assms(1)] assms(1) by (auto simp: row_writable_def)
qed

section \<open>Properties\<close>

text \<open>
  C7. A row that fits the table schema, written through \<open>ContiguousRowWriter::write_row\<close> and opened
  with \<open>ContiguousRowReader::try_new\<close>, gives back every column of the table row, nulls included,
  whenever each null column has the same index in the writer schema and in the table schema (the
  null bit is cleared at the writer index).\<close>

theorem contiguous_row_round_trip:
  assumes "row_writable t idx row" and "nulls_in_place idx (table_row idx row)"
  shows "\<exists>buf r. write_row t idx row = Ok buf \<and> reader_try_new buf t = Ok r \<and>
    num_datum_views r = num_columns t \<and> (\<forall>i < num_columns t. datum_view_at r i = Ok (table_row idx row ! i))"
  using assms by (rule row_round_trip)

theorem contiguous_row_round_trip_witness:
  "\<exists>buf r. write_row demo_schema (for_same_schema 4) [D_String [97, 98], D_Timestamp 7, D_Null, D_Double 3] = Ok buf \<and>
    reader_try_new buf demo_schema = Ok r \<and> num_datum_views r = 4 \<and> datum_view_at r 2 = Ok D_Null \<and>
    datum_view_at r 3 = Ok (D_Double 3)"
proof -
  have idx: "for_same_schema 4 = [Some 0, Some 1, Some 2, Some 3]" by code_simp
  have tr: "table_row [Some 0, Some 1, Some 2, Some 3] [D_String [97, 98], D_Timestamp 7, D_Null, D_Double 3] =
      [D_String [97, 98], D_Timestamp 7, D_Null, D_Double 3]"
    by (simp add: table_row_def)
  have "row_writable demo_schema (for_same_schema 4) [D_String [97, 98], D_Timestamp 7, D_Null, D_Double 3]"
    unfolding row_writable_def idx tr
    by (simp add: demo_schema_wf num_columns_def demo_defs fits_writer_def check_row_schema_Ok check_datum_type_Ok
        strings_fit_def bit_set_num_bytes_def var_block_def var_enc_def is_null_def)
  moreover have "nulls_in_place (for_same_schema 4) (table_row (for_same_schema 4) [D_String [97, 98], D_Timestamp 7, D_Null, D_Double 3])"
    unfolding idx tr by (simp add: nulls_in_place_def All_less_Suc2 is_null_def)
  moreover have "num_columns demo_schema = 4" by code_simp
  ultimately obtain buf r where "write_row demo_schema (for_same_schema 4)
      [D_String [97, 98], D_Timestamp 7, D_Null, D_Double 3] = Ok buf" "reader_try_new buf demo_schema = Ok r"
      "num_datum_views r = 4"
    and "\<forall>i < 4. datum_view_at r i = Ok ([D_String [97, 98], D_Timestamp 7, D_Null, D_Double 3] ! i)"
    using contiguous_row_round_trip [of demo_schema "for_same_schema 4"
        "[D_String [97, 98], D_Timestamp 7, D_Null, D_Double 3]"]
    unfolding idx tr by auto
  then show ?thesis by (intro exI [of _ buf] exI [of _ r]) simp
qed



end
