(* ===== verification/Varint.thy ===== *)
theory Varint
  imports Bytes_Ext
begin

unbundle bit_operations_syntax

text \<open>
  Variable-length integers, \<^verbatim>\<open>common_util/src/codec/varint.rs\<close>. An \<open>i64\<close> is carried as its
  64-bit pattern and read by \<open>sint\<close>.
\<close>

section \<open>Encoding and decoding\<close>

datatype varint_error =
  EncodeVarint bytes_error
| DecodeEmptyValue
| DecodeVarintValue bytes_error
| UvarintOverflow

lemma drop_bit_7_less: "unat (drop_bit 7 x) < unat x" if "0x80 \<le> x" for x :: u64
proof -
  have "0x80 \<le> unat x" using that by (simp add: word_le_nat_alt)
  then have "unat x div 128 < unat x" by simp
  then show ?thesis by (simp add: drop_bit_eq_div unat_div)
qed

function encode_uvarint :: "buf_mut \<Rightarrow> u64 \<Rightarrow> (varint_error, buf_mut) result" where
  "encode_uvarint b x =
     (if 0x80 \<le> x
      then res_bind (res_ctx EncodeVarint (try_put_u8 b (ucast x OR 0x80)))
             (\<lambda>b'. encode_uvarint b' (drop_bit 7 x))
      else res_ctx EncodeVarint (try_put_u8 b (ucast x)))"
  by pat_completeness auto
termination
  by (relation "measure (\<lambda>(b, x). unat x)") (auto simp: drop_bit_7_less)

declare encode_uvarint.simps [simp del]

definition encode_varint :: "buf_mut \<Rightarrow> u64 \<Rightarrow> (varint_error, buf_mut) result" where
  "encode_varint b value =
     (let x = push_bit 1 value
      in encode_uvarint b (if sint value < 0 then NOT x else x))"

text \<open>A left shift of a \<open>u64\<close> by its width or more is an overflow.\<close>

definition shl_u64 :: "u64 \<Rightarrow> nat \<Rightarrow> ('e, u64) result" where
  "shl_u64 v s = (if s < 64 then Ok (push_bit s v) else Panic)"

text \<open>
  The loop of \<open>decode_uvarint\<close>: \<open>i\<close> bytes have been read, \<open>s\<close> is the shift of the next one
  and \<open>x\<close> what they encode.
\<close>

fun decode_uvarint_loop :: "nat \<Rightarrow> nat \<Rightarrow> u64 \<Rightarrow> u8 list \<Rightarrow> (varint_error, u64 \<times> u8 list) result" where
  "decode_uvarint_loop i s x [] = Err DecodeEmptyValue"
| "decode_uvarint_loop i s x (b # buf) =
     (if b < 0x80
      then if 9 < i \<or> i = 9 \<and> 1 < b then Err UvarintOverflow
           else res_bind (shl_u64 (ucast b) s) (\<lambda>v. Ok (x OR v, buf))
      else res_bind (shl_u64 (ucast (b AND 0x7f)) s)
             (\<lambda>v. decode_uvarint_loop (i + 1) (s + 7) (x OR v) buf))"

definition decode_uvarint :: "u8 list \<Rightarrow> (varint_error, u64 \<times> u8 list) result" where
  "decode_uvarint buf = decode_uvarint_loop 0 0 0 buf"

definition decode_varint :: "u8 list \<Rightarrow> (varint_error, u64 \<times> u8 list) result" where
  "decode_varint buf =
     res_bind (decode_uvarint buf) (\<lambda>(ux, rest).
       let x = drop_bit 1 ux
       in Ok (if ux AND 1 \<noteq> 0 then NOT x else x, rest))"

section \<open>What is written\<close>

function uvarint_repr :: "u64 \<Rightarrow> u8 list" where
  "uvarint_repr x =
     (if 0x80 \<le> x then (ucast x OR 0x80) # uvarint_repr (drop_bit 7 x) else [ucast x])"
  by pat_completeness auto
termination
  by (relation "measure unat") (auto simp: drop_bit_7_less)

declare uvarint_repr.simps [simp del]

lemma uvarint_repr_nonempty [simp]: "uvarint_repr x \<noteq> []"
  by (subst uvarint_repr.simps) simp

lemma encode_uvarint_ok:
  "length (uvarint_repr x) \<le> bm_remaining b \<Longrightarrow>
     encode_uvarint b x = Ok (bm_append b (uvarint_repr x))"
proof (induction x arbitrary: b rule: uvarint_repr.induct)
  case (1 x)
  show ?case
  proof (cases "0x80 \<le> x")
    case True
    with "1.prems" have len: "Suc (length (uvarint_repr (drop_bit 7 x))) \<le> bm_remaining b"
      by (simp add: uvarint_repr.simps [of x])
    from True have "encode_uvarint (bm_append b [ucast x OR 0x80]) (drop_bit 7 x) =
        Ok (bm_append (bm_append b [ucast x OR 0x80]) (uvarint_repr (drop_bit 7 x)))"
      by (rule "1.IH") (use len in simp)
    with True len show ?thesis
      by (simp add: encode_uvarint.simps [of b x] uvarint_repr.simps [of x])
  next
    case False
    with "1.prems" show ?thesis
      by (simp add: encode_uvarint.simps [of b x] uvarint_repr.simps [of x])
  qed
qed

section \<open>Round trip\<close>

lemma bit_0x7f: "bit (0x7f :: int) k \<longleftrightarrow> k < 7"
proof -
  have "(0x7f :: int) = mask 7" by (simp add: mask_eq_exp_minus_1)
  then show ?thesis by (simp only: bit_mask_iff) auto
qed

lemma bit_0x80: "bit (0x80 :: int) k \<longleftrightarrow> k = 7"
proof -
  have "(0x80 :: int) = 2 ^ 7" by simp
  then show ?thesis by (simp only: bit_exp_iff) auto
qed

lemma ucast_low_bits: "ucast ((ucast x OR 0x80 :: u8) AND 0x7f) = x AND 0x7f" for x :: u64
  by (rule bit_word_eqI) (auto simp: bit_simps bit_0x7f bit_0x80)

lemma seven_bits_split:
  "push_bit s (x AND 0x7f) OR push_bit (s + 7) (drop_bit 7 x) = push_bit s x" for x :: u64
proof (rule bit_word_eqI)
  fix n :: nat
  have "7 + (n - (s + 7)) = n - s" if "s + 7 \<le> n" using that by simp
  then show "bit (push_bit s (x AND 0x7f) OR push_bit (s + 7) (drop_bit 7 x)) n = bit (push_bit s x) n"
    by (cases "s + 7 \<le> n") (auto simp: bit_simps bit_0x7f)
qed

lemma continuation_byte: "0x80 \<le> (ucast x OR 0x80 :: u8)" for x :: u64
proof -
  have "0x80 AND (ucast x OR 0x80 :: u8) = 0x80"
    by (rule bit_word_eqI) (auto simp: bit_simps bit_0x80)
  then show ?thesis by (metis word_and_le1)
qed

lemma small_byte: "(ucast x :: u8) < 0x80" "unat (ucast x :: u8) = unat x" if "x < 0x80" for x :: u64
proof -
  from that have "unat x < 128" by (simp add: word_less_nat_alt)
  then show eq: "unat (ucast x :: u8) = unat x" by (simp add: unsigned_ucast_eq take_bit_nat_eq_self)
  with \<open>unat x < 128\<close> show "(ucast x :: u8) < 0x80" by (simp add: word_less_nat_alt)
qed

lemma ucast_ucast_small: "ucast (ucast x :: u8) = x" if "x < 0x80" for x :: u64
proof -
  have "unat (ucast (ucast x :: u8) :: u64) = unat (ucast x :: u8)"
    by (simp add: unsigned_ucast_eq take_bit_eq_mod unat_mod)
  with small_byte(2) [OF that] show ?thesis by (simp only: word_unat_eq_iff)
qed

lemma decode_uvarint_loop_repr:
  assumes "i \<le> 9" and "unat x < 2 ^ (64 - 7 * i)"
  shows "decode_uvarint_loop i (7 * i) acc (uvarint_repr x @ rest) = Ok (acc OR push_bit (7 * i) x, rest)"
  using assms
proof (induction x arbitrary: i acc rule: uvarint_repr.induct)
  case (1 x)
  have s: "7 * i < 64" using "1.prems"(1) by simp
  show ?case
  proof (cases "0x80 \<le> x")
    case True
    then have "2 ^ 7 \<le> unat x" by (simp add: word_le_nat_alt)
    with "1.prems"(2) have "(2::nat) ^ 7 < 2 ^ (64 - 7 * i)" by linarith
    then have "7 < 64 - 7 * i" by (rule power_less_imp_less_exp [rotated]) simp
    then have i: "i + 1 \<le> 9" by simp
    have split: "(2::nat) ^ (64 - 7 * i) = 2 ^ 7 * 2 ^ (64 - 7 * (i + 1))"
    proof -
      have "64 - 7 * i = 7 + (64 - 7 * (i + 1))" using i by simp
      then show ?thesis by (simp only: power_add)
    qed
    have "unat (drop_bit 7 x) < 2 ^ (64 - 7 * (i + 1))"
      using "1.prems"(2) unfolding split
      by (simp add: drop_bit_eq_div unat_div less_mult_imp_div_less mult.commute)
    then have IH: "decode_uvarint_loop (i + 1) (7 * (i + 1)) a (uvarint_repr (drop_bit 7 x) @ rest) =
        Ok (a OR push_bit (7 * (i + 1)) (drop_bit 7 x), rest)" for a
      by (rule "1.IH" [OF True i])
    have "decode_uvarint_loop i (7 * i) acc (uvarint_repr x @ rest) =
        Ok (acc OR push_bit (7 * i) (x AND 0x7f) OR push_bit (7 * i + 7) (drop_bit 7 x), rest)"
      using True s IH continuation_byte [of x]
      by (simp add: uvarint_repr.simps [of x] shl_u64_def ucast_low_bits linorder_not_less add.commute or.assoc)
    then show ?thesis by (simp only: seven_bits_split)
  next
    case False
    then have x: "x < 0x80" by simp
    have "\<not> (9 < i \<or> i = 9 \<and> 1 < (ucast x :: u8))"
      using "1.prems" small_byte(2) [OF x] by (auto simp: word_less_nat_alt)
    with x s show ?thesis
      using False small_byte(1) [OF x]
      by (simp add: uvarint_repr.simps [of x] shl_u64_def ucast_ucast_small)
  qed
qed

lemma decode_uvarint_repr: "decode_uvarint (uvarint_repr x @ rest) = Ok (x, rest)"
  using decode_uvarint_loop_repr [of 0 x 0 rest] unsigned_less [of x]
  by (simp add: decode_uvarint_def)

interpretation uvarint: codec encode_uvarint decode_uvarint uvarint_repr "\<lambda>_. True"
  by unfold_locales (simp_all add: encode_uvarint_ok decode_uvarint_repr)

text \<open>The zig-zag map of the signed form, and that decoding inverts it.\<close>

definition zigzag :: "u64 \<Rightarrow> u64" where
  "zigzag value = (if sint value < 0 then NOT (push_bit 1 value) else push_bit 1 value)"

definition varint_repr :: "u64 \<Rightarrow> u8 list" where
  "varint_repr value = uvarint_repr (zigzag value)"

lemma sint_neg_iff_bit: "sint (v :: u64) < 0 \<longleftrightarrow> bit v 63"
  using bit_last_iff [of v] by simp

lemma unzigzag:
  "(if zigzag v AND 1 \<noteq> 0 then NOT (drop_bit 1 (zigzag v)) else drop_bit 1 (zigzag v)) = v"
proof (cases "bit v 63")
  case True
  then have z: "zigzag v = NOT (push_bit 1 v)" by (simp add: zigzag_def sint_neg_iff_bit)
  have "zigzag v AND 1 \<noteq> 0" unfolding z by (simp add: and_one_eq mod_2_eq_odd)
  moreover have "NOT (drop_bit 1 (zigzag v)) = v"
    unfolding z
  proof (rule bit_word_eqI)
    fix n assume "n < LENGTH(64)"
    then have "n = 63 \<or> n < 63" by auto
    with True show "bit (NOT (drop_bit 1 (NOT (push_bit 1 v)))) n = bit v n"
      by (auto simp: bit_simps simp del: push_bit_Suc)
  qed
  ultimately show ?thesis by simp
next
  case False
  then have z: "zigzag v = push_bit 1 v" by (simp add: zigzag_def sint_neg_iff_bit)
  have "zigzag v AND 1 = 0" unfolding z by (simp add: and_one_eq mod_2_eq_odd)
  moreover have "drop_bit 1 (zigzag v) = v"
    unfolding z
  proof (rule bit_word_eqI)
    fix n assume "n < LENGTH(64)"
    then have "n = 63 \<or> n < 63" by auto
    with False show "bit (drop_bit 1 (push_bit 1 v)) n = bit v n"
      by (auto simp: bit_simps simp del: push_bit_Suc)
  qed
  ultimately show ?thesis by simp
qed

interpretation varint: codec encode_varint decode_varint varint_repr "\<lambda>_. True"
proof unfold_locales
  fix v and b :: buf_mut assume "length (varint_repr v) \<le> bm_remaining b"
  then show "encode_varint b v = Ok (bm_append b (varint_repr v))"
    by (simp add: encode_varint_def varint_repr_def zigzag_def Let_def encode_uvarint_ok split: if_splits)
next
  fix v rest
  show "decode_varint (varint_repr v @ rest) = Ok (v, rest)"
    using unzigzag [of v]
    by (simp add: decode_varint_def varint_repr_def decode_uvarint_repr Let_def del: One_nat_def)
qed

section \<open>Length and panics\<close>

lemma length_uvarint_repr_le:
  assumes "0 < n" and "unat x < 2 ^ (7 * n)"
  shows "length (uvarint_repr x) \<le> n"
  using assms
proof (induction x arbitrary: n rule: uvarint_repr.induct)
  case (1 x)
  show ?case
  proof (cases "0x80 \<le> x")
    case True
    then have "2 ^ 7 \<le> unat x" by (simp add: word_le_nat_alt)
    with "1.prems"(2) have "(2::nat) ^ 7 < 2 ^ (7 * n)" by linarith
    then have "7 < 7 * n" by (rule power_less_imp_less_exp [rotated]) simp
    then obtain m where m: "n = Suc m" "0 < m" by (cases n) auto
    have "unat (drop_bit 7 x) < 2 ^ (7 * m)"
      using "1.prems"(2) m by (simp add: power_add drop_bit_eq_div unat_div less_mult_imp_div_less mult.commute)
    then have "length (uvarint_repr (drop_bit 7 x)) \<le> m"
      by (rule "1.IH" [OF True m(2)])
    with True m show ?thesis by (simp add: uvarint_repr.simps [of x])
  next
    case False
    with "1.prems" show ?thesis by (simp add: uvarint_repr.simps [of x])
  qed
qed

lemma length_uvarint_repr: "length (uvarint_repr x) \<le> 10"
proof -
  have "unat x < 2 ^ 64" using unat_u64_less [of x] by simp
  also have "\<dots> \<le> 2 ^ (7 * 10)" by (rule power_increasing) auto
  finally show ?thesis by (intro length_uvarint_repr_le) auto
qed

lemma length_varint_repr: "length (varint_repr x) \<le> 10"
  by (simp add: varint_repr_def length_uvarint_repr)

text \<open>
  When decoding panics: the loop shifts by \<open>7 * i\<close> for the byte at position \<open>i\<close>, so it is the
  eleventh byte, when it is again a continuation byte, that overflows the shift.
\<close>

lemma decode_uvarint_loop_Panic:
  assumes "i \<le> 10"
  shows "decode_uvarint_loop i (7 * i) x buf = Panic \<longleftrightarrow>
    10 - i < length buf \<and> (\<forall>b \<in> set (take (11 - i) buf). 0x80 \<le> b)"
  using assms
proof (induction buf arbitrary: i x)
  case Nil
  then show ?case by simp
next
  case (Cons b buf)
  show ?case
  proof (cases "b < 0x80")
    case True
    have "take (11 - i) (b # buf) = b # take (10 - i) buf"
      using Cons.prems by (simp add: Suc_diff_le numeral_eq_Suc)
    with True show ?thesis
      using Cons.prems by (auto simp: shl_u64_def)
  next
    case False
    show ?thesis
    proof (cases "i = 10")
      case True
      with False show ?thesis by (simp add: shl_u64_def linorder_not_less)
    next
      case neq: False
      with Cons.prems have i: "i + 1 \<le> 10" by simp
      have tk: "take (11 - i) (b # buf) = b # take (11 - (i + 1)) buf"
        using i by (simp add: take_Cons' )
      have "decode_uvarint_loop i (7 * i) x (b # buf) =
          decode_uvarint_loop (i + 1) (7 * (i + 1)) (x OR push_bit (7 * i) (ucast (b AND 0x7f))) buf"
        using False i by (simp add: shl_u64_def add.commute)
      with Cons.IH [OF i] False i show ?thesis
        unfolding tk by (auto simp: linorder_not_less)
    qed
  qed
qed

section \<open>Properties\<close>

text \<open>
  C26. Zigzag varints round-trip: into an empty buffer with ten bytes of room every \<open>i64\<close> is
  written in at most ten bytes, and decoding them, whatever follows, returns the value and leaves
  what follows.
\<close>

theorem varint_round_trip:
  assumes "bm_data b = []" and "10 \<le> bm_remaining b"
  shows "\<exists>b'. encode_varint b v = Ok b' \<and> length (bm_data b') \<le> 10 \<and>
           decode_varint (bm_data b' @ rest) = Ok (v, rest)"
proof -
  have "length (varint_repr v) \<le> bm_remaining b"
    using length_varint_repr [of v] assms(2) by simp
  then show ?thesis
    using assms(1) length_varint_repr [of v] by (simp add: varint.enc_ok varint.dec_ok)
qed

theorem varint_round_trip_witness:
  "\<exists>b'. encode_varint \<lparr>bm_data = [], bm_remaining = 10\<rparr> (- 300) = Ok b' \<and>
     length (bm_data b') \<le> 10 \<and> decode_varint (bm_data b' @ [7]) = Ok (- 300, [7])"
  by (rule varint_round_trip) simp_all

text \<open>
  C27. \<open>decode_uvarint\<close> panics, instead of returning \<open>UvarintOverflow\<close>, exactly on the inputs
  that start with eleven continuation bytes: the shift of the eleventh byte is by 70 bits.
\<close>

theorem decode_uvarint_Panic_iff:
  "decode_uvarint buf = Panic \<longleftrightarrow>
     10 < length buf \<and> (\<forall>b \<in> set (take 11 buf). 0x80 \<le> b)"
  using decode_uvarint_loop_Panic [of 0 0 buf] by (simp add: decode_uvarint_def)

theorem decode_uvarint_Panic_iff_witness: "decode_uvarint (replicate 11 0x80) = Panic"
  by (subst decode_uvarint_Panic_iff) simp

end
