(* ===== verification/Memcomparable.thy ===== *)
theory Memcomparable
  imports Datum
begin

unbundle bit_operations_syntax

text \<open>
  The memcomparable format, \<^verbatim>\<open>common_util/src/codec/memcomparable\<close>: byte strings in groups of
  eight with a marker byte, integers with their sign bit flipped, values behind a flag byte. Its
  point is that comparing encodings byte by byte compares the values, also when more follows, as
  in a key of several columns.
\<close>

section \<open>Constants and errors\<close>

abbreviation (input) NULL_FLAG :: u8 where "NULL_FLAG \<equiv> 0"
abbreviation (input) BYTES_FLAG :: u8 where "BYTES_FLAG \<equiv> 1"
abbreviation (input) COMPACT_BYTES_FLAG :: u8 where "COMPACT_BYTES_FLAG \<equiv> 2"
abbreviation (input) INT_FLAG :: u8 where "INT_FLAG \<equiv> 3"
abbreviation (input) UINT_FLAG :: u8 where "UINT_FLAG \<equiv> 4"
abbreviation (input) FLOAT_FLAG :: u8 where "FLOAT_FLAG \<equiv> 5"
abbreviation (input) VARINT_FLAG :: u8 where "VARINT_FLAG \<equiv> 8"
abbreviation (input) UVARINT_FLAG :: u8 where "UVARINT_FLAG \<equiv> 9"
abbreviation (input) SIGN_MASK :: u64 where "SIGN_MASK \<equiv> 0x8000000000000000"

datatype mem_error =
  MC_EncodeKey bytes_error
| MC_EncodeValue bytes_error
| MC_DecodeKey bytes_error
| MC_InvalidKeyFlag u8 u8
| MC_UnsupportedKind datum_kind
| MC_DecodeValue bytes_error
| MC_DecodeValueGroup
| MC_DecodeValueMarker "u8 list"
| MC_DecodeValuePadding "u8 list"
| MC_SkipPadding bytes_error

definition mem_ensure_flag :: "u8 list \<Rightarrow> u8 \<Rightarrow> (mem_error, u8 list) result" where
  "mem_ensure_flag buf flag =
     res_bind (res_ctx MC_DecodeKey (try_get_u8 buf)) (\<lambda>(actual, rest).
       if flag = actual then Ok rest else Err (MC_InvalidKeyFlag flag actual))"

section \<open>Byte strings\<close>

abbreviation (input) ENC_GROUP_SIZE :: nat where "ENC_GROUP_SIZE \<equiv> 8"
abbreviation (input) ENC_MARKER :: u8 where "ENC_MARKER \<equiv> 0xFF"

text \<open>One round of the loop of \<open>encode\<close>, at the group that starts at \<open>idx\<close>.\<close>

definition mem_encode_group :: "u8 list \<Rightarrow> nat \<Rightarrow> buf_mut \<Rightarrow> (mem_error, buf_mut) result" where
  "mem_encode_group val idx b =
     (let remain = length val - idx
      in if ENC_GROUP_SIZE \<le> remain
         then res_bind (res_ctx MC_EncodeValue (try_put b (take ENC_GROUP_SIZE (drop idx val)))) (\<lambda>b.
                res_ctx MC_EncodeValue (try_put_u8 b ENC_MARKER))
         else let pad_count = ENC_GROUP_SIZE - remain
              in res_bind (res_ctx MC_EncodeValue (try_put b (drop idx val))) (\<lambda>b.
                 res_bind (res_ctx MC_EncodeValue (try_put b (replicate pad_count 0))) (\<lambda>b.
                   res_ctx MC_EncodeValue (try_put_u8 b (ENC_MARKER - of_nat pad_count)))))"

text \<open>\<open>(0..=len).step_by(8)\<close>\<close>

definition group_starts :: "nat \<Rightarrow> nat list" where
  "group_starts len = map ((*) ENC_GROUP_SIZE) [0..<len div ENC_GROUP_SIZE + 1]"

definition mem_encode_bytes :: "buf_mut \<Rightarrow> u8 list \<Rightarrow> (mem_error, buf_mut) result" where
  "mem_encode_bytes b val = res_fold (mem_encode_group val) (group_starts (length val)) b"

definition mem_bytes_estimate :: "u8 list \<Rightarrow> nat" where
  "mem_bytes_estimate val = (length val div ENC_GROUP_SIZE + 1) * (ENC_GROUP_SIZE + 1)"

text \<open>
  The loop of \<open>decode_to\<close>; \<open>acc\<close> is what has been put into the growing output buffer, which holds
  less than was read and so never reaches its capacity.
\<close>

function mem_decode_loop :: "u8 list \<Rightarrow> u8 list \<Rightarrow> (mem_error, u8 list \<times> u8 list) result" where
  "mem_decode_loop acc buf =
     (if ENC_GROUP_SIZE < length buf
      then let group_bytes = take (ENC_GROUP_SIZE + 1) buf;
               group = take ENC_GROUP_SIZE group_bytes;
               marker = group_bytes ! ENC_GROUP_SIZE;
               pad_count = unat (ENC_MARKER - marker)
           in if pad_count \<le> ENC_GROUP_SIZE
              then let real_group_size = ENC_GROUP_SIZE - pad_count;
                       acc' = acc @ take real_group_size group
                   in if pad_count \<noteq> 0
                      then if \<forall>v \<in> set (drop real_group_size group). v = 0
                           then Ok (acc', drop (ENC_GROUP_SIZE + 1) buf)
                           else Err (MC_DecodeValuePadding group_bytes)
                      else mem_decode_loop acc' (drop (ENC_GROUP_SIZE + 1) buf)
              else Err (MC_DecodeValueMarker group_bytes)
      else Err MC_DecodeValueGroup)"
  by pat_completeness auto
termination
  by (relation "measure (\<lambda>(acc, buf). length buf)") auto

declare mem_decode_loop.simps [simp del]

definition mem_decode_bytes :: "u8 list \<Rightarrow> (mem_error, u8 list \<times> u8 list) result" where
  "mem_decode_bytes buf = mem_decode_loop [] buf"

section \<open>Numbers\<close>

definition encode_int_to_cmp_uint :: "u64 \<Rightarrow> u64" where
  "encode_int_to_cmp_uint v = v XOR SIGN_MASK"

definition decode_cmp_uint_to_int :: "u64 \<Rightarrow> u64" where
  "decode_cmp_uint_to_int u = u XOR SIGN_MASK"

definition mem_encode_i64 :: "buf_mut \<Rightarrow> u64 \<Rightarrow> (mem_error, buf_mut) result" where
  "mem_encode_i64 b v = res_ctx MC_EncodeValue (try_put_u64 b (encode_int_to_cmp_uint v))"

definition mem_decode_i64 :: "u8 list \<Rightarrow> (mem_error, u64 \<times> u8 list) result" where
  "mem_decode_i64 buf =
     res_bind (res_ctx MC_DecodeValue (try_get_u64 buf)) (\<lambda>(u, rest).
       Ok (decode_cmp_uint_to_int u, rest))"

definition mem_encode_u64 :: "buf_mut \<Rightarrow> u64 \<Rightarrow> (mem_error, buf_mut) result" where
  "mem_encode_u64 b v = res_ctx MC_EncodeValue (try_put_u64 b v)"

definition mem_decode_u64 :: "u8 list \<Rightarrow> (mem_error, u64 \<times> u8 list) result" where
  "mem_decode_u64 buf = res_ctx MC_DecodeValue (try_get_u64 buf)"

section \<open>Values\<close>

definition mem_put_flag :: "buf_mut \<Rightarrow> u8 \<Rightarrow> (mem_error, buf_mut) result" where
  "mem_put_flag b flag = res_ctx MC_EncodeKey (try_put_u8 b flag)"

primrec mem_encode :: "buf_mut \<Rightarrow> datum \<Rightarrow> (mem_error, buf_mut) result" where
  "mem_encode b D_Null = mem_put_flag b NULL_FLAG"
| "mem_encode b (D_Timestamp v) = res_bind (mem_put_flag b INT_FLAG) (\<lambda>b. mem_encode_i64 b v)"
| "mem_encode b (D_Varbinary v) = res_bind (mem_put_flag b BYTES_FLAG) (\<lambda>b. mem_encode_bytes b v)"
| "mem_encode b (D_String v) = res_bind (mem_put_flag b BYTES_FLAG) (\<lambda>b. mem_encode_bytes b v)"
| "mem_encode b (D_UInt64 v) = res_bind (mem_put_flag b UINT_FLAG) (\<lambda>b. mem_encode_u64 b v)"
| "mem_encode b (D_UInt32 v) = res_bind (mem_put_flag b UINT_FLAG) (\<lambda>b. mem_encode_u64 b (ucast v))"
| "mem_encode b (D_UInt16 v) = res_bind (mem_put_flag b UINT_FLAG) (\<lambda>b. mem_encode_u64 b (ucast v))"
| "mem_encode b (D_UInt8 v) = res_bind (mem_put_flag b UINT_FLAG) (\<lambda>b. mem_encode_u64 b (ucast v))"
| "mem_encode b (D_Int64 v) = res_bind (mem_put_flag b INT_FLAG) (\<lambda>b. mem_encode_i64 b v)"
| "mem_encode b (D_Int32 v) = res_bind (mem_put_flag b INT_FLAG) (\<lambda>b. mem_encode_i64 b (scast v))"
| "mem_encode b (D_Int16 v) = res_bind (mem_put_flag b INT_FLAG) (\<lambda>b. mem_encode_i64 b (scast v))"
| "mem_encode b (D_Int8 v) = res_bind (mem_put_flag b INT_FLAG) (\<lambda>b. mem_encode_i64 b (scast v))"
| "mem_encode b (D_Boolean v) = res_bind (mem_put_flag b UINT_FLAG) (\<lambda>b. mem_encode_u64 b (of_bool v))"
| "mem_encode b (D_Date v) = res_bind (mem_put_flag b INT_FLAG) (\<lambda>b. mem_encode_i64 b (scast v))"
| "mem_encode b (D_Time v) = res_bind (mem_put_flag b INT_FLAG) (\<lambda>b. mem_encode_i64 b v)"
| "mem_encode b (D_Double v) = Err (MC_UnsupportedKind K_Double)"
| "mem_encode b (D_Float v) = Err (MC_UnsupportedKind K_Float)"

primrec mem_estimate :: "datum \<Rightarrow> nat" where
  "mem_estimate D_Null = 1"
| "mem_estimate (D_Timestamp v) = 9"
| "mem_estimate (D_Varbinary v) = mem_bytes_estimate v"
| "mem_estimate (D_String v) = mem_bytes_estimate v"
| "mem_estimate (D_UInt64 v) = 9"
| "mem_estimate (D_UInt32 v) = 9"
| "mem_estimate (D_UInt16 v) = 9"
| "mem_estimate (D_UInt8 v) = 9"
| "mem_estimate (D_Int64 v) = 9"
| "mem_estimate (D_Int32 v) = 9"
| "mem_estimate (D_Int16 v) = 9"
| "mem_estimate (D_Int8 v) = 9"
| "mem_estimate (D_Boolean v) = 9"
| "mem_estimate (D_Date v) = 9"
| "mem_estimate (D_Time v) = 9"
| "mem_estimate (D_Double v) = 1"
| "mem_estimate (D_Float v) = 1"

text \<open>
  \<open>decode_to\<close> writes into a datum whose variant says what to expect; \<open>k\<close> is its kind. The three
  helpers are the macros \<open>decode_u64_into!\<close>, \<open>decode_u64_into_bool!\<close> and \<open>decode_i64_into!\<close>, with
  the final cast as a function.
\<close>

definition mem_decode_u64_into :: "u8 list \<Rightarrow> (u64 \<Rightarrow> datum) \<Rightarrow> (mem_error, datum \<times> u8 list) result" where
  "mem_decode_u64_into buf c =
     res_bind (mem_ensure_flag buf UINT_FLAG) (\<lambda>buf.
     res_bind (mem_decode_u64 buf) (\<lambda>(data, rest). Ok (c data, rest)))"

definition mem_decode_i64_into :: "u8 list \<Rightarrow> (u64 \<Rightarrow> datum) \<Rightarrow> (mem_error, datum \<times> u8 list) result" where
  "mem_decode_i64_into buf c =
     res_bind (mem_ensure_flag buf INT_FLAG) (\<lambda>buf.
     res_bind (mem_decode_i64 buf) (\<lambda>(data, rest). Ok (c data, rest)))"

definition mem_decode_bytes_into :: "u8 list \<Rightarrow> (u8 list \<Rightarrow> datum) \<Rightarrow> (mem_error, datum \<times> u8 list) result" where
  "mem_decode_bytes_into buf c =
     res_bind (mem_ensure_flag buf BYTES_FLAG) (\<lambda>buf.
     res_bind (mem_decode_bytes buf) (\<lambda>(data, rest). Ok (c data, rest)))"

primrec mem_decode :: "datum_kind \<Rightarrow> u8 list \<Rightarrow> (mem_error, datum \<times> u8 list) result" where
  "mem_decode K_Null buf = res_bind (mem_ensure_flag buf NULL_FLAG) (\<lambda>rest. Ok (D_Null, rest))"
| "mem_decode K_Timestamp buf = mem_decode_i64_into buf D_Timestamp"
| "mem_decode K_Varbinary buf = mem_decode_bytes_into buf D_Varbinary"
| "mem_decode K_String buf = mem_decode_bytes_into buf D_String"
| "mem_decode K_UInt64 buf = mem_decode_u64_into buf D_UInt64"
| "mem_decode K_UInt32 buf = mem_decode_u64_into buf (\<lambda>u. D_UInt32 (ucast u))"
| "mem_decode K_UInt16 buf = mem_decode_u64_into buf (\<lambda>u. D_UInt16 (ucast u))"
| "mem_decode K_UInt8 buf = mem_decode_u64_into buf (\<lambda>u. D_UInt8 (ucast u))"
| "mem_decode K_Int64 buf = mem_decode_i64_into buf D_Int64"
| "mem_decode K_Int32 buf = mem_decode_i64_into buf (\<lambda>u. D_Int32 (ucast u))"
| "mem_decode K_Int16 buf = mem_decode_i64_into buf (\<lambda>u. D_Int16 (ucast u))"
| "mem_decode K_Int8 buf = mem_decode_i64_into buf (\<lambda>u. D_Int8 (ucast u))"
| "mem_decode K_Boolean buf = mem_decode_u64_into buf (\<lambda>u. D_Boolean (u \<noteq> 0))"
| "mem_decode K_Date buf = mem_decode_i64_into buf (\<lambda>u. D_Date (ucast u))"
| "mem_decode K_Time buf = mem_decode_i64_into buf D_Time"
| "mem_decode K_Double buf = Err (MC_UnsupportedKind K_Double)"
| "mem_decode K_Float buf = Err (MC_UnsupportedKind K_Float)"

section \<open>What is written\<close>

text \<open>A group holds eight bytes, padded with zeros, and its marker counts the padding.\<close>

definition mem_group :: "u8 list \<Rightarrow> u8 list" where
  "mem_group v = take 8 v @ replicate (8 - length v) 0"

definition mem_marker :: "u8 list \<Rightarrow> u8" where
  "mem_marker v = ENC_MARKER - of_nat (8 - length v)"

function mem_bytes_repr :: "u8 list \<Rightarrow> u8 list" where
  "mem_bytes_repr v =
     mem_group v @ mem_marker v # (if 8 \<le> length v then mem_bytes_repr (drop 8 v) else [])"
  by pat_completeness auto
termination
  by (relation "measure length") auto

declare mem_bytes_repr.simps [simp del]

lemma length_mem_group [simp]: "length (mem_group v) = 8"
  by (simp add: mem_group_def)

lemma mem_marker_full: "8 \<le> length v \<Longrightarrow> mem_marker v = ENC_MARKER"
  by (simp add: mem_marker_def)

lemma of_nat_small_u8: "n \<le> 8 \<Longrightarrow> unat (of_nat n :: u8) = n"
  by (simp add: unat_of_nat_u8)

lemma marker_padding: "unat (ENC_MARKER - mem_marker v) = 8 - length v"
  by (simp add: mem_marker_def of_nat_small_u8)

lemma length_mem_bytes_repr: "length (mem_bytes_repr v) = mem_bytes_estimate v"
proof (induction v rule: mem_bytes_repr.induct)
  case (1 v)
  show ?case
  proof (cases "8 \<le> length v")
    case True
    with 1 have "length (mem_bytes_repr (drop 8 v)) = ((length v - 8) div 8 + 1) * 9"
      by (simp add: mem_bytes_estimate_def)
    moreover have "(length v - 8) div 8 + 1 = length v div 8"
      using True by (simp add: le_div_geq)
    ultimately show ?thesis
      using True by (subst mem_bytes_repr.simps) (simp add: mem_bytes_estimate_def)
  next
    case False
    then show ?thesis by (subst mem_bytes_repr.simps) (simp add: mem_bytes_estimate_def)
  qed
qed

lemma mem_encode_group_ok:
  assumes "idx \<le> length val" and "9 \<le> bm_remaining b"
  shows "mem_encode_group val idx b =
     Ok (bm_append b (mem_group (drop idx val) @ [mem_marker (drop idx val)]))"
  using assms by (simp add: mem_encode_group_def mem_group_def mem_marker_def Let_def)

lemma mem_encode_groups_ok:
  assumes "j \<le> length val div 8"
    and "length (mem_bytes_repr (drop (8 * j) val)) \<le> bm_remaining b"
  shows "res_fold (mem_encode_group val) (map ((*) 8) [j..<length val div 8 + 1]) b =
     Ok (bm_append b (mem_bytes_repr (drop (8 * j) val)))"
  using assms
proof (induction "length val div 8 - j" arbitrary: j b)
  case 0
  then have j: "j = length val div 8" by simp
  then have "\<not> 8 \<le> length val - 8 * j" by (simp add: minus_mult_div_eq_mod)
  then have r: "mem_bytes_repr (drop (8 * j) val) =
      mem_group (drop (8 * j) val) @ [mem_marker (drop (8 * j) val)]"
    by (simp add: mem_bytes_repr.simps [of "drop (8 * j) val"])
  have "8 * j \<le> length val" using j by simp
  then have "mem_encode_group val (8 * j) b = Ok (bm_append b (mem_bytes_repr (drop (8 * j) val)))"
    using "0.prems"(2) r by (simp add: mem_encode_group_ok)
  then show ?case by (simp add: j)
next
  case (Suc n)
  then have j: "Suc j \<le> length val div 8" by simp
  then have "8 * Suc j \<le> 8 * (length val div 8)" by simp
  also have "\<dots> \<le> length val" by simp
  finally have full: "8 \<le> length val - 8 * j" by simp
  have "mem_bytes_repr (drop (8 * j) val) = mem_group (drop (8 * j) val) @
      mem_marker (drop (8 * j) val) # mem_bytes_repr (drop (8 * Suc j) val)"
    using full by (simp add: mem_bytes_repr.simps [of "drop (8 * j) val"] add.commute)
  moreover have "[j..<length val div 8 + 1] = j # [Suc j..<length val div 8 + 1]"
    using j by (simp add: upt_rec)
  ultimately show ?case
    using Suc.hyps(1) [of "Suc j" "bm_append b (mem_group (drop (8 * j) val) @ [mem_marker (drop (8 * j) val)])"]
      Suc.hyps(2) Suc.prems j full
    by (simp add: mem_encode_group_ok del: upt_Suc)
qed

lemma mem_decode_loop_group:
  assumes "length g = 8" and "unat (ENC_MARKER - m) \<le> 8"
  shows "mem_decode_loop acc (g @ m # tail) =
     (let pad = unat (ENC_MARKER - m)
      in if pad = 0 then mem_decode_loop (acc @ g) tail
         else if \<forall>v \<in> set (drop (8 - pad) g). v = 0 then Ok (acc @ take (8 - pad) g, tail)
         else Err (MC_DecodeValuePadding (g @ [m])))"
  using assms by (subst mem_decode_loop.simps) (simp add: Let_def nth_append)

lemma mem_decode_loop_repr:
  "mem_decode_loop acc (mem_bytes_repr v @ rest) = Ok (acc @ v, rest)"
proof (induction v arbitrary: acc rule: mem_bytes_repr.induct)
  case (1 v)
  let ?tl = "if 8 \<le> length v then mem_bytes_repr (drop 8 v) else []"
  have buf: "mem_bytes_repr v @ rest = mem_group v @ mem_marker v # ?tl @ rest"
    by (subst mem_bytes_repr.simps) simp
  show ?case
  proof (cases "8 \<le> length v")
    case True
    then have "mem_decode_loop acc (mem_bytes_repr v @ rest) =
        mem_decode_loop (acc @ take 8 v) (mem_bytes_repr (drop 8 v) @ rest)"
      unfolding buf by (simp add: mem_decode_loop_group marker_padding) (simp add: mem_group_def)
    with "1.IH" [OF True, of "acc @ take 8 v"] show ?thesis by simp
  next
    case False
    then show ?thesis
      unfolding buf by (simp add: mem_decode_loop_group marker_padding) (simp add: mem_group_def)
  qed
qed

interpretation mem_bytes: codec mem_encode_bytes mem_decode_bytes mem_bytes_repr "\<lambda>_. True"
proof unfold_locales
  fix v :: "u8 list" and b :: buf_mut
  assume "length (mem_bytes_repr v) \<le> bm_remaining b"
  then show "mem_encode_bytes b v = Ok (bm_append b (mem_bytes_repr v))"
    using mem_encode_groups_ok [of 0 v b] by (simp add: mem_encode_bytes_def group_starts_def)
next
  fix v rest :: "u8 list"
  show "mem_decode_bytes (mem_bytes_repr v @ rest) = Ok (v, rest)"
    by (simp add: mem_decode_bytes_def mem_decode_loop_repr)
qed

section \<open>The order of encodings\<close>

lemma zeros_le: "replicate (length xs) 0 \<le> xs" for xs :: "u8 list"
proof (induction xs)
  case (Cons x xs)
  then show ?case by (cases "x = 0") (auto simp: word_neq_0_conv)
qed simp

lemma less_list_cases:
  fixes v w :: "u8 list"
  assumes "v < w"
  obtains (longer) x xs where "w = v @ x # xs"
  | (differ) u a b v' w' where "v = u @ a # v'" and "w = u @ b # w'" and "a < b"
  using assms by (auto simp: list_less_def lexord_def)

lemma unat_mem_marker: "unat (mem_marker v) = 255 - (8 - length v)"
proof -
  have "of_nat (8 - length v) \<le> ENC_MARKER"
    by (simp add: word_le_nat_alt of_nat_small_u8)
  then show ?thesis by (simp only: mem_marker_def unat_sub) (simp add: of_nat_small_u8)
qed

lemma mem_marker_less:
  assumes "length v < 8" and "length v < length w"
  shows "mem_marker v < mem_marker w"
  using assms by (simp add: word_less_nat_alt unat_mem_marker)

text \<open>
  A byte string below another has a smaller first group, or both have the same full first group
  and the rests decide.
\<close>

lemma mem_group_less:
  assumes "v < w"
  shows "mem_group v @ [mem_marker v] < mem_group w @ [mem_marker w] \<or>
    8 \<le> length v \<and> 8 \<le> length w \<and> take 8 v = take 8 w \<and> drop 8 v < drop 8 w"
  using assms
proof (cases rule: less_list_cases)
  case (longer x xs)
  show ?thesis
  proof (cases "8 \<le> length v")
    case True
    with longer show ?thesis using less_append_same [of "drop 8 v" "[]" "x # xs"] by simp
  next
    case False
    define y where "y = take (8 - length v) (x # xs) @ replicate (8 - length w) 0"
    have y: "mem_group w = v @ y" "length y = 8 - length v"
      using False longer by (auto simp: mem_group_def y_def)
    have v: "mem_group v = v @ replicate (length y) 0"
      using False y by (simp add: mem_group_def)
    have "mem_marker v < mem_marker w"
      using False longer by (intro mem_marker_less) auto
    moreover from zeros_le [of y] have "replicate (length y) 0 < y \<or> replicate (length y) 0 = y"
      by (simp add: le_less)
    ultimately have "replicate (length y) 0 @ [mem_marker v] < y @ [mem_marker w]"
      by (auto intro: less_append_same_length simp: less_append_same)
    with v y show ?thesis by simp
  qed
next
  case (differ u a b v' w')
  show ?thesis
  proof (cases "8 \<le> length u")
    case True
    with differ assms show ?thesis by simp
  next
    case False
    then obtain r s where "mem_group v = u @ a # r" "mem_group w = u @ b # s"
      using differ by (simp add: mem_group_def take_Cons' )
    with differ(3) show ?thesis by simp
  qed
qed

lemma mem_bytes_repr_less: "v < w \<Longrightarrow> mem_bytes_repr v < mem_bytes_repr w"
proof (induction v arbitrary: w rule: mem_bytes_repr.induct)
  case (1 v)
  let ?tl = "\<lambda>v. if 8 \<le> length v then mem_bytes_repr (drop 8 v) else []"
  have eq: "mem_bytes_repr v = (mem_group v @ [mem_marker v]) @ ?tl v" for v
    by (subst mem_bytes_repr.simps) simp
  from mem_group_less [OF "1.prems"] show ?case
  proof
    assume "mem_group v @ [mem_marker v] < mem_group w @ [mem_marker w]"
    then show ?thesis unfolding eq [of v] eq [of w] by (rule less_append_same_length) simp
  next
    assume same: "8 \<le> length v \<and> 8 \<le> length w \<and> take 8 v = take 8 w \<and> drop 8 v < drop 8 w"
    then have "mem_group v = mem_group w" "mem_marker v = mem_marker w"
      by (simp_all add: mem_group_def mem_marker_full)
    with same "1.IH" [of "drop 8 w"] show ?thesis
      unfolding eq [of v] eq [of w] by simp
  qed
qed

interpretation mem_bytes: ordered_codec mem_encode_bytes mem_decode_bytes mem_bytes_repr "\<lambda>_. True" "(<)"
  by unfold_locales (auto intro: mem_bytes_repr_less)

text \<open>Flipping the sign bit turns the signed order into the unsigned one.\<close>

lemma uint_cmp_uint: "uint (encode_int_to_cmp_uint v) = sint v + 2 ^ 63"
proof -
  have "uint (v XOR SIGN_MASK) = flip_bit 63 (uint v)"
    by (simp add: unsigned_xor_eq flip_bit_eq_xor)
  also have "\<dots> = uint v + (if bit (uint v) 63 then - (2 ^ 63) else 2 ^ 63)"
    by (simp add: flip_bit_eq_if set_bit_eq unset_bit_eq)
  also have "\<dots> = sint v + 2 ^ 63"
    using unsigned_less [of v, where ?'a = int]
    by (simp add: sint_uint signed_take_bit_eq_take_bit_minus take_bit_int_eq_self)
  finally show ?thesis by (simp add: encode_int_to_cmp_uint_def)
qed

lemma encode_int_less: "encode_int_to_cmp_uint v < encode_int_to_cmp_uint w \<longleftrightarrow> sint v < sint w"
  by (simp add: word_less_def uint_cmp_uint)

lemma decode_encode_int [simp]: "decode_cmp_uint_to_int (encode_int_to_cmp_uint v) = v"
  by (simp add: decode_cmp_uint_to_int_def encode_int_to_cmp_uint_def xor.assoc)

definition mem_i64_repr :: "u64 \<Rightarrow> u8 list" where
  "mem_i64_repr v = u64_to_be (encode_int_to_cmp_uint v)"

lemma length_mem_i64_repr [simp]: "length (mem_i64_repr v) = 8"
  by (simp add: mem_i64_repr_def)

text \<open>Widening to 64 bits keeps values and order, and narrowing undoes it.\<close>

lemma sint_less_total: "v \<noteq> w \<Longrightarrow> \<not> sint w < sint v \<Longrightarrow> sint v < sint w" for v w :: "'a::len word"
proof -
  assume "v \<noteq> w" and "\<not> sint w < sint v"
  moreover from this(1) have "sint v \<noteq> sint w" by (auto intro: signed_word_eqI)
  ultimately show ?thesis by simp
qed

lemma ucast_widen [simp]:
  "ucast (ucast v :: u64) = (v :: u32)" "ucast (ucast v' :: u64) = (v' :: u16)"
  "ucast (ucast v'' :: u64) = (v'' :: u8)"
  by (rule bit_word_eqI; simp add: bit_simps)+

lemma scast_widen [simp]:
  "ucast (scast v :: u64) = (v :: u32)" "ucast (scast v' :: u64) = (v' :: u16)"
  "ucast (scast v'' :: u64) = (v'' :: u8)"
  by (rule bit_word_eqI; simp add: bit_simps)+

lemma unat_widen:
  "unat (ucast (v :: u32) :: u64) = unat v" "unat (ucast (v' :: u16) :: u64) = unat v'"
  "unat (ucast (v'' :: u8) :: u64) = unat v''"
  using unsigned_less [of v, where ?'a = nat] unsigned_less [of v', where ?'a = nat]
    unsigned_less [of v'', where ?'a = nat]
  by (simp_all add: unsigned_ucast_eq take_bit_nat_eq_self)

lemma ucast_less_u64 [simp]:
  "(ucast (v :: u32) :: u64) < ucast w \<longleftrightarrow> v < w" "(ucast (v' :: u16) :: u64) < ucast w' \<longleftrightarrow> v' < w'"
  "(ucast (v'' :: u8) :: u64) < ucast w'' \<longleftrightarrow> v'' < w''"
  by (simp_all only: word_less_nat_alt unat_widen)

lemma sint_scast_u64 [simp]:
  "sint (scast (v :: u32) :: u64) = sint v" "sint (scast (v' :: u16) :: u64) = sint v'"
  "sint (scast (v'' :: u8) :: u64) = sint v''"
  by (rule sint_up_scast; simp add: is_up)+

interpretation mem_u64: ordered_codec mem_encode_u64 mem_decode_u64 u64_to_be "\<lambda>_. True" "(<)"
  by unfold_locales (auto simp: mem_encode_u64_def mem_decode_u64_def u64_to_be_less)

interpretation mem_i64: ordered_codec mem_encode_i64 mem_decode_i64 mem_i64_repr "\<lambda>_. True"
    "\<lambda>v w. sint v < sint w"
  by unfold_locales (auto simp: mem_encode_i64_def mem_decode_i64_def mem_i64_repr_def encode_int_less
    u64_to_be_less intro: sint_less_total)

section \<open>Values\<close>

primrec mem_repr :: "datum \<Rightarrow> u8 list" where
  "mem_repr D_Null = [NULL_FLAG]"
| "mem_repr (D_Timestamp v) = INT_FLAG # mem_i64_repr v"
| "mem_repr (D_Varbinary v) = BYTES_FLAG # mem_bytes_repr v"
| "mem_repr (D_String v) = BYTES_FLAG # mem_bytes_repr v"
| "mem_repr (D_UInt64 v) = UINT_FLAG # u64_to_be v"
| "mem_repr (D_UInt32 v) = UINT_FLAG # u64_to_be (ucast v)"
| "mem_repr (D_UInt16 v) = UINT_FLAG # u64_to_be (ucast v)"
| "mem_repr (D_UInt8 v) = UINT_FLAG # u64_to_be (ucast v)"
| "mem_repr (D_Int64 v) = INT_FLAG # mem_i64_repr v"
| "mem_repr (D_Int32 v) = INT_FLAG # mem_i64_repr (scast v)"
| "mem_repr (D_Int16 v) = INT_FLAG # mem_i64_repr (scast v)"
| "mem_repr (D_Int8 v) = INT_FLAG # mem_i64_repr (scast v)"
| "mem_repr (D_Boolean v) = UINT_FLAG # u64_to_be (of_bool v)"
| "mem_repr (D_Date v) = INT_FLAG # mem_i64_repr (scast v)"
| "mem_repr (D_Time v) = INT_FLAG # mem_i64_repr v"
| "mem_repr (D_Double v) = []"
| "mem_repr (D_Float v) = []"

definition mem_valid :: "datum_kind \<Rightarrow> datum \<Rightarrow> bool" where
  "mem_valid k d \<longleftrightarrow> kind d = k \<and> k \<noteq> K_Double \<and> k \<noteq> K_Float"

lemma ensure_flag_ok [simp]: "mem_ensure_flag (f # rest) f = Ok rest"
  by (simp add: mem_ensure_flag_def)

lemma mem_put_flag_ok [simp]: "0 < bm_remaining b \<Longrightarrow> mem_put_flag b f = Ok (bm_append b [f])"
  by (simp add: mem_put_flag_def)

lemmas mem_into_defs = mem_decode_u64_into_def mem_decode_i64_into_def mem_decode_bytes_into_def

interpretation mem: codec mem_encode "mem_decode k" mem_repr "mem_valid k" for k
proof unfold_locales
  fix d and b :: buf_mut
  assume "mem_valid k d" and "length (mem_repr d) \<le> bm_remaining b"
  then show "mem_encode b d = Ok (bm_append b (mem_repr d))"
    by (cases d) (auto simp: mem_valid_def mem_u64.enc_ok mem_i64.enc_ok mem_bytes.enc_ok)
next
  fix d and rest :: "u8 list"
  assume "mem_valid k d"
  then show "mem_decode k (mem_repr d @ rest) = Ok (d, rest)"
    by (cases d) (auto simp: mem_valid_def mem_into_defs mem_u64.dec_ok mem_i64.dec_ok mem_bytes.dec_ok)
qed

text \<open>A key column of kind \<open>k\<close> holds values of that kind, and nulls when it is nullable.\<close>

definition key_valid :: "datum_kind \<Rightarrow> datum \<Rightarrow> bool" where
  "key_valid k d \<longleftrightarrow> is_key_kind k \<and> (d = D_Null \<or> kind d = k)"

lemma key_valid_mem_valid: "key_valid k d \<Longrightarrow> mem_valid (kind d) d"
  by (cases d) (auto simp: key_valid_def mem_valid_def)

lemma of_bool_less_u64: "(of_bool v :: u64) < of_bool w \<longleftrightarrow> v < w"
  by (cases v; cases w) simp_all

lemma mem_repr_less:
  assumes "kind d = kind e" and "is_key_kind (kind d)" and "datum_lt d e"
  shows "mem_repr d < mem_repr e"
  using assms by (cases d; cases e)
    (simp_all add: datum_lt_def u64_to_be_less mem_i64.repr_less mem_bytes_repr_less of_bool_less_u64)

lemma datum_lt_total':
  "v \<noteq> w \<Longrightarrow> kind w = kind v \<Longrightarrow> is_key_kind (kind v) \<Longrightarrow> \<not> datum_lt w v \<Longrightarrow> datum_lt v w"
  using datum_lt_total [of v w] by simp

interpretation mem_key: ordered_codec mem_encode "mem_decode k" mem_repr
    "\<lambda>d. mem_valid k d \<and> is_key_kind k" datum_lt for k
  by unfold_locales (auto simp: mem.enc_ok mem.dec_ok mem_valid_def intro: mem_repr_less datum_lt_total')

lemma mem_repr_non_null: "key_valid k d \<Longrightarrow> d \<noteq> D_Null \<Longrightarrow> \<exists>f p. mem_repr d = f # p \<and> NULL_FLAG < f"
  by (cases d) (auto simp: key_valid_def)

lemma mem_repr_append_less_iff:
  assumes "key_valid k d" and "key_valid k e"
  shows "mem_repr d @ r < mem_repr e @ s \<longleftrightarrow> datum_lt d e \<or> d = e \<and> r < s"
proof -
  consider "d = D_Null" | "d \<noteq> D_Null" "e = D_Null" | "d \<noteq> D_Null" "e \<noteq> D_Null" by blast
  then show ?thesis
  proof cases
    case 1
    then show ?thesis using mem_repr_non_null [OF assms(2)] by (cases "e = D_Null") auto
  next
    case 2
    then show ?thesis using mem_repr_non_null [OF assms(1)] by auto
  next
    case 3
    with assms have "mem_valid k d \<and> is_key_kind k" and "mem_valid k e \<and> is_key_kind k"
      by (auto simp: key_valid_def mem_valid_def)
    then show ?thesis by (rule mem_key.repr_append_less_iff)
  qed
qed

lemma length_mem_repr_le: "length (mem_repr d) \<le> mem_estimate d + 1"
  by (cases d) (simp_all add: length_mem_bytes_repr)

section \<open>Properties\<close>

text \<open>
  C1. Encodings of key values compare as the values do: for two values of a key column (nulls
  included), whatever bytes follow each encoding, the byte-wise order is the order of the values,
  and only for equal values do the following bytes decide.
\<close>

theorem mem_encode_order:
  assumes "key_valid k d" and "key_valid k e" and "bm_data b = []" and "bm_data c = []"
    and "mem_estimate d + 1 \<le> bm_remaining b" and "mem_estimate e + 1 \<le> bm_remaining c"
  shows "\<exists>b' c'. mem_encode b d = Ok b' \<and> mem_encode c e = Ok c' \<and>
    (\<forall>r s. bm_data b' @ r < bm_data c' @ s \<longleftrightarrow> datum_lt d e \<or> d = e \<and> r < s)"
proof -
  have "mem_encode b d = Ok (bm_append b (mem_repr d))"
    using key_valid_mem_valid [OF assms(1)] le_trans [OF length_mem_repr_le assms(5)] by (rule mem.enc_ok)
  moreover have "mem_encode c e = Ok (bm_append c (mem_repr e))"
    using key_valid_mem_valid [OF assms(2)] le_trans [OF length_mem_repr_le assms(6)] by (rule mem.enc_ok)
  ultimately show ?thesis
    using assms(3,4) mem_repr_append_less_iff [OF assms(1,2)] by simp
qed

theorem mem_encode_order_witness:
  "\<exists>b' c'. mem_encode \<lparr>bm_data = [], bm_remaining = 100\<rparr> (D_String [97]) = Ok b' \<and>
     mem_encode \<lparr>bm_data = [], bm_remaining = 100\<rparr> (D_String [97, 0]) = Ok c' \<and>
     (\<forall>r s. bm_data b' @ r < bm_data c' @ s \<longleftrightarrow>
       datum_lt (D_String [97]) (D_String [97, 0]) \<or> D_String [97] = D_String [97, 0] \<and> r < s)"
  by (rule mem_encode_order [where k = K_String]) (simp_all add: key_valid_def mem_bytes_estimate_def)

text \<open>
  C2. The memcomparable format round-trips: every value but the floats is encoded into the room of
  its estimate and one byte, and decoding at its kind returns it and leaves what follows.
\<close>

theorem mem_round_trip:
  assumes "kind d \<noteq> K_Double" and "kind d \<noteq> K_Float" and "bm_data b = []"
    and "mem_estimate d + 1 \<le> bm_remaining b"
  shows "\<exists>b'. mem_encode b d = Ok b' \<and> mem_decode (kind d) (bm_data b' @ rest) = Ok (d, rest)"
proof (rule mem.round_trip)
  show "mem_valid (kind d) d" using assms by (simp add: mem_valid_def)
  show "length (mem_repr d) \<le> bm_remaining b" by (rule le_trans [OF length_mem_repr_le assms(4)])
  show "bm_data b = []" by (rule assms(3))
qed

theorem mem_round_trip_witness:
  "\<exists>b'. mem_encode \<lparr>bm_data = [], bm_remaining = 10\<rparr> (D_Int16 (- 2)) = Ok b' \<and>
     mem_decode (kind (D_Int16 (- 2))) (bm_data b' @ [1, 2]) = Ok (D_Int16 (- 2), [1, 2])"
  by (rule mem_round_trip) simp_all

end
