(* ===== verification/Compact.thy ===== *)
theory Compact
  imports Varint Memcomparable
begin

unbundle bit_operations_syntax

text \<open>
  The compact format, \<^verbatim>\<open>common_util/src/codec/compact\<close>, in which rows go to the write-ahead log:
  a flag byte, then a varint, an IEEE pattern, or a length and bytes. Any value may be null: the
  null flag is read before the expected kind is looked at.
\<close>

section \<open>Errors and flags\<close>

datatype compact_error =
  CP_EncodeKey bytes_error
| CP_EncodeValue bytes_error
| CP_EncodeVarint varint_error
| CP_DecodeVarint varint_error
| CP_DecodeKey bytes_error
| CP_DecodeEmptyValue
| CP_InvalidKeyFlag u8 u8
| CP_DecodeValue bytes_error
| CP_SkipDecodedValue bytes_error
| CP_TryIntoUsize

definition maybe_read_null :: "u8 list \<Rightarrow> (compact_error, u8 option \<times> u8 list) result" where
  "maybe_read_null buf =
     res_bind (res_ctx CP_DecodeKey (try_get_u8 buf)) (\<lambda>(actual, rest).
       Ok (if actual = NULL_FLAG then None else Some actual, rest))"

definition compact_ensure_flag :: "u8 \<Rightarrow> u8 \<Rightarrow> (compact_error, unit) result" where
  "compact_ensure_flag expect actual =
     (if expect = actual then Ok () else Err (CP_InvalidKeyFlag expect actual))"

section \<open>Byte strings, numbers, floats\<close>

definition compact_encode_bytes :: "buf_mut \<Rightarrow> u8 list \<Rightarrow> (compact_error, buf_mut) result" where
  "compact_encode_bytes b val =
     res_bind (res_ctx CP_EncodeVarint (encode_varint b (of_nat (length val)))) (\<lambda>b.
       res_ctx CP_EncodeValue (try_put b val))"

definition compact_decode_bytes :: "u8 list \<Rightarrow> (compact_error, u8 list \<times> u8 list) result" where
  "compact_decode_bytes buf =
     res_bind (res_ctx CP_DecodeVarint (decode_varint buf)) (\<lambda>(n, buf).
       if sint n < 0 then Err CP_TryIntoUsize
       else let v = nat (sint n)
            in if v \<le> length buf
               then res_bind (res_ctx CP_SkipDecodedValue (try_advance buf v)) (\<lambda>rest. Ok (take v buf, rest))
               else Err CP_DecodeEmptyValue)"

definition compact_encode_i64 :: "buf_mut \<Rightarrow> u64 \<Rightarrow> (compact_error, buf_mut) result" where
  "compact_encode_i64 b v = res_ctx CP_EncodeVarint (encode_varint b v)"

definition compact_decode_i64 :: "u8 list \<Rightarrow> (compact_error, u64 \<times> u8 list) result" where
  "compact_decode_i64 buf = res_ctx CP_DecodeVarint (decode_varint buf)"

definition compact_encode_u64 :: "buf_mut \<Rightarrow> u64 \<Rightarrow> (compact_error, buf_mut) result" where
  "compact_encode_u64 b v = res_ctx CP_EncodeVarint (encode_uvarint b v)"

definition compact_decode_u64 :: "u8 list \<Rightarrow> (compact_error, u64 \<times> u8 list) result" where
  "compact_decode_u64 buf = res_ctx CP_DecodeVarint (decode_uvarint buf)"

text \<open>\<open>try_put_f64\<close> and \<open>try_put_f32\<close> put the big-endian bytes of the IEEE pattern.\<close>

definition compact_encode_f64 :: "buf_mut \<Rightarrow> u64 \<Rightarrow> (compact_error, buf_mut) result" where
  "compact_encode_f64 b v = res_ctx CP_EncodeValue (try_put_u64 b v)"

definition compact_decode_f64 :: "u8 list \<Rightarrow> (compact_error, u64 \<times> u8 list) result" where
  "compact_decode_f64 buf = res_ctx CP_DecodeValue (try_get_u64 buf)"

definition compact_encode_f32 :: "buf_mut \<Rightarrow> u32 \<Rightarrow> (compact_error, buf_mut) result" where
  "compact_encode_f32 b v = res_ctx CP_EncodeValue (try_put_u32 b v)"

definition compact_decode_f32 :: "u8 list \<Rightarrow> (compact_error, u32 \<times> u8 list) result" where
  "compact_decode_f32 buf = res_ctx CP_DecodeValue (try_get_u32 buf)"

section \<open>Values\<close>

definition compact_put_flag :: "buf_mut \<Rightarrow> u8 \<Rightarrow> (compact_error, buf_mut) result" where
  "compact_put_flag b flag = res_ctx CP_EncodeKey (try_put_u8 b flag)"

primrec compact_encode :: "buf_mut \<Rightarrow> datum \<Rightarrow> (compact_error, buf_mut) result" where
  "compact_encode b D_Null = compact_put_flag b NULL_FLAG"
| "compact_encode b (D_Timestamp v) = res_bind (compact_put_flag b VARINT_FLAG) (\<lambda>b. compact_encode_i64 b v)"
| "compact_encode b (D_Double v) = res_bind (compact_put_flag b FLOAT_FLAG) (\<lambda>b. compact_encode_f64 b v)"
| "compact_encode b (D_Float v) = res_bind (compact_put_flag b FLOAT_FLAG) (\<lambda>b. compact_encode_f32 b v)"
| "compact_encode b (D_Varbinary v) = res_bind (compact_put_flag b COMPACT_BYTES_FLAG) (\<lambda>b. compact_encode_bytes b v)"
| "compact_encode b (D_String v) = res_bind (compact_put_flag b COMPACT_BYTES_FLAG) (\<lambda>b. compact_encode_bytes b v)"
| "compact_encode b (D_UInt64 v) = res_bind (compact_put_flag b UVARINT_FLAG) (\<lambda>b. compact_encode_u64 b v)"
| "compact_encode b (D_UInt32 v) = res_bind (compact_put_flag b UVARINT_FLAG) (\<lambda>b. compact_encode_u64 b (ucast v))"
| "compact_encode b (D_UInt16 v) = res_bind (compact_put_flag b UVARINT_FLAG) (\<lambda>b. compact_encode_u64 b (ucast v))"
| "compact_encode b (D_UInt8 v) = res_bind (compact_put_flag b UVARINT_FLAG) (\<lambda>b. compact_encode_u64 b (ucast v))"
| "compact_encode b (D_Int64 v) = res_bind (compact_put_flag b VARINT_FLAG) (\<lambda>b. compact_encode_i64 b v)"
| "compact_encode b (D_Int32 v) = res_bind (compact_put_flag b VARINT_FLAG) (\<lambda>b. compact_encode_i64 b (scast v))"
| "compact_encode b (D_Int16 v) = res_bind (compact_put_flag b VARINT_FLAG) (\<lambda>b. compact_encode_i64 b (scast v))"
| "compact_encode b (D_Int8 v) = res_bind (compact_put_flag b VARINT_FLAG) (\<lambda>b. compact_encode_i64 b (scast v))"
| "compact_encode b (D_Boolean v) = res_bind (compact_put_flag b UVARINT_FLAG) (\<lambda>b. compact_encode_u64 b (of_bool v))"
| "compact_encode b (D_Date v) = res_bind (compact_put_flag b VARINT_FLAG) (\<lambda>b. compact_encode_i64 b (scast v))"
| "compact_encode b (D_Time v) = res_bind (compact_put_flag b VARINT_FLAG) (\<lambda>b. compact_encode_i64 b v)"

primrec compact_estimate :: "datum \<Rightarrow> nat" where
  "compact_estimate D_Null = 1"
| "compact_estimate (D_Timestamp v) = 10"
| "compact_estimate (D_Double v) = 8"
| "compact_estimate (D_Float v) = 4"
| "compact_estimate (D_Varbinary v) = 10 + length v"
| "compact_estimate (D_String v) = 10 + length v"
| "compact_estimate (D_UInt64 v) = 10"
| "compact_estimate (D_UInt32 v) = 10"
| "compact_estimate (D_UInt16 v) = 10"
| "compact_estimate (D_UInt8 v) = 10"
| "compact_estimate (D_Int64 v) = 10"
| "compact_estimate (D_Int32 v) = 10"
| "compact_estimate (D_Int16 v) = 10"
| "compact_estimate (D_Int8 v) = 10"
| "compact_estimate (D_Boolean v) = 10"
| "compact_estimate (D_Date v) = 10"
| "compact_estimate (D_Time v) = 10"

text \<open>
  The arms of \<open>decode_to\<close> (and the macros \<open>decode_var_u64_into!\<close>, \<open>decode_var_u64_into_bool!\<close>,
  \<open>decode_var_i64_into!\<close>): check the flag, decode, cast.
\<close>

definition compact_into ::
    "u8 \<Rightarrow> u8 \<Rightarrow> (u8 list \<Rightarrow> (compact_error, 'v \<times> u8 list) result) \<Rightarrow> ('v \<Rightarrow> datum) \<Rightarrow> u8 list \<Rightarrow>
     (compact_error, datum \<times> u8 list) result" where
  "compact_into expect actual dec c buf =
     res_bind (compact_ensure_flag expect actual) (\<lambda>_.
     res_bind (dec buf) (\<lambda>(data, rest). Ok (c data, rest)))"

primrec compact_decode_value :: "datum_kind \<Rightarrow> u8 \<Rightarrow> u8 list \<Rightarrow> (compact_error, datum \<times> u8 list) result" where
  "compact_decode_value K_Null actual buf =
     res_bind (compact_ensure_flag NULL_FLAG actual) (\<lambda>_. Ok (D_Null, buf))"
| "compact_decode_value K_Timestamp actual buf = compact_into VARINT_FLAG actual compact_decode_i64 D_Timestamp buf"
| "compact_decode_value K_Double actual buf = compact_into FLOAT_FLAG actual compact_decode_f64 D_Double buf"
| "compact_decode_value K_Float actual buf = compact_into FLOAT_FLAG actual compact_decode_f32 D_Float buf"
| "compact_decode_value K_Varbinary actual buf = compact_into COMPACT_BYTES_FLAG actual compact_decode_bytes D_Varbinary buf"
| "compact_decode_value K_String actual buf = compact_into COMPACT_BYTES_FLAG actual compact_decode_bytes D_String buf"
| "compact_decode_value K_UInt64 actual buf = compact_into UVARINT_FLAG actual compact_decode_u64 D_UInt64 buf"
| "compact_decode_value K_UInt32 actual buf = compact_into UVARINT_FLAG actual compact_decode_u64 (\<lambda>u. D_UInt32 (ucast u)) buf"
| "compact_decode_value K_UInt16 actual buf = compact_into UVARINT_FLAG actual compact_decode_u64 (\<lambda>u. D_UInt16 (ucast u)) buf"
| "compact_decode_value K_UInt8 actual buf = compact_into UVARINT_FLAG actual compact_decode_u64 (\<lambda>u. D_UInt8 (ucast u)) buf"
| "compact_decode_value K_Int64 actual buf = compact_into VARINT_FLAG actual compact_decode_i64 D_Int64 buf"
| "compact_decode_value K_Int32 actual buf = compact_into VARINT_FLAG actual compact_decode_i64 (\<lambda>u. D_Int32 (ucast u)) buf"
| "compact_decode_value K_Int16 actual buf = compact_into VARINT_FLAG actual compact_decode_i64 (\<lambda>u. D_Int16 (ucast u)) buf"
| "compact_decode_value K_Int8 actual buf = compact_into VARINT_FLAG actual compact_decode_i64 (\<lambda>u. D_Int8 (ucast u)) buf"
| "compact_decode_value K_Boolean actual buf =
     compact_into UVARINT_FLAG actual compact_decode_u64 (\<lambda>u. D_Boolean (u \<noteq> 0)) buf"
| "compact_decode_value K_Date actual buf = compact_into VARINT_FLAG actual compact_decode_i64 (\<lambda>u. D_Date (ucast u)) buf"
| "compact_decode_value K_Time actual buf = compact_into VARINT_FLAG actual compact_decode_i64 D_Time buf"

definition compact_decode :: "datum_kind \<Rightarrow> u8 list \<Rightarrow> (compact_error, datum \<times> u8 list) result" where
  "compact_decode k buf =
     res_bind (maybe_read_null buf) (\<lambda>(flag, buf).
       case flag of None \<Rightarrow> Ok (D_Null, buf) | Some actual \<Rightarrow> compact_decode_value k actual buf)"

section \<open>What is written\<close>

definition compact_bytes_repr :: "u8 list \<Rightarrow> u8 list" where
  "compact_bytes_repr v = varint_repr (of_nat (length v)) @ v"

primrec compact_repr :: "datum \<Rightarrow> u8 list" where
  "compact_repr D_Null = [NULL_FLAG]"
| "compact_repr (D_Timestamp v) = VARINT_FLAG # varint_repr v"
| "compact_repr (D_Double v) = FLOAT_FLAG # u64_to_be v"
| "compact_repr (D_Float v) = FLOAT_FLAG # u32_to_be v"
| "compact_repr (D_Varbinary v) = COMPACT_BYTES_FLAG # compact_bytes_repr v"
| "compact_repr (D_String v) = COMPACT_BYTES_FLAG # compact_bytes_repr v"
| "compact_repr (D_UInt64 v) = UVARINT_FLAG # uvarint_repr v"
| "compact_repr (D_UInt32 v) = UVARINT_FLAG # uvarint_repr (ucast v)"
| "compact_repr (D_UInt16 v) = UVARINT_FLAG # uvarint_repr (ucast v)"
| "compact_repr (D_UInt8 v) = UVARINT_FLAG # uvarint_repr (ucast v)"
| "compact_repr (D_Int64 v) = VARINT_FLAG # varint_repr v"
| "compact_repr (D_Int32 v) = VARINT_FLAG # varint_repr (scast v)"
| "compact_repr (D_Int16 v) = VARINT_FLAG # varint_repr (scast v)"
| "compact_repr (D_Int8 v) = VARINT_FLAG # varint_repr (scast v)"
| "compact_repr (D_Boolean v) = UVARINT_FLAG # uvarint_repr (of_bool v)"
| "compact_repr (D_Date v) = VARINT_FLAG # varint_repr (scast v)"
| "compact_repr (D_Time v) = VARINT_FLAG # varint_repr v"

text \<open>A value of a column of kind \<open>k\<close>, whose length fits an \<open>i64\<close> as every Rust slice does.\<close>

definition compact_valid :: "datum_kind \<Rightarrow> datum \<Rightarrow> bool" where
  "compact_valid k d \<longleftrightarrow> (d = D_Null \<or> kind d = k) \<and> datum_size d < 2 ^ 63"

lemma sint_of_nat_u64: "n < 2 ^ 63 \<Longrightarrow> sint (of_nat n :: u64) = int n"
  by (simp add: signed_of_nat signed_take_bit_int_eq_self)

lemma compact_put_flag_ok [simp]: "0 < bm_remaining b \<Longrightarrow> compact_put_flag b f = Ok (bm_append b [f])"
  by (simp add: compact_put_flag_def)

interpretation compact_u64: codec compact_encode_u64 compact_decode_u64 uvarint_repr "\<lambda>_. True"
  by unfold_locales (simp_all add: compact_encode_u64_def compact_decode_u64_def uvarint.enc_ok uvarint.dec_ok)

interpretation compact_i64: codec compact_encode_i64 compact_decode_i64 varint_repr "\<lambda>_. True"
  by unfold_locales (simp_all add: compact_encode_i64_def compact_decode_i64_def varint.enc_ok varint.dec_ok)

interpretation compact_f64: codec compact_encode_f64 compact_decode_f64 u64_to_be "\<lambda>_. True"
  by unfold_locales (simp_all add: compact_encode_f64_def compact_decode_f64_def)

interpretation compact_f32: codec compact_encode_f32 compact_decode_f32 u32_to_be "\<lambda>_. True"
  by unfold_locales (simp_all add: compact_encode_f32_def compact_decode_f32_def)

interpretation compact_bytes: codec compact_encode_bytes compact_decode_bytes compact_bytes_repr
    "\<lambda>v. length v < 2 ^ 63"
  by unfold_locales (simp_all add: compact_encode_bytes_def compact_decode_bytes_def compact_bytes_repr_def
    varint.enc_ok varint.dec_ok sint_of_nat_u64 try_advance_def)

lemma compact_decode_Cons:
  "compact_decode k (f # buf) = (if f = NULL_FLAG then Ok (D_Null, buf) else compact_decode_value k f buf)"
  by (simp add: compact_decode_def maybe_read_null_def)

lemmas compact_enc_ok = compact_u64.enc_ok compact_i64.enc_ok compact_f64.enc_ok compact_f32.enc_ok
  compact_bytes.enc_ok
lemmas compact_dec_ok = compact_u64.dec_ok compact_i64.dec_ok compact_f64.dec_ok compact_f32.dec_ok
  compact_bytes.dec_ok

interpretation compact: codec compact_encode "compact_decode k" compact_repr "compact_valid k" for k
proof unfold_locales
  fix d and b :: buf_mut
  assume "compact_valid k d" and "length (compact_repr d) \<le> bm_remaining b"
  then show "compact_encode b d = Ok (bm_append b (compact_repr d))"
    by (cases d) (simp_all add: compact_valid_def compact_enc_ok)
next
  fix d and rest :: "u8 list"
  assume "compact_valid k d"
  then show "compact_decode k (compact_repr d @ rest) = Ok (d, rest)"
    by (cases d) (auto simp: compact_valid_def compact_decode_Cons compact_into_def compact_ensure_flag_def compact_dec_ok)
qed

lemma length_compact_repr_le: "length (compact_repr d) \<le> compact_estimate d + 1"
  by (cases d) (simp_all add: length_uvarint_repr length_varint_repr compact_bytes_repr_def)

section \<open>Properties\<close>

text \<open>
  C25. The compact format round-trips at the kind of the column: every value of the column, null
  included, is encoded into the room of its estimate and one byte, and decoding returns it and
  leaves what follows.
\<close>

theorem compact_round_trip:
  assumes "d = D_Null \<or> kind d = k" and "datum_size d < 2 ^ 63" and "bm_data b = []"
    and "compact_estimate d + 1 \<le> bm_remaining b"
  shows "\<exists>b'. compact_encode b d = Ok b' \<and> compact_decode k (bm_data b' @ rest) = Ok (d, rest)"
proof (rule compact.round_trip)
  show "compact_valid k d" using assms by (simp add: compact_valid_def)
  show "length (compact_repr d) \<le> bm_remaining b"
    by (rule le_trans [OF length_compact_repr_le assms(4)])
  show "bm_data b = []" by (rule assms(3))
qed

theorem compact_round_trip_witness:
  "\<exists>b'. compact_encode \<lparr>bm_data = [], bm_remaining = 14\<rparr> (D_String [104, 105]) = Ok b' \<and>
     compact_decode K_String (bm_data b' @ [9]) = Ok (D_String [104, 105], [9])"
  by (rule compact_round_trip) simp_all

end
