(* ===== verification/Row_Codec.thy ===== *)
theory Row_Codec
  imports Compact Schema
begin

unbundle bit_operations_syntax

text \<open>
  Rows in the write-ahead log and key successors, \<^verbatim>\<open>common_util/src/codec/row.rs\<close>. A row is
  constructed in the schema of the writer and encoded in the schema of the table.
\<close>

section \<open>Rows in the log\<close>

datatype row_codec_error =
  EncodeRowDatum compact_error
| DecodeRowDatum compact_error

text \<open>The bodies of the loops over the columns of the table.\<close>

definition wal_encode_column ::
    "index_in_writer \<Rightarrow> row \<Rightarrow> nat \<Rightarrow> buf_mut \<Rightarrow> (row_codec_error, buf_mut) result" where
  "wal_encode_column idx row index_in_table b =
     res_bind (column_index_in_writer idx index_in_table) (\<lambda>e.
       case e of
         Some writer_index \<Rightarrow>
           res_bind (index_res row writer_index) (\<lambda>d. res_ctx EncodeRowDatum (compact_encode b d))
       | None \<Rightarrow> res_ctx EncodeRowDatum (compact_encode b D_Null))"

definition wal_encode_row ::
    "schema \<Rightarrow> index_in_writer \<Rightarrow> buf_mut \<Rightarrow> row \<Rightarrow> (row_codec_error, buf_mut) result" where
  "wal_encode_row t idx b row = res_fold (wal_encode_column idx row) [0..<num_columns t] b"

definition wal_estimate_column ::
    "index_in_writer \<Rightarrow> row \<Rightarrow> nat \<Rightarrow> nat \<Rightarrow> (row_codec_error, nat) result" where
  "wal_estimate_column idx row index_in_table total_len =
     res_bind (column_index_in_writer idx index_in_table) (\<lambda>e.
       case e of
         Some writer_index \<Rightarrow>
           res_bind (index_res row writer_index) (\<lambda>d. Ok (total_len + compact_estimate d))
       | None \<Rightarrow> Ok (total_len + compact_estimate D_Null))"

definition wal_estimate_row :: "schema \<Rightarrow> index_in_writer \<Rightarrow> row \<Rightarrow> (row_codec_error, nat) result" where
  "wal_estimate_row t idx row = res_fold (wal_estimate_column idx row) [0..<num_columns t] 0"

definition wal_decode_column ::
    "schema \<Rightarrow> nat \<Rightarrow> row \<times> u8 list \<Rightarrow> (row_codec_error, row \<times> u8 list) result" where
  "wal_decode_column s idx = (\<lambda>(datums, buf).
     res_bind (schema_column s idx) (\<lambda>column.
     res_bind (res_ctx DecodeRowDatum (compact_decode (cs_data_type column) buf)) (\<lambda>(d, buf).
       Ok (datums @ [d], buf))))"

definition wal_decode_row :: "schema \<Rightarrow> u8 list \<Rightarrow> (row_codec_error, row \<times> u8 list) result" where
  "wal_decode_row s buf = res_fold (wal_decode_column s) [0..<num_columns s] ([], buf)"

text \<open>A new \<open>Vec<u8>\<close> can take \<open>isize::MAX\<close> bytes.\<close>

definition vec_new :: buf_mut where
  "vec_new = \<lparr>bm_data = [], bm_remaining = 2 ^ 63 - 1\<rparr>"

definition encode_row_group_for_wal ::
    "row list \<Rightarrow> schema \<Rightarrow> index_in_writer \<Rightarrow> u8 list list \<Rightarrow> (row_codec_error, u8 list list) result" where
  "encode_row_group_for_wal rows t idx encoded_rows =
     (case rows of
        [] \<Rightarrow> Ok encoded_rows
      | first_row # _ \<Rightarrow>
          res_bind (wal_estimate_row t idx first_row) (\<lambda>_.
            res_fold (\<lambda>row encoded.
              res_bind (wal_encode_row t idx vec_new row) (\<lambda>b. Ok (encoded @ [bm_data b])))
              rows encoded_rows))"

section \<open>The next prefix\<close>

text \<open>Adding to a \<open>u8\<close> panics on overflow; so does \<open>key.len() - 1\<close> on an empty key.\<close>

definition u8_inc :: "u8 \<Rightarrow> ('e, u8) result" where
  "u8_inc v = (if v = 0xFF then Panic else Ok (v + 1))"

text \<open>The loop, with \<open>idx + 1\<close> as a natural number.\<close>

fun key_prefix_loop :: "nat \<Rightarrow> u8 list \<Rightarrow> ('e, u8 list \<times> nat) result" where
  "key_prefix_loop 0 buf = Ok (buf, 0)"
| "key_prefix_loop (Suc i) buf =
     res_bind (index_res buf i) (\<lambda>v.
     res_bind (u8_inc v) (\<lambda>v'.
       if v' \<noteq> 0 then Ok (buf[i := v'], Suc i) else key_prefix_loop i (buf[i := v'])))"

definition key_prefix_next :: "u8 list \<Rightarrow> ('e, u8 list) result" where
  "key_prefix_next key =
     (if key = [] then Panic
      else res_bind (key_prefix_loop (length key) key) (\<lambda>(buf, n).
        if n = 0 then Ok (key @ [0]) else Ok buf))"

section \<open>Lemmas\<close>

definition wal_row_repr :: "row \<Rightarrow> u8 list" where
  "wal_row_repr row = concat (map compact_repr row)"

definition row_fits :: "index_in_writer \<Rightarrow> row \<Rightarrow> bool" where
  "row_fits idx row \<longleftrightarrow> (\<forall>j. Some j \<in> set idx \<longrightarrow> j < length row)"

lemma wal_encode_row_prefix:
  assumes "row_fits idx row" and "k \<le> length idx"
    and "\<forall>d \<in> set (table_row idx row). \<exists>q. compact_valid q d"
    and "length (wal_row_repr (take k (table_row idx row))) \<le> bm_remaining b"
  shows "res_fold (wal_encode_column idx row) [0..<k] b = Ok (bm_append b (wal_row_repr (take k (table_row idx row))))"
  using assms(2,4)
proof (induction k)
  case 0
  then show ?case by (simp add: wal_row_repr_def)
next
  case (Suc k)
  let ?d = "table_row idx row ! k"
  have k: "k < length idx" "k < length (table_row idx row)" using Suc.prems by (simp_all add: table_row_def)
  have take: "take (Suc k) (table_row idx row) = take k (table_row idx row) @ [?d]"
    using k(2) by (rule take_Suc_conv_app_nth)
  obtain q where "compact_valid q ?d" using assms(3) k(2) nth_mem by blast
  then have enc: "compact_encode b' ?d = Ok (bm_append b' (compact_repr ?d))"
    if "length (compact_repr ?d) \<le> bm_remaining b'" for b' using that by (rule compact.enc_ok)
  have d: "?d = (case idx ! k of Some j \<Rightarrow> row ! j | None \<Rightarrow> D_Null)" using k(1) by (simp add: table_row_def)
  have j: "j < length row" if "idx ! k = Some j" for j
    using assms(1) k(1) that unfolding row_fits_def by (metis nth_mem)
  show ?case
    using Suc k(1) j enc unfolding take d
    by (auto simp: res_fold_append wal_encode_column_def column_index_in_writer_def index_res_def wal_row_repr_def
      split: option.splits)
qed

lemma wal_estimate_row_Ok:
  assumes "row_fits idx row" and "length idx = num_columns t"
  shows "\<exists>n. wal_estimate_row t idx row = Ok n"
proof -
  have "\<exists>n. res_fold (wal_estimate_column idx row) [0..<k] 0 = Ok n"
    if "k \<le> length idx" for k
    using that
  proof (induction k)
    case (Suc k)
    then have "idx ! k = Some j \<Longrightarrow> j < length row" for j
      using assms(1) unfolding row_fits_def by (metis Suc_le_lessD nth_mem)
    with Suc show ?case
      by (auto simp: res_fold_append wal_estimate_column_def column_index_in_writer_def index_res_def
        split: option.splits)
  qed simp
  from this [of "num_columns t"] show ?thesis by (simp add: wal_estimate_row_def assms(2))
qed

lemma wal_decode_row_repr:
  assumes "list_all2 (\<lambda>d c. compact_valid (cs_data_type c) d) row (schema_columns s)"
  shows "wal_decode_row s (wal_row_repr row @ rest) = Ok (row, rest)"
proof -
  have len: "length row = num_columns s" using list_all2_lengthD [OF assms] by (simp add: num_columns_def)
  have "res_fold (wal_decode_column s) [0..<k] ([], wal_row_repr row @ rest) =
      Ok (take k row, wal_row_repr (drop k row) @ rest)" if "k \<le> num_columns s" for k
    using that
  proof (induction k)
    case (Suc k)
    then have k: "k < length row" using len by simp
    have "compact_valid (cs_data_type (schema_columns s ! k)) (row ! k)"
      using assms k by (simp add: list_all2_conv_all_nth)
    moreover have "wal_row_repr (drop k row) = compact_repr (row ! k) @ wal_row_repr (drop (Suc k) row)"
      using k by (simp add: wal_row_repr_def flip: Cons_nth_drop_Suc)
    ultimately show ?case
      using Suc k len
      by (simp add: res_fold_append wal_decode_column_def schema_column_def index_res_def num_columns_def
        compact.dec_ok take_Suc_conv_app_nth)
  qed simp
  from this [of "num_columns s"] show ?thesis
    using len by (simp add: wal_decode_row_def wal_row_repr_def)
qed

definition row_room :: "row \<Rightarrow> nat" where
  "row_room row = sum_list (map (\<lambda>d. compact_estimate d + 1) row)"

lemma length_wal_row_repr: "length (wal_row_repr row) \<le> row_room row"
proof (induction row)
  case (Cons d row)
  then show ?case using length_compact_repr_le [of d] by (simp add: wal_row_repr_def row_room_def)
qed (simp add: wal_row_repr_def row_room_def)

lemma datum_size_row_room: "d \<in> set row \<Longrightarrow> datum_size d < row_room row"
proof (induction row)
  case (Cons e row)
  have "datum_size d \<le> compact_estimate d" by (cases d) simp_all
  with Cons show ?case by (auto simp: row_room_def)
qed simp

lemma table_row_valid:
  assumes "check_row_schema (table_row idx row) t = Ok ()" and "row_room (table_row idx row) < 2 ^ 63"
  shows "list_all2 (\<lambda>d c. compact_valid (cs_data_type c) d) (table_row idx row) (schema_columns t)"
  using assms(1) unfolding check_row_schema_Ok
proof (rule list.rel_mono_strong)
  fix d c assume "d \<in> set (table_row idx row)" and "check_datum_type d c = Ok ()"
  with assms(2) datum_size_row_room show "compact_valid (cs_data_type c) d"
    by (fastforce simp: compact_valid_def check_datum_type_Ok split: if_splits)
qed

lemma compat_row_fits:
  assumes "compatible_for_write t w [] = Ok idx" and "check_row_schema row w = Ok ()"
  shows "row_fits idx row"
proof -
  have "length row = num_columns w"
    using assms(2) by (simp add: check_row_schema_Ok num_columns_def list_all2_lengthD)
  moreover have "j < num_columns w" if "Some j \<in> set idx" for j
  proof -
    from that obtain i where "i < length idx" "idx ! i = Some j" by (auto simp: in_set_conv_nth)
    with compat_entry [OF assms(1), of i] show ?thesis
      by (simp add: compat_length [OF assms(1)] index_ok_def)
  qed
  ultimately show ?thesis by (simp add: row_fits_def)
qed

lemma wal_row_round_trip:
  assumes "compatible_for_write t w [] = Ok idx" and "check_row_schema row w = Ok ()"
    and "row_room (table_row idx row) < 2 ^ 63"
  shows "\<exists>b. wal_encode_row t idx vec_new row = Ok b \<and>
    wal_decode_row t (bm_data b @ rest) = Ok (table_row idx row, rest)"
proof -
  note valid = table_row_valid [OF compat_row [OF assms(1,2)] assms(3)]
  have len: "length (table_row idx row) = num_columns t"
    using list_all2_lengthD [OF valid] by (simp add: num_columns_def)
  have some: "\<forall>d \<in> set (table_row idx row). \<exists>q. compact_valid q d"
  proof
    fix d assume "d \<in> set (table_row idx row)"
    then obtain i where "i < length (table_row idx row)" "d = table_row idx row ! i"
      by (auto simp: in_set_conv_nth)
    with valid have "compact_valid (cs_data_type (schema_columns t ! i)) d"
      by (simp add: list_all2_conv_all_nth)
    then show "\<exists>q. compact_valid q d" by blast
  qed
  have room: "length (wal_row_repr (table_row idx row)) \<le> bm_remaining vec_new"
    using length_wal_row_repr [of "table_row idx row"] assms(3) by (simp add: vec_new_def)
  have "wal_encode_row t idx vec_new row = Ok (bm_append vec_new (wal_row_repr (table_row idx row)))"
    using wal_encode_row_prefix [OF compat_row_fits [OF assms(1,2)] _ some, of "num_columns t" vec_new]
      compat_length [OF assms(1)] room len
    by (simp add: wal_encode_row_def)
  then show ?thesis using wal_decode_row_repr [OF valid] by (simp add: vec_new_def)
qed

lemma encode_group_fold:
  assumes "\<forall>row \<in> set rows. \<exists>b. wal_encode_row t idx vec_new row = Ok b \<and> P row (bm_data b)"
  shows "\<exists>bs. res_fold (\<lambda>row encoded.
      res_bind (wal_encode_row t idx vec_new row) (\<lambda>b. Ok (encoded @ [bm_data b]))) rows acc = Ok (acc @ bs) \<and>
    list_all2 P rows bs"
  using assms
proof (induction rows arbitrary: acc)
  case (Cons row rows)
  then obtain b where "wal_encode_row t idx vec_new row = Ok b" "P row (bm_data b)" by auto
  with Cons.IH [of "acc @ [bm_data b]"] Cons.prems show ?case by auto
qed simp

lemma unat_u8_inc: "unat (v + 1) = unat v + 1" if "v \<noteq> 0xFF" for v :: u8
proof -
  have "unat v \<noteq> unat (0xFF :: u8)" using that by (simp only: word_unat_eq_iff not_False_eq_True)
  moreover have "unat v < 256" using unsigned_less [of v, where ?'a = nat] by simp
  ultimately have "unat v < 255" by simp
  then show ?thesis by (simp add: unat_word_ariths)
qed

lemma u8_inc_Ok:
  assumes "v \<noteq> 0xFF"
  shows "u8_inc v = Ok (v + 1)" and "v + 1 \<noteq> 0"
  using assms unat_u8_inc [OF assms] by (auto simp: u8_inc_def word_unat_eq_iff)

lemma less_u8_inc: "c \<noteq> 0xFF \<Longrightarrow> x < c + 1 \<longleftrightarrow> x \<le> c" for c x :: u8
  by (simp add: word_less_nat_alt word_le_nat_alt unat_u8_inc less_Suc_eq_le)

lemma key_prefix_next_append:
  "key_prefix_next (p @ [c]) = (if c = 0xFF then Panic else Ok (p @ [c + 1]))"
proof (cases "c = 0xFF")
  case True
  then show ?thesis by (simp add: key_prefix_next_def index_res_def u8_inc_def)
next
  case False
  then show ?thesis by (simp add: key_prefix_next_def index_res_def u8_inc_Ok)
qed

lemma prefix_interval:
  fixes p k :: "u8 list"
  assumes "c \<noteq> 0xFF"
  shows "p @ [c] \<le> k \<and> k < p @ [c + 1] \<longleftrightarrow> prefix (p @ [c]) k"
proof (induction p arbitrary: k)
  case Nil
  show ?case
  proof (cases k)
    case (Cons x t)
    have "[c] \<le> x # t \<longleftrightarrow> c \<le> x" by (cases t) (auto simp: le_less)
    moreover have "x # t < [c + 1] \<longleftrightarrow> x \<le> c" using less_u8_inc [OF assms, of x] by simp
    moreover have "c \<le> x \<and> x \<le> c \<longleftrightarrow> c = x" by (rule eq_iff [symmetric])
    ultimately show ?thesis unfolding Cons by simp
  qed simp
next
  case (Cons x p)
  show ?case
  proof (cases k)
    case (Cons y t)
    then show ?thesis using Cons.IH [of t] by (cases "x = y") (simp_all add: less_le)
  qed simp
qed

section \<open>Properties\<close>

text \<open>
  C8. What the write-ahead log holds of a write: when the writer's schema is compatible with the
  table's and the rows fit it, encoding the group succeeds with one entry for each row, and
  decoding an entry with the table's schema gives the row as the table sees it, with nulls for the
  columns the writer did not have.
\<close>

theorem wal_row_group_round_trip:
  assumes "compatible_for_write t w [] = Ok idx"
    and "\<forall>row \<in> set rows. check_row_schema row w = Ok () \<and> row_room (table_row idx row) < 2 ^ 63"
  shows "\<exists>encoded. encode_row_group_for_wal rows t idx [] = Ok encoded \<and>
    list_all2 (\<lambda>row bytes. wal_decode_row t bytes = Ok (table_row idx row, [])) rows encoded"
proof (cases rows)
  case Nil
  then show ?thesis by (simp add: encode_row_group_for_wal_def)
next
  case (Cons first rest)
  then obtain n where "wal_estimate_row t idx first = Ok n"
    using assms wal_estimate_row_Ok [OF compat_row_fits [OF assms(1)] compat_length [OF assms(1)]] by auto
  moreover have "\<forall>row \<in> set rows. \<exists>b. wal_encode_row t idx vec_new row = Ok b \<and>
      wal_decode_row t (bm_data b) = Ok (table_row idx row, [])"
    using assms wal_row_round_trip [OF assms(1), where rest = "[]"] by simp
  from encode_group_fold [where P = "\<lambda>row bytes. wal_decode_row t bytes = Ok (table_row idx row, [])" and acc = "[]", OF this]
  obtain bs where "res_fold (\<lambda>row encoded. res_bind (wal_encode_row t idx vec_new row)
        (\<lambda>b. Ok (encoded @ [bm_data b]))) rows [] = Ok bs"
    and "list_all2 (\<lambda>row bytes. wal_decode_row t bytes = Ok (table_row idx row, [])) rows bs" by auto
  ultimately show ?thesis by (simp add: encode_row_group_for_wal_def Cons)
qed

theorem wal_row_group_round_trip_witness:
  "\<exists>encoded. encode_row_group_for_wal [[D_String [97], D_Timestamp 7, D_Double 3]] demo_schema
       [Some 0, Some 1, None, Some 2] [] = Ok encoded \<and>
     list_all2 (\<lambda>row bytes. wal_decode_row demo_schema bytes =
         Ok (table_row [Some 0, Some 1, None, Some 2] row, []))
       [[D_String [97], D_Timestamp 7, D_Double 3]] encoded"
  by (rule wal_row_group_round_trip [OF demo_compatible])
    (simp add: check_row_schema_Ok check_datum_type_Ok demo_defs row_room_def table_row_def)

text \<open>
  C28. The next prefix of a key: when the last byte is not 255, \<open>key_prefix_next\<close> returns the least
  bound of the keys that extend the key, so the keys from the key up to it are exactly those with
  the key as prefix. On an empty key, and on every key that ends in the byte 255, it panics: the
  carry the code means to propagate is an arithmetic overflow.
\<close>

theorem key_prefix_next_spec:
  "(key_prefix_next key = (Panic :: (unit, u8 list) result) \<longleftrightarrow> key = [] \<or> last key = 0xFF) \<and>
   (key \<noteq> [] \<and> last key \<noteq> 0xFF \<longrightarrow>
     (\<exists>bound. key_prefix_next key = (Ok bound :: (unit, u8 list) result) \<and>
        (\<forall>k. key \<le> k \<and> k < bound \<longleftrightarrow> prefix key k)))"
proof (cases key rule: rev_cases)
  case Nil
  then show ?thesis by (simp add: key_prefix_next_def)
next
  case (snoc p c)
  then show ?thesis using prefix_interval [of c p] by (auto simp: key_prefix_next_append)
qed

theorem key_prefix_next_spec_witness:
  "key_prefix_next [1, 0xFF] = (Panic :: (unit, u8 list) result) \<and>
   (\<exists>bound. key_prefix_next [1, 2] = (Ok bound :: (unit, u8 list) result) \<and>
      (\<forall>k. [1, 2] \<le> k \<and> k < bound \<longleftrightarrow> prefix [1, 2] k))"
  using key_prefix_next_spec [of "[1, 0xFF]"] key_prefix_next_spec [of "[1, 2]"] by simp

end
