(* ===== verification/Time_Range.thy ===== *)
theory Time_Range
  imports Prelude
begin

text \<open>
  Timestamps and time ranges (\<^verbatim>\<open>common_types/src/time.rs\<close>).  A timestamp is an \<open>i64\<close> of
  milliseconds, written as an integer whose range the definitions check where the code does; a
  \<open>Duration\<close> is a natural number of nanoseconds.  A range denotes the set \<open>range_set\<close> of the
  timestamps it contains, and the operations are characterised through it.
\<close>

type_synonym timestamp = int
type_synonym duration = nat

section \<open>Durations\<close>

definition as_millis :: "duration \<Rightarrow> nat" where
  "as_millis d = d div 1000000"

definition from_millis :: "nat \<Rightarrow> duration" where
  "from_millis n = n * 1000000"

lemma as_from_millis [simp]: "as_millis (from_millis n) = n"
  by (simp add: as_millis_def from_millis_def)

text \<open>\<open>as_millis().try_into()\<close> to \<open>i64\<close>\<close>

definition millis_i64 :: "duration \<Rightarrow> int option" where
  "millis_i64 d = i64_checked (int (as_millis d))"

section \<open>Timestamps\<close>

text \<open>\<open>now\<close> is the clock; the division truncates toward zero and panics on a divisor zero.\<close>

definition truncate_by :: "timestamp \<Rightarrow> duration \<Rightarrow> ('e, timestamp) result" where
  "truncate_by ts d =
     (let duration_millis = sint (of_nat (as_millis d) :: u64)
      in if duration_millis = 0 \<or> \<not> in_i64 (ts sdiv duration_millis) then Panic
         else Ok (ts sdiv duration_millis * duration_millis))"

definition checked_floor_by_i64 :: "timestamp \<Rightarrow> int \<Rightarrow> ('e, timestamp option) result" where
  "checked_floor_by_i64 ts duration_ms =
     (if duration_ms \<le> 0 then Panic
      else Ok (Option.bind (if 0 \<le> ts then Some ts else i64_checked (ts - (duration_ms - 1))) (\<lambda>normalized_ts.
               Option.bind (i64_checked (normalized_ts sdiv duration_ms)) (\<lambda>v. i64_checked (v * duration_ms)))))"

definition checked_add_i64 :: "timestamp \<Rightarrow> int \<Rightarrow> timestamp option" where
  "checked_add_i64 ts offset_ms = i64_checked (ts + offset_ms)"

definition checked_add :: "timestamp \<Rightarrow> timestamp \<Rightarrow> timestamp option" where
  "checked_add ts other = i64_checked (ts + other)"

definition checked_sub :: "timestamp \<Rightarrow> timestamp \<Rightarrow> timestamp option" where
  "checked_sub ts other = i64_checked (ts - other)"

definition checked_sub_duration :: "timestamp \<Rightarrow> duration \<Rightarrow> timestamp option" where
  "checked_sub_duration ts d = Option.bind (millis_i64 d) (\<lambda>duration_millis. i64_checked (ts - duration_millis))"

definition timestamp_is_expired :: "timestamp \<Rightarrow> timestamp \<Rightarrow> bool" where
  "timestamp_is_expired ts expired_time \<longleftrightarrow> ts < expired_time"

definition sub_duration_or_min :: "timestamp \<Rightarrow> duration \<Rightarrow> timestamp" where
  "sub_duration_or_min ts d = (case checked_sub_duration ts d of Some t \<Rightarrow> t | None \<Rightarrow> i64_min)"

definition expire_time :: "timestamp \<Rightarrow> duration \<Rightarrow> timestamp" where
  "expire_time now ttl = sub_duration_or_min now ttl"

section \<open>Ranges\<close>

record time_range =
  inclusive_start :: timestamp
  exclusive_end :: timestamp

datatype time_error = InvalidTimeRange int int

definition time_range_new :: "timestamp \<Rightarrow> timestamp \<Rightarrow> time_range option" where
  "time_range_new s e = (if s \<le> e then Some \<lparr>inclusive_start = s, exclusive_end = e\<rparr> else None)"

definition new_unchecked :: "timestamp \<Rightarrow> timestamp \<Rightarrow> ('e, time_range) result" where
  "new_unchecked s e = (case time_range_new s e of Some r \<Rightarrow> Ok r | None \<Rightarrow> Panic)"

definition from_timestamp :: "timestamp \<Rightarrow> ('e, time_range) result" where
  "from_timestamp t = new_unchecked t (case checked_add_i64 t 1 of Some e \<Rightarrow> e | None \<Rightarrow> t)"

definition min_to_max :: time_range where
  "min_to_max = \<lparr>inclusive_start = i64_min, exclusive_end = i64_max\<rparr>"

definition time_range_empty :: time_range where
  "time_range_empty = \<lparr>inclusive_start = 0, exclusive_end = 0\<rparr>"

definition range_contains :: "time_range \<Rightarrow> timestamp \<Rightarrow> bool" where
  "range_contains r ts \<longleftrightarrow> inclusive_start r \<le> ts \<and> ts < exclusive_end r"

definition bucket_of :: "timestamp \<Rightarrow> duration \<Rightarrow> ('e, time_range option) result" where
  "bucket_of ts bucket_duration =
     (case millis_i64 bucket_duration of
        None \<Rightarrow> Ok None
      | Some bucket_duration_ms \<Rightarrow>
          if bucket_duration_ms \<le> 0 then Ok None
          else res_bind (checked_floor_by_i64 ts bucket_duration_ms) (\<lambda>s.
            Ok (Option.bind s (\<lambda>s.
                Option.bind (checked_add_i64 s bucket_duration_ms) (\<lambda>e.
                  Some \<lparr>inclusive_start = s, exclusive_end = e\<rparr>)))))"

definition not_intersecting :: "time_range \<Rightarrow> time_range \<Rightarrow> bool" where
  "not_intersecting r other \<longleftrightarrow>
     exclusive_end other \<le> inclusive_start r \<or> exclusive_end r \<le> inclusive_start other"

definition intersect_with :: "time_range \<Rightarrow> time_range \<Rightarrow> bool" where
  "intersect_with r other \<longleftrightarrow> \<not> not_intersecting r other"

definition range_is_expired :: "time_range \<Rightarrow> timestamp option \<Rightarrow> bool" where
  "range_is_expired r expire = (case expire of None \<Rightarrow> False | Some t \<Rightarrow> exclusive_end r \<le> t)"

definition intersected_range :: "time_range \<Rightarrow> time_range \<Rightarrow> time_range option" where
  "intersected_range r other =
     time_range_new (max (inclusive_start r) (inclusive_start other)) (min (exclusive_end r) (exclusive_end other))"

text \<open>The protobuf form of a range is the pair of its ends.\<close>

definition time_range_to_pb :: "time_range \<Rightarrow> int \<times> int" where
  "time_range_to_pb r = (inclusive_start r, exclusive_end r)"

definition time_range_from_pb :: "int \<times> int \<Rightarrow> (time_error, time_range) result" where
  "time_range_from_pb = (\<lambda>(s, e).
     case time_range_new s e of Some r \<Rightarrow> Ok r | None \<Rightarrow> Err (InvalidTimeRange s e))"

section \<open>Ranges as sets\<close>

definition range_set :: "time_range \<Rightarrow> timestamp set" where
  "range_set r = {inclusive_start r..<exclusive_end r}"

definition range_wf :: "time_range \<Rightarrow> bool" where
  "range_wf r \<longleftrightarrow> in_i64 (inclusive_start r) \<and> in_i64 (exclusive_end r) \<and> inclusive_start r \<le> exclusive_end r"

lemma range_contains_iff [simp]: "range_contains r ts \<longleftrightarrow> ts \<in> range_set r"
  by (auto simp: range_contains_def range_set_def)

lemma range_set_empty_iff: "range_set r = {} \<longleftrightarrow> exclusive_end r \<le> inclusive_start r"
  by (auto simp: range_set_def)

lemma range_set_inter:
  "range_set r \<inter> range_set s =
     {max (inclusive_start r) (inclusive_start s)..<min (exclusive_end r) (exclusive_end s)}"
  by (auto simp: range_set_def)

lemma intersect_with_iff:
  assumes "range_set r \<noteq> {}" and "range_set s \<noteq> {}"
  shows "intersect_with r s \<longleftrightarrow> range_set r \<inter> range_set s \<noteq> {}"
  using assms unfolding range_set_inter range_set_empty_iff
  by (auto simp: intersect_with_def not_intersecting_def)

lemma intersected_range_set:
  "intersected_range r s = Some u \<Longrightarrow> range_set u = range_set r \<inter> range_set s"
  "intersected_range r s = None \<Longrightarrow> range_set r \<inter> range_set s = {}"
  unfolding range_set_inter by (auto simp: intersected_range_def time_range_new_def range_set_def split: if_splits)

lemma range_is_expired_iff:
  assumes "range_set r \<noteq> {}"
  shows "range_is_expired r (Some t) \<longleftrightarrow> (\<forall>ts \<in> range_set r. timestamp_is_expired ts t)"
proof
  assume "\<forall>ts \<in> range_set r. timestamp_is_expired ts t"
  moreover have "exclusive_end r - 1 \<in> range_set r" using assms by (auto simp: range_set_def)
  ultimately show "range_is_expired r (Some t)"
    by (auto simp: range_is_expired_def timestamp_is_expired_def)
qed (auto simp: range_is_expired_def range_set_def timestamp_is_expired_def)

lemma time_range_pb: "range_wf r \<Longrightarrow> time_range_from_pb (time_range_to_pb r) = Ok r"
  by (simp add: time_range_from_pb_def time_range_to_pb_def time_range_new_def range_wf_def)

section \<open>Buckets\<close>

lemma floor_bounds:
  fixes d :: int
  assumes "0 < d"
  shows "t div d * d \<le> t" and "t < t div d * d + d"
  using minus_mod_eq_div_mult [of t d] pos_mod_bound [OF assms, of t] pos_mod_sign [OF assms, of t] by linarith+

lemma floor_by_trunc:
  fixes d :: int
  assumes "0 < d"
  shows "0 \<le> t \<Longrightarrow> t sdiv d = t div d" and "t < 0 \<Longrightarrow> (t - (d - 1)) sdiv d = t div d"
proof -
  show "t sdiv d = t div d" if "0 \<le> t"
    using that assms by (cases "t = 0") (simp_all add: signed_divide_int_def)
  assume t: "t < 0"
  have "(t - (d - 1)) sdiv d = - ((d - 1 - t) div d)"
    using t assms by (simp add: signed_divide_int_def)
  also have "d - 1 - t = (- t - 1) + d" by simp
  also have "(- t - 1 + d) div d = (- t - 1) div d + 1" using assms by (simp add: div_add_self2)
  also have "(- t - 1) div d = - 1 - t div d"
  proof (rule int_div_pos_eq [where r = "d - 1 - (t - t div d * d)"])
    show "- t - 1 = d * (- 1 - t div d) + (d - 1 - (t - t div d * d))" by (simp add: algebra_simps)
  qed (use floor_bounds [OF assms, of t] in linarith)+
  finally show "(t - (d - 1)) sdiv d = t div d" by simp
qed


lemma checked_floor_spec:
  assumes "in_i64 ts" and "0 < d"
  shows "checked_floor_by_i64 ts d =
    Ok (if 0 \<le> ts \<or> i64_min \<le> ts - (d - 1) then Some (ts div d * d) else None)"
proof -
  have le: "ts div d * d \<le> ts" and gt: "ts - (d - 1) \<le> ts div d * d"
    using floor_bounds [OF assms(2), of ts] by linarith+
  show ?thesis
  proof (cases "0 \<le> ts")
    case True
    have "0 \<le> ts div d" using True assms(2) by (simp add: pos_imp_zdiv_nonneg_iff)
    moreover have "ts div d * 1 \<le> ts div d * d" using calculation assms(2) by (intro mult_left_mono) simp_all
    moreover have "0 \<le> ts div d * d" using calculation(1) assms(2) by simp
    ultimately have "in_i64 (ts div d)" "in_i64 (ts div d * d)" using True assms(1) le by (simp_all add: in_i64_def)
    with True assms show ?thesis by (simp add: checked_floor_by_i64_def floor_by_trunc i64_checked_def)
  next
    case False
    have "ts \<le> ts div d"
      using zdiv_mono2_neg [of ts 1 d] False assms(2) by simp
    moreover have "ts div d < 0" using False assms(2) by (simp add: div_neg_pos_less0)
    ultimately have "in_i64 (ts div d)" using assms(1) by (simp add: in_i64_def)
    moreover have "in_i64 (ts - (d - 1)) \<longleftrightarrow> i64_min \<le> ts - (d - 1)" using False assms by (simp add: in_i64_def)
    moreover have "in_i64 (ts div d * d)" if "i64_min \<le> ts - (d - 1)"
      using that le gt assms(1) by (simp add: in_i64_def)
    ultimately show ?thesis using False assms floor_by_trunc(2) [OF assms(2), of ts]
      by (auto simp: checked_floor_by_i64_def i64_checked_def)
  qed
qed

text \<open>The bucket of a timestamp, when nothing overflows, and when \<open>bucket_of\<close> returns \<open>None\<close>.\<close>

definition bucket_fits :: "timestamp \<Rightarrow> int \<Rightarrow> bool" where
  "bucket_fits ts ms \<longleftrightarrow> 0 < ms \<and> ms \<le> i64_max \<and> (0 \<le> ts \<or> i64_min \<le> ts - (ms - 1)) \<and> ts div ms * ms + ms \<le> i64_max"

lemma bucket_of_eq:
  assumes "in_i64 ts"
  shows "bucket_of ts d =
    Ok (let ms = int (as_millis d) in
        if bucket_fits ts ms then Some \<lparr>inclusive_start = ts div ms * ms, exclusive_end = ts div ms * ms + ms\<rparr> else None)"
proof (cases "0 < int (as_millis d) \<and> int (as_millis d) \<le> i64_max")
  case True
  then have "millis_i64 d = Some (int (as_millis d))" by (simp add: millis_i64_def in_i64_def)
  moreover have "in_i64 (ts div int (as_millis d) * int (as_millis d) + int (as_millis d)) \<longleftrightarrow>
      ts div int (as_millis d) * int (as_millis d) + int (as_millis d) \<le> i64_max"
    using floor_bounds(2) [of "int (as_millis d)" ts] True assms unfolding in_i64_def by linarith
  ultimately show ?thesis
    using True
    by (auto simp: checked_floor_spec [OF assms] bucket_of_def bucket_fits_def checked_add_i64_def i64_checked_def Let_def)
next
  case False
  then show ?thesis by (auto simp: bucket_of_def bucket_fits_def millis_i64_def in_i64_def i64_checked_def Let_def)
qed

lemma bucket_set:
  assumes "0 < ms" and "r = \<lparr>inclusive_start = ts div ms * ms, exclusive_end = ts div ms * ms + ms\<rparr>"
  shows "u \<in> range_set r \<longleftrightarrow> u div ms = ts div ms"
proof
  assume "u \<in> range_set r"
  then have "ts div ms * ms \<le> u" "u < ts div ms * ms + ms" using assms(2) by (simp_all add: range_set_def)
  then show "u div ms = ts div ms"
    by (intro int_div_pos_eq [where r = "u - ts div ms * ms"]) (simp_all add: algebra_simps)
next
  assume "u div ms = ts div ms"
  then show "u \<in> range_set r"
    using floor_bounds [OF assms(1), of u] assms(2) by (simp add: range_set_def)
qed

section \<open>Properties\<close>

text \<open>
  C35. \<open>TimeRange::bucket_of\<close> partitions time: the bucket of a timestamp contains it, spans exactly
  the bucket duration, starts at a multiple of it, and two timestamps that both have a bucket have
  the same one exactly when one is in the bucket of the other, and disjoint ones otherwise.\<close>

theorem bucket_of_partition:
  assumes "in_i64 ts" and "in_i64 u" and "bucket_of ts d = Ok (Some r)" and "bucket_of u d = Ok (Some s)"
  shows "ts \<in> range_set r \<and> exclusive_end r - inclusive_start r = int (as_millis d) \<and>
    int (as_millis d) dvd inclusive_start r \<and> range_wf r \<and>
    (if u \<in> range_set r then s = r else range_set r \<inter> range_set s = {})"
proof -
  let ?ms = "int (as_millis d)"
  have b: "bucket_fits v ?ms \<and> q = \<lparr>inclusive_start = v div ?ms * ?ms, exclusive_end = v div ?ms * ?ms + ?ms\<rparr>"
    if "in_i64 v" "bucket_of v d = Ok (Some q)" for v q
    using that(2) unfolding bucket_of_eq [OF that(1)] Let_def by (simp split: if_splits)
  note fits = b [OF assms(1,3), THEN conjunct1] and r = b [OF assms(1,3), THEN conjunct2]
    and s = b [OF assms(2,4), THEN conjunct2]
  have ms: "0 < ?ms" using fits by (simp add: bucket_fits_def)
  have "range_wf r"
  proof -
    have "i64_min \<le> ts div ?ms * ?ms"
    proof (cases "0 \<le> ts")
      case True
      then have "0 \<le> ts div ?ms * ?ms" using ms by (simp add: pos_imp_zdiv_nonneg_iff)
      then show ?thesis by simp
    next
      case False
      then show ?thesis using fits floor_bounds(2) [OF ms, of ts] unfolding bucket_fits_def by linarith
    qed
    moreover have "ts div ?ms * ?ms + ?ms \<le> i64_max" using fits by (simp only: bucket_fits_def)
    ultimately show ?thesis using ms unfolding r range_wf_def in_i64_def by simp
  qed
  moreover have "range_set r \<inter> range_set s = {}" if "u \<notin> range_set r"
  proof -
    have "v \<notin> range_set s" if "v \<in> range_set r" for v
      using that \<open>u \<notin> range_set r\<close> bucket_set [OF ms r, of v] bucket_set [OF ms r, of u] bucket_set [OF ms s, of v] by simp
    then show ?thesis by blast
  qed
  moreover have "s = r" if "u \<in> range_set r" using that bucket_set [OF ms r, of u] unfolding r s by simp
  moreover have "ts \<in> range_set r" using bucket_set [OF ms r, of ts] by simp
  moreover have "exclusive_end r - inclusive_start r = ?ms" "?ms dvd inclusive_start r" unfolding r by simp_all
  ultimately show ?thesis by simp
qed

theorem bucket_of_partition_witness:
  "\<exists>r s. bucket_of (- 5) (from_millis 10) = (Ok (Some r) :: (unit, _) result) \<and>
     bucket_of 3 (from_millis 10) = (Ok (Some s) :: (unit, _) result) \<and>
     - 5 \<in> range_set r \<and> 10 dvd inclusive_start r \<and> range_set r \<inter> range_set s = {}"
proof -
  let ?r = "\<lparr>inclusive_start = - 10, exclusive_end = 0\<rparr>" and ?s = "\<lparr>inclusive_start = 0, exclusive_end = 10\<rparr>"
  have i64: "in_i64 (- 5)" "in_i64 3" by (simp_all add: in_i64_def)
  have b: "bucket_of (- 5) (from_millis 10) = (Ok (Some ?r) :: (unit, _) result)"
    "bucket_of 3 (from_millis 10) = (Ok (Some ?s) :: (unit, _) result)"
    by (simp_all add: bucket_of_eq i64 bucket_fits_def)
  from bucket_of_partition [OF i64 b] b show ?thesis
    by (intro exI [of _ ?r] exI [of _ ?s]) (simp add: range_set_def)
qed

text \<open>
  For non-empty ranges \<open>intersect_with\<close> decides whether some timestamp is in both,
  \<open>intersected_range\<close> is their intersection, and a range is expired exactly when all its timestamps
  are.\<close>

lemma range_operations_spec:
  assumes "range_set r \<noteq> {}" and "range_set s \<noteq> {}"
  shows "(intersect_with r s \<longleftrightarrow> (\<exists>ts. range_contains r ts \<and> range_contains s ts)) \<and>
    (case intersected_range r s of Some u \<Rightarrow> range_set u = range_set r \<inter> range_set s
     | None \<Rightarrow> range_set r \<inter> range_set s = {}) \<and>
    (range_is_expired r (Some t) \<longleftrightarrow> (\<forall>ts \<in> range_set r. timestamp_is_expired ts t))"
  using intersect_with_iff [OF assms] intersected_range_set [of r s] range_is_expired_iff [OF assms(1)]
  by (auto split: option.splits)

lemma range_operations_spec_witness:
  "intersect_with \<lparr>inclusive_start = 0, exclusive_end = 5\<rparr> \<lparr>inclusive_start = 4, exclusive_end = 9\<rparr> \<and>
   range_is_expired \<lparr>inclusive_start = 0, exclusive_end = 5\<rparr> (Some 5)"
  using range_operations_spec [of "\<lparr>inclusive_start = 0, exclusive_end = 5\<rparr>" "\<lparr>inclusive_start = 4, exclusive_end = 9\<rparr>" 5]
  by (auto simp: range_set_def timestamp_is_expired_def intro: exI [of _ 4])

end
