(* ===== verification/Sampler.thy ===== *)
theory Sampler
  imports Time_Range
begin

text \<open>
  The segment duration sampler of a memtable without a fixed segment duration
  (\<^verbatim>\<open>analytic_engine/src/sampler.rs\<close>): it collects timestamps, derives from their intervals one of
  eight durations, and splits the collected timestamps into buckets of that duration.  The product of
  a length with the \<open>f64\<close> constant 0.9 is computed on the significand of the constant, rounded to 53
  bits as IEEE 754 does.
\<close>

abbreviation (input) HOUR_MS :: nat where "HOUR_MS \<equiv> 3600 * 1000"
abbreviation (input) DAY_MS :: nat where "DAY_MS \<equiv> 24 * HOUR_MS"
abbreviation (input) POINTS_PER_SERIES :: nat where "POINTS_PER_SERIES \<equiv> 100"
abbreviation (input) MIN_SAMPLES :: nat where "MIN_SAMPLES \<equiv> 2"

definition AVAILABLE_DURATIONS :: "nat list" where
  "AVAILABLE_DURATIONS =
     [2 * HOUR_MS, DAY_MS, 7 * DAY_MS, 30 * DAY_MS, 180 * DAY_MS, 360 * DAY_MS, 5 * 360 * DAY_MS, 10 * 360 * DAY_MS]"

definition MAX_TIMESTAMP_MS_FOR_DURATION :: int where
  "MAX_TIMESTAMP_MS_FOR_DURATION = i64_max - 2 * int (last AVAILABLE_DURATIONS)"

definition DEFAULT_SEGMENT_DURATION :: duration where
  "DEFAULT_SEGMENT_DURATION = from_millis (2 * 60 * 60 * 1000)"

datatype sampler_error = InvalidTimestamp timestamp

record sampler_state =
  deduped_timestamps :: "timestamp set"
  sampled_duration :: "duration option"
  sorted_timestamps :: "timestamp list"

definition sampler_new :: sampler_state where
  "sampler_new = \<lparr>deduped_timestamps = {}, sampled_duration = None, sorted_timestamps = []\<rparr>"

definition clear_cache :: "sampler_state \<Rightarrow> sampler_state" where
  "clear_cache s = s\<lparr>sampled_duration := None, sorted_timestamps := []\<rparr>"

section \<open>Picking a duration\<close>

text \<open>The number of bits a product has more than a significand of 53 bits can hold.\<close>

function excess_bits :: "nat \<Rightarrow> nat" where
  "excess_bits p = (if p < 2 ^ 53 then 0 else Suc (excess_bits (p div 2)))"
  by auto
termination by (relation "measure id") auto

declare excess_bits.simps [simp del]

text \<open>
  \<open>(n as f64 * 0.9) as usize\<close>: the constant is 8106479329266893 / 2 ^ 53, the product is rounded to
  the nearest significand, ties to even, and then truncated.
\<close>

definition interval_index :: "nat \<Rightarrow> nat" where
  "interval_index n =
     (let p = n * 8106479329266893;
          e = excess_bits p;
          q = p div 2 ^ e;
          r = p mod 2 ^ e;
          q = (if 2 ^ e < 2 * r \<or> 2 ^ e = 2 * r \<and> odd q then q + 1 else q)
      in q * 2 ^ e div 2 ^ 53)"

definition interval_pos :: "nat \<Rightarrow> nat" where
  "interval_pos n = (let index = interval_index n in if 1 < index then index - 1 else index)"

fun intervals_of :: "timestamp list \<Rightarrow> (sampler_error, int list) result" where
  "intervals_of (current # next # ts) =
     (if in_i64 (next - current)
      then res_bind (intervals_of (next # ts)) (\<lambda>is. Ok ((next - current) # is))
      else Panic)"
| "intervals_of _ = Ok []"

definition evaluate_interval :: "timestamp list \<Rightarrow> (sampler_error, nat option) result" where
  "evaluate_interval ts =
     (if length ts < MIN_SAMPLES then Ok None
      else res_bind (intervals_of ts) (\<lambda>intervals.
        res_bind (index_res (sort intervals) (interval_pos (length intervals))) (\<lambda>selected.
          if 0 < selected then Ok (Some (nat selected)) else Panic)))"

definition pick_duration :: "nat \<Rightarrow> duration" where
  "pick_duration interval =
     (let scaled_interval = (if interval * POINTS_PER_SERIES \<le> u64_max then interval * POINTS_PER_SERIES else u64_max)
      in from_millis (case find (\<lambda>du_ms. scaled_interval < du_ms) AVAILABLE_DURATIONS of
                        Some du_ms \<Rightarrow> du_ms
                      | None \<Rightarrow> last AVAILABLE_DURATIONS))"

section \<open>The sampler\<close>

definition collect_ts :: "sampler_state \<Rightarrow> timestamp \<Rightarrow> (sampler_error, sampler_state) result" where
  "collect_ts s ts =
     (if ts < MAX_TIMESTAMP_MS_FOR_DURATION
      then Ok (clear_cache (s\<lparr>deduped_timestamps := insert ts (deduped_timestamps s)\<rparr>))
      else Err (InvalidTimestamp ts))"

definition compute_sorted_timestamps :: "sampler_state \<Rightarrow> timestamp list" where
  "compute_sorted_timestamps s = sorted_list_of_set (deduped_timestamps s)"

definition suggest_duration :: "sampler_state \<Rightarrow> (sampler_error, duration \<times> sampler_state) result" where
  "suggest_duration s =
     (case sampled_duration s of
        Some v \<Rightarrow> Ok (v, s)
      | None \<Rightarrow>
          let timestamps = compute_sorted_timestamps s
          in res_bind (evaluate_interval timestamps) (\<lambda>interval.
             let picked = (case interval of Some i \<Rightarrow> pick_duration i | None \<Rightarrow> DEFAULT_SEGMENT_DURATION)
             in Ok (picked, s\<lparr>sampled_duration := Some picked, sorted_timestamps := timestamps\<rparr>)))"

text \<open>A timestamp in the loop of \<open>ranges\<close>.\<close>

definition push_range :: "duration \<Rightarrow> timestamp \<Rightarrow> time_range list \<Rightarrow> (sampler_error, time_range list) result" where
  "push_range d ts ranges =
     (if ranges \<noteq> [] \<and> range_contains (last ranges) ts then Ok ranges
      else res_bind (bucket_of ts d) (\<lambda>bucket.
             case bucket of None \<Rightarrow> Panic | Some r \<Rightarrow> Ok (ranges @ [r])))"

definition sampler_ranges :: "sampler_state \<Rightarrow> (sampler_error, time_range list \<times> sampler_state) result" where
  "sampler_ranges s =
     res_bind (suggest_duration s) (\<lambda>(duration, s).
     res_bind (res_fold (push_range duration) (sorted_timestamps s) []) (\<lambda>ranges.
       Ok (ranges, s)))"

section \<open>The picked duration is available\<close>

lemma excess_bits_less: "excess_bits p = 0 \<or> 2 ^ 52 * 2 ^ excess_bits p \<le> p"
proof (induction p rule: excess_bits.induct)
  case (1 p)
  show ?case
  proof (cases "p < 2 ^ 53")
    case True
    then show ?thesis by (simp add: excess_bits.simps)
  next
    case False
    then have "excess_bits p = Suc (excess_bits (p div 2))" by (subst excess_bits.simps) simp
    with 1 [OF False] False show ?thesis by auto
  qed
qed

lemma interval_index_less:
  assumes "0 < n"
  shows "interval_index n < n"
proof -
  define p e where "p = n * 8106479329266893" and "e = excess_bits p"
  define q where "q = (if 2 ^ e < 2 * (p mod 2 ^ e) \<or> 2 ^ e = 2 * (p mod 2 ^ e) \<and> odd (p div 2 ^ e)
    then p div 2 ^ e + 1 else p div 2 ^ e)"
  have "q \<le> p div 2 ^ e + 1" by (simp add: q_def)
  then have "q * 2 ^ e \<le> p div 2 ^ e * 2 ^ e + 2 ^ e" by (metis add_mult_distrib mult_1 mult_le_mono1)
  also have "\<dots> \<le> p + 2 ^ e" by (simp add: div_times_less_eq_dividend)
  finally have le: "q * 2 ^ e \<le> p + 2 ^ e" .
  have "2 ^ 52 * (q * 2 ^ e) \<le> 2 ^ 52 * p + p"
  proof (cases "e = 0")
    case True
    then show ?thesis by (simp add: q_def)
  next
    case False
    then have "2 ^ 52 * 2 ^ e \<le> p" using excess_bits_less [of p] by (simp add: e_def)
    with le show ?thesis by (simp add: distrib_left)
  qed
  also have "\<dots> < 2 ^ 52 * (n * 2 ^ 53)" using assms by (simp add: p_def)
  finally have "q * 2 ^ e < n * 2 ^ 53" by simp
  then have "q * 2 ^ e div 2 ^ 53 < n" by (rule less_mult_imp_div_less)
  moreover have "interval_index n = q * 2 ^ e div 2 ^ 53"
    unfolding interval_index_def Let_def p_def e_def q_def by (rule refl)
  ultimately show ?thesis by simp
qed



lemma ex_nat_split: "(\<exists>i. P i) \<longleftrightarrow> P 0 \<or> (\<exists>i. P (Suc i))"
  by (metis not0_implies_Suc)

lemma intervals_of_cases:
  assumes "sorted_wrt (<) ts"
  shows "if \<exists>i. Suc i < length ts \<and> i64_max < ts ! Suc i - ts ! i then intervals_of ts = Panic
    else \<exists>is. intervals_of ts = Ok is \<and> length is = length ts - 1 \<and> (\<forall>i \<in> set is. 0 < i)"
  using assms
proof (induction ts rule: intervals_of.induct)
  case (1 current "next" ts)
  have diff: "in_i64 (next - current) \<longleftrightarrow> \<not> i64_max < next - current" "0 < next - current"
    using 1(2) by (auto simp: in_i64_def)
  have first: "(\<exists>i. Suc i < length (current # next # ts) \<and> i64_max < (current # next # ts) ! Suc i - (current # next # ts) ! i) \<longleftrightarrow>
      i64_max < next - current \<or> (\<exists>i. Suc i < length (next # ts) \<and> i64_max < (next # ts) ! Suc i - (next # ts) ! i)"
    (is "_ \<longleftrightarrow> _ \<or> ?rest")
    by (subst ex_nat_split) simp
  show ?case
  proof (cases "i64_max < next - current")
    case True
    then show ?thesis using diff(1) first by simp
  next
    case False
    then have ih: "if ?rest then intervals_of (next # ts) = Panic
      else \<exists>is. intervals_of (next # ts) = Ok is \<and> length is = length (next # ts) - 1 \<and> (\<forall>i \<in> set is. 0 < i)"
      using 1 diff(1) by simp
    show ?thesis
    proof (cases ?rest)
      case rest: True
      then have "intervals_of (current # next # ts) = Panic" using ih False diff(1) by simp
      then show ?thesis using first rest by (metis (no_types, lifting))
    next
      case rest: False
      then have "\<exists>is. intervals_of (next # ts) = Ok is \<and> length is = length (next # ts) - 1 \<and> (\<forall>i \<in> set is. 0 < i)"
        using ih by (metis (no_types, lifting))
      then obtain "is" where "intervals_of (next # ts) = Ok is" "length is = length ts" "\<forall>i \<in> set is. 0 < i" by auto
      then have "\<exists>is. intervals_of (current # next # ts) = Ok is \<and> length is = length (current # next # ts) - 1 \<and> (\<forall>i \<in> set is. 0 < i)"
        using False diff by simp
      moreover have "\<not> (\<exists>i. Suc i < length (current # next # ts) \<and> i64_max < (current # next # ts) ! Suc i - (current # next # ts) ! i)"
        using first rest False by blast
      ultimately show ?thesis by (simp only: if_False)
    qed
  qed
qed simp_all

lemma evaluate_interval_cases:
  assumes "sorted_wrt (<) ts"
  shows "if \<exists>i. Suc i < length ts \<and> i64_max < ts ! Suc i - ts ! i then evaluate_interval ts = Panic
    else \<exists>i. evaluate_interval ts = Ok i"
proof (cases "length ts < 2")
  case True
  then show ?thesis by (simp add: evaluate_interval_def)
next
  case False
  note iv = intervals_of_cases [OF assms]
  show ?thesis
  proof (cases "\<exists>i. Suc i < length ts \<and> i64_max < ts ! Suc i - ts ! i")
    case True
    then have "intervals_of ts = Panic" using iv by (simp only: if_True)
    then have "evaluate_interval ts = Panic" using False by (simp add: evaluate_interval_def)
    then show ?thesis using True by (simp only: if_True)
  next
    case gaps: False
    then obtain "is" where iss: "intervals_of ts = Ok is" "length is = length ts - 1" "\<forall>i \<in> set is. 0 < i"
      using iv by (auto simp only: if_False)
    have pos: "interval_pos (length is) < length (sort is)"
      using interval_index_less [of "length is"] False iss(2) by (auto simp: interval_pos_def Let_def)
    then have "sort is ! interval_pos (length is) \<in> set is" by (metis nth_mem set_sort)
    then have "0 < sort is ! interval_pos (length is)" using iss(3) by simp
    with pos have "\<exists>i. evaluate_interval ts = Ok i"
      using False iss(1) by (simp add: evaluate_interval_def index_res_def)
    then show ?thesis using gaps by (simp only: if_False)
  qed
qed

lemma evaluate_interval_Ok:
  assumes "sorted_wrt (<) ts" and "\<forall>t \<in> set ts. - (2 ^ 62) \<le> t \<and> t < 2 ^ 62"
  shows "\<exists>i. evaluate_interval ts = Ok i"
proof -
  have "\<not> i64_max < ts ! Suc i - ts ! i" if "Suc i < length ts" for i
  proof -
    have "ts ! Suc i < 2 ^ 62" "- (2 ^ 62) \<le> ts ! i" using assms(2) that by simp_all
    then show ?thesis by simp
  qed
  then show ?thesis using evaluate_interval_cases [OF assms(1)] by (auto split: if_splits)
qed

lemma pick_duration_available: "\<exists>du \<in> set AVAILABLE_DURATIONS. pick_duration i = from_millis du"
proof -
  have "du \<in> set xs" if "find P xs = Some du" for P xs and du :: nat
    using that by (induction xs) (auto split: if_splits)
  moreover have "last AVAILABLE_DURATIONS \<in> set AVAILABLE_DURATIONS" by (simp add: AVAILABLE_DURATIONS_def)
  ultimately show ?thesis
    by (cases "find (\<lambda>du_ms. (if i * 100 \<le> u64_max then i * 100 else u64_max) < du_ms) AVAILABLE_DURATIONS")
      (auto simp only: pick_duration_def Let_def option.case)
qed

section \<open>The ranges cover the timestamps\<close>

definition bucket :: "int \<Rightarrow> timestamp \<Rightarrow> time_range" where
  "bucket ms t = \<lparr>inclusive_start = t div ms * ms, exclusive_end = t div ms * ms + ms\<rparr>"

lemma bucket_iff: "0 < ms \<Longrightarrow> u \<in> range_set (bucket ms t) \<longleftrightarrow> u div ms = t div ms"
  by (rule bucket_set) (simp_all add: bucket_def)

definition ranges_inv :: "int \<Rightarrow> timestamp list \<Rightarrow> time_range list \<Rightarrow> bool" where
  "ranges_inv ms ts rs \<longleftrightarrow>
     set rs = bucket ms ` set ts \<and> (ts \<noteq> [] \<longrightarrow> last rs = bucket ms (last ts)) \<and>
     sorted_wrt (\<lambda>r s. exclusive_end r \<le> inclusive_start s) rs"

lemma bucket_before:
  assumes "0 < ms" and "x div ms < t div ms"
  shows "exclusive_end (bucket ms x) \<le> inclusive_start (bucket ms t)"
proof -
  have "(x div ms + 1) * ms \<le> t div ms * ms" using assms by (intro mult_right_mono) simp_all
  then show ?thesis by (simp add: bucket_def distrib_right)
qed

lemma sorted_last: "sorted_wrt (<) ts \<Longrightarrow> x \<in> set ts \<Longrightarrow> x \<le> last ts" for x :: "'a::linorder"
  by (induction ts) (auto simp: less_imp_le)

lemma push_range_inv:
  assumes "ranges_inv ms ts rs" and "0 < ms" and "sorted_wrt (<) (ts @ [t])"
    and "bucket_of t d = (Ok (Some (bucket ms t)) :: (sampler_error, _) result)"
  shows "\<exists>rs'. push_range d t rs = Ok rs' \<and> ranges_inv ms (ts @ [t]) rs'"
proof (cases "rs \<noteq> [] \<and> t \<in> range_set (last rs)")
  case True
  then have "ts \<noteq> []" using assms(1) by (auto simp: ranges_inv_def)
  then have "t div ms = last ts div ms" "last rs = bucket ms (last ts)"
    using True assms(1,2) by (auto simp: ranges_inv_def bucket_iff)
  then have "bucket ms t = last rs" by (simp add: bucket_def)
  moreover from this have "bucket ms t \<in> set rs" using True by simp
  ultimately have "ranges_inv ms (ts @ [t]) rs" using assms(1) by (auto simp: ranges_inv_def)
  with True show ?thesis by (simp add: push_range_def)
next
  case False
  have "exclusive_end r \<le> inclusive_start (bucket ms t)" if r: "r \<in> set rs" for r
  proof -
    obtain x where x: "x \<in> set ts" "r = bucket ms x" using r assms(1) by (auto simp: ranges_inv_def)
    then have "rs \<noteq> []" "ts \<noteq> []" "last rs = bucket ms (last ts)" using r assms(1) by (auto simp: ranges_inv_def)
    then have "t div ms \<noteq> last ts div ms" using False assms(2) by (auto simp: bucket_iff)
    moreover have "x \<le> last ts" using sorted_last [of ts x] x(1) assms(3) by (simp add: sorted_wrt_append)
    moreover have "last ts < t" using assms(3) \<open>ts \<noteq> []\<close> by (simp add: sorted_wrt_append)
    ultimately have "x div ms < t div ms"
      using zdiv_mono1 [of x "last ts" ms] zdiv_mono1 [of "last ts" t ms] assms(2) by simp
    then show ?thesis using bucket_before [OF assms(2)] x(2) by simp
  qed
  then have "ranges_inv ms (ts @ [t]) (rs @ [bucket ms t])"
    using assms(1) by (auto simp: ranges_inv_def sorted_wrt_append)
  moreover have "push_range d t rs = Ok (rs @ [bucket ms t])"
    using False assms(4) by (simp add: push_range_def)
  ultimately show ?thesis by blast
qed

lemma push_ranges:
  assumes "0 < ms" and "sorted_wrt (<) ts" and "\<forall>t \<in> set ts. bucket_of t d = (Ok (Some (bucket ms t)) :: (sampler_error, _) result)"
  shows "\<exists>rs. res_fold (push_range d) ts [] = Ok rs \<and> ranges_inv ms ts rs"
  using assms(2,3)
proof (induction ts rule: rev_induct)
  case (snoc t ts)
  then obtain rs where "res_fold (push_range d) ts [] = Ok rs" "ranges_inv ms ts rs"
    by (auto simp: sorted_wrt_append)
  with push_range_inv [OF _ assms(1) snoc(2), of rs d] snoc(3) show ?case by (auto simp: res_fold_append)
qed (simp add: ranges_inv_def)

section \<open>Reachable samplers\<close>

inductive sampler_reachable :: "sampler_state \<Rightarrow> bool" where
  start: "sampler_reachable sampler_new"
| collect: "sampler_reachable s \<Longrightarrow> collect_ts s ts = Ok s' \<Longrightarrow> sampler_reachable s'"
| suggest: "sampler_reachable s \<Longrightarrow> suggest_duration s = Ok (d, s') \<Longrightarrow> sampler_reachable s'"
| ranges: "sampler_reachable s \<Longrightarrow> sampler_ranges s = Ok (rs, s') \<Longrightarrow> sampler_reachable s'"

definition sampler_inv :: "sampler_state \<Rightarrow> bool" where
  "sampler_inv s \<longleftrightarrow> finite (deduped_timestamps s) \<and>
     (\<forall>d. sampled_duration s = Some d \<longrightarrow>
        sorted_timestamps s = compute_sorted_timestamps s \<and> as_millis d \<in> set AVAILABLE_DURATIONS)"

lemma default_duration_available: "as_millis DEFAULT_SEGMENT_DURATION \<in> set AVAILABLE_DURATIONS"
  by (simp add: DEFAULT_SEGMENT_DURATION_def AVAILABLE_DURATIONS_def)

lemma suggest_duration_inv:
  assumes "sampler_inv s" and "suggest_duration s = Ok (d, s')"
  shows "sampler_inv s'" and "sampled_duration s' = Some d" and "deduped_timestamps s' = deduped_timestamps s"
proof -
  have "as_millis (pick_duration i) \<in> set AVAILABLE_DURATIONS" for i using pick_duration_available [of i] by auto
  then have "sampler_inv s' \<and> sampled_duration s' = Some d \<and> deduped_timestamps s' = deduped_timestamps s"
    using assms default_duration_available
    by (auto simp: suggest_duration_def sampler_inv_def compute_sorted_timestamps_def Let_def result_simps
        split: option.splits)
  then show "sampler_inv s'" and "sampled_duration s' = Some d" and "deduped_timestamps s' = deduped_timestamps s"
    by simp_all
qed

lemma sampler_reachable_inv: "sampler_reachable s \<Longrightarrow> sampler_inv s"
proof (induction rule: sampler_reachable.induct)
  case start
  show ?case by (simp add: sampler_inv_def sampler_new_def)
next
  case (collect s ts s')
  then show ?case by (auto simp: collect_ts_def clear_cache_def sampler_inv_def split: if_splits)
next
  case (suggest s d s')
  then show ?case using suggest_duration_inv by blast
next
  case (ranges s rs s')
  then show ?case using suggest_duration_inv(1) by (auto simp: sampler_ranges_def result_simps split: prod.splits)
qed

lemma available_bounds: "du \<in> set AVAILABLE_DURATIONS \<Longrightarrow> 0 < du \<and> du < 2 ^ 40"
  by (auto simp: AVAILABLE_DURATIONS_def)

lemma bucket_of_available:
  assumes "as_millis d \<in> set AVAILABLE_DURATIONS" and "- (2 ^ 62) \<le> t" and "t < 2 ^ 62"
  shows "bucket_of t d = Ok (Some (bucket (int (as_millis d)) t))"
proof -
  have ms: "0 < int (as_millis d)" "int (as_millis d) < 2 ^ 40" using available_bounds [OF assms(1)] by simp_all
  then have "bucket_fits t (int (as_millis d))"
    using floor_bounds(1) [OF ms(1), of t] assms(2,3) unfolding bucket_fits_def by simp
  moreover have "in_i64 t" using assms(2,3) by (simp add: in_i64_def)
  ultimately show ?thesis by (simp add: bucket_of_eq bucket_def Let_def)
qed

lemma suggest_duration_Ok:
  assumes "sampler_inv s" and "\<forall>t \<in> deduped_timestamps s. - (2 ^ 62) \<le> t \<and> t < 2 ^ 62"
  shows "\<exists>d s'. suggest_duration s = Ok (d, s')"
proof -
  have "sorted_wrt (<) (compute_sorted_timestamps s)" "set (compute_sorted_timestamps s) = deduped_timestamps s"
    using assms(1) by (simp_all add: compute_sorted_timestamps_def sampler_inv_def strict_sorted_list_of_set)
  then obtain i where "evaluate_interval (compute_sorted_timestamps s) = Ok i"
    using evaluate_interval_Ok assms(2) by blast
  then show ?thesis by (cases "sampled_duration s") (simp_all add: suggest_duration_def Let_def)
qed

section \<open>Properties\<close>

text \<open>
  C36. The time ranges of a sampler, whatever was collected before and whether or not the duration was
  cached: \<open>ranges\<close> does not panic for timestamps of at most 62 bits, every collected timestamp is in
  a range, every range holds a collected timestamp and spans one of the available durations, and the
  ranges are ordered and disjoint.\<close>

theorem sampler_ranges_cover:
  assumes "sampler_reachable s" and "\<forall>t \<in> deduped_timestamps s. - (2 ^ 62) \<le> t \<and> t < 2 ^ 62"
  shows "\<exists>rs s'. sampler_ranges s = Ok (rs, s') \<and>
    (\<forall>t \<in> deduped_timestamps s. \<exists>r \<in> set rs. t \<in> range_set r) \<and>
    (\<forall>r \<in> set rs. (\<exists>t \<in> deduped_timestamps s. t \<in> range_set r) \<and>
       nat (exclusive_end r - inclusive_start r) \<in> set AVAILABLE_DURATIONS) \<and>
    sorted_wrt (\<lambda>r r'. exclusive_end r \<le> inclusive_start r') rs"
proof -
  note inv = sampler_reachable_inv [OF assms(1)]
  obtain d s' where d: "suggest_duration s = Ok (d, s')" using suggest_duration_Ok [OF inv assms(2)] by blast
  note s' = suggest_duration_inv [OF inv d]
  let ?ms = "int (as_millis d)"
  have av: "as_millis d \<in> set AVAILABLE_DURATIONS" and ts: "sorted_timestamps s' = compute_sorted_timestamps s'"
    using s'(1,2) by (simp_all add: sampler_inv_def)
  have ms: "0 < ?ms" using available_bounds [OF av] by simp
  have sorted: "sorted_wrt (<) (sorted_timestamps s')" and set: "set (sorted_timestamps s') = deduped_timestamps s"
    using s' by (simp_all add: ts compute_sorted_timestamps_def sampler_inv_def strict_sorted_list_of_set)
  obtain rs where rs: "res_fold (push_range d) (sorted_timestamps s') [] = Ok rs"
    and "ranges_inv ?ms (sorted_timestamps s') rs"
    using push_ranges [OF ms sorted, of d] bucket_of_available [OF av] assms(2) set by blast
  then have ri: "set rs = bucket ?ms ` deduped_timestamps s" "sorted_wrt (\<lambda>r r'. exclusive_end r \<le> inclusive_start r') rs"
    using set by (simp_all add: ranges_inv_def)
  have "t \<in> range_set (bucket ?ms t)" for t using bucket_iff [OF ms] by simp
  moreover have "nat (exclusive_end (bucket ?ms t) - inclusive_start (bucket ?ms t)) = as_millis d" for t
    by (simp add: bucket_def)
  moreover have "sampler_ranges s = Ok (rs, s')" using d rs by (simp add: sampler_ranges_def)
  ultimately show ?thesis using ri av by (intro exI [of _ rs] exI [of _ s']) auto
qed

theorem sampler_ranges_cover_witness:
  "\<exists>rs s'. sampler_ranges (clear_cache (sampler_new\<lparr>deduped_timestamps := {5}\<rparr>)) = Ok (rs, s') \<and>
     (\<exists>r \<in> set rs. 5 \<in> range_set r)"
proof -
  have "collect_ts sampler_new 5 = Ok (clear_cache (sampler_new\<lparr>deduped_timestamps := {5}\<rparr>))"
    by (simp add: collect_ts_def MAX_TIMESTAMP_MS_FOR_DURATION_def AVAILABLE_DURATIONS_def sampler_new_def)
  then have "sampler_reachable (clear_cache (sampler_new\<lparr>deduped_timestamps := {5}\<rparr>))"
    by (rule sampler_reachable.collect [OF sampler_reachable.start])
  from sampler_ranges_cover [OF this] show ?thesis by (auto simp: clear_cache_def)
qed






end
