(* ===== verification/Btree.thy ===== *)
theory Btree
  imports Prelude
begin

text \<open>
  Ordered maps: the operations of \<^verbatim>\<open>std::collections::BTreeMap\<close> that the engine uses, on
  association lists that are strictly sorted by key, so that iteration is the list itself.  The
  laws a client relies on are the locale \<open>ordered_map\<close>; the lists are an interpretation of it.
\<close>

type_synonym ('k, 'v) btree = "('k \<times> 'v) list"

definition bt_wf :: "('k::linorder, 'v) btree \<Rightarrow> bool" where
  "bt_wf m \<longleftrightarrow> sorted_wrt (<) (map fst m)"

fun bt_insert :: "'k::linorder \<Rightarrow> 'v \<Rightarrow> ('k, 'v) btree \<Rightarrow> ('k, 'v) btree" where
  "bt_insert k v [] = [(k, v)]"
| "bt_insert k v ((k', v') # m) =
     (if k < k' then (k, v) # (k', v') # m
      else if k = k' then (k, v) # m
      else (k', v') # bt_insert k v m)"

definition bt_remove :: "'k \<Rightarrow> ('k, 'v) btree \<Rightarrow> ('k, 'v) btree" where
  "bt_remove k m = filter (\<lambda>(k', _). k' \<noteq> k) m"

definition bt_get :: "('k, 'v) btree \<Rightarrow> 'k \<Rightarrow> 'v option" where
  "bt_get m k = map_of m k"

text \<open>\<open>range(k..)\<close>, \<open>split_off\<close> and \<open>retain\<close>\<close>

definition bt_range_from :: "'k::linorder \<Rightarrow> ('k, 'v) btree \<Rightarrow> ('k, 'v) btree" where
  "bt_range_from k m = filter (\<lambda>(k', _). k \<le> k') m"

text \<open>\<open>entry(k).or_insert_with(Vec::new).push(v)\<close>\<close>

definition bt_push :: "'k::linorder \<Rightarrow> 'v \<Rightarrow> ('k, 'v list) btree \<Rightarrow> ('k, 'v list) btree" where
  "bt_push k v m = bt_insert k ((case bt_get m k of Some vs \<Rightarrow> vs | None \<Rightarrow> []) @ [v]) m"

abbreviation bt_keys :: "('k, 'v) btree \<Rightarrow> 'k list" where
  "bt_keys m \<equiv> map fst m"

abbreviation bt_values :: "('k, 'v) btree \<Rightarrow> 'v list" where
  "bt_values m \<equiv> map snd m"

section \<open>The contract of an ordered map\<close>

locale ordered_map =
  fixes empty :: 'm
    and insert :: "'k::linorder \<Rightarrow> 'v \<Rightarrow> 'm \<Rightarrow> 'm"
    and remove :: "'k \<Rightarrow> 'm \<Rightarrow> 'm"
    and get :: "'m \<Rightarrow> 'k \<Rightarrow> 'v option"
    and entries :: "'m \<Rightarrow> ('k \<times> 'v) list"
    and invar :: "'m \<Rightarrow> bool"
  assumes get_empty: "get empty k = None"
    and get_insert: "invar m \<Longrightarrow> get (insert k v m) j = (if j = k then Some v else get m j)"
    and get_remove: "invar m \<Longrightarrow> get (remove k m) j = (if j = k then None else get m j)"
    and invar_empty: "invar empty"
    and invar_insert: "invar m \<Longrightarrow> invar (insert k v m)"
    and invar_remove: "invar m \<Longrightarrow> invar (remove k m)"
    and entries_get: "invar m \<Longrightarrow> (k, v) \<in> set (entries m) \<longleftrightarrow> get m k = Some v"
    and entries_sorted: "invar m \<Longrightarrow> sorted_wrt (<) (map fst (entries m))"
begin

text \<open>Building a map from a list of insertions: the last insertion of a key wins.\<close>

definition insert_all :: "('k \<times> 'v) list \<Rightarrow> 'm \<Rightarrow> 'm" where
  "insert_all kvs m = fold (\<lambda>(k, v). insert k v) kvs m"

lemma invar_insert_all: "invar m \<Longrightarrow> invar (insert_all kvs m)"
  unfolding insert_all_def by (induction kvs arbitrary: m) (auto simp: invar_insert)

lemma get_insert_all: "invar m \<Longrightarrow> get (insert_all kvs m) k =
    (case map_of (rev kvs) k of Some v \<Rightarrow> Some v | None \<Rightarrow> get m k)"
proof (induction kvs arbitrary: m)
  case (Cons kv kvs)
  obtain j v where kv: "kv = (j, v)" by (cases kv)
  have "insert_all (kv # kvs) m = insert_all kvs (insert j v m)" by (simp add: insert_all_def kv)
  with Cons kv show ?case
    by (auto simp: invar_insert get_insert map_add_def split: option.splits)
qed (simp add: insert_all_def)

text \<open>Two maps with the same contents iterate in the same way.\<close>

lemma entries_ext:
  assumes "invar m" and "invar n" and "\<And>k. get m k = get n k"
  shows "entries m = entries n"
proof -
  have set: "set (entries m) = set (entries n)"
    using entries_get [OF assms(1)] entries_get [OF assms(2)] assms(3) by auto
  then have keys: "map fst (entries m) = map fst (entries n)"
    using entries_sorted [OF assms(1)] entries_sorted [OF assms(2)]
    by (metis list.set_map sorted_list_of_set.idem_if_sorted_distinct strict_sorted_iff)
  have dist: "distinct (map fst (entries n))" using entries_sorted [OF assms(2)] strict_sorted_iff by blast
  show ?thesis
  proof (rule nth_equalityI)
    show len: "length (entries m) = length (entries n)" using keys map_eq_imp_length_eq by blast
    fix i assume i: "i < length (entries m)"
    then have "entries m ! i \<in> set (entries n)" "fst (entries m ! i) = fst (entries n ! i)"
      using set keys len by (metis nth_mem, metis nth_map)
    moreover have "entries n ! i \<in> set (entries n)" using i len by simp
    ultimately show "entries m ! i = entries n ! i"
      using dist by (metis eq_key_imp_eq_value prod.collapse)
  qed
qed

end

section \<open>Sorted association lists\<close>

lemma bt_get_range_from: "bt_get (bt_range_from k m) j = (if k \<le> j then bt_get m j else None)"
  by (induction m) (auto simp: bt_get_def bt_range_from_def)

lemma bt_wf_range_from: "bt_wf m \<Longrightarrow> bt_wf (bt_range_from k m)"
  by (simp add: bt_wf_def bt_range_from_def sorted_wrt_map sorted_wrt_filter)

lemma bt_insert_append:
  assumes "\<forall>e \<in> set A. fst e < k" and "\<forall>e \<in> set B. k < fst e"
  shows "bt_insert k v (A @ B) = A @ (k, v) # B"
  using assms
proof (induction A)
  case Nil
  then show ?case by (cases B) auto
qed auto

lemma set_bt_insert_keys: "set (bt_keys (bt_insert k v m)) = Set.insert k (set (bt_keys m))"
proof (induction m)
  case (Cons e m)
  then show ?case by (cases e) (simp add: insert_commute)
qed simp

lemma bt_wf_insert: "bt_wf m \<Longrightarrow> bt_wf (bt_insert k v m)"
proof (induction m)
  case (Cons e m)
  then show ?case
    using set_bt_insert_keys [of k v m] by (cases e) (auto simp: bt_wf_def)
qed (simp add: bt_wf_def)

lemma bt_wf_Nil [simp]: "bt_wf []"
  by (simp add: bt_wf_def)

lemma bt_wf_filter: "bt_wf m \<Longrightarrow> bt_wf (filter P m)"
  by (induction m) (auto simp: bt_wf_def)

lemma bt_wf_distinct: "bt_wf m \<Longrightarrow> distinct (bt_keys m)"
  by (simp add: bt_wf_def strict_sorted_iff)

lemma bt_get_Nil [simp]: "bt_get [] k = None"
  by (simp add: bt_get_def)

lemma bt_get_insert: "bt_get (bt_insert k v m) j = (if j = k then Some v else bt_get m j)"
  by (induction m) (auto simp: bt_get_def)

lemma bt_get_remove: "bt_get (bt_remove k m) j = (if j = k then None else bt_get m j)"
  by (induction m) (auto simp: bt_get_def bt_remove_def)

lemma bt_get_Some_iff: "bt_wf m \<Longrightarrow> bt_get m k = Some v \<longleftrightarrow> (k, v) \<in> set m"
  by (simp add: bt_get_def bt_wf_distinct)

lemma bt_get_None_iff: "bt_get m k = None \<longleftrightarrow> k \<notin> set (bt_keys m)"
  by (simp add: bt_get_def map_of_eq_None_iff)

interpretation bt: ordered_map "[]" bt_insert bt_remove bt_get "\<lambda>m. m" bt_wf
  by unfold_locales
    (auto simp: bt_get_insert bt_get_remove bt_wf_insert bt_get_Some_iff bt_wf_def [symmetric],
     auto simp: bt_remove_def bt_wf_filter)

lemma set_bt_insert:
  "bt_wf m \<Longrightarrow> set (bt_insert k v m) = Set.insert (k, v) {e \<in> set m. fst e \<noteq> k}"
  using bt_wf_insert [of m k v] by (auto simp: bt_get_Some_iff [symmetric] bt_get_insert split: if_splits)

lemma set_bt_remove: "set (bt_remove k m) = {e \<in> set m. fst e \<noteq> k}"
  by (auto simp: bt_remove_def)

lemma bt_wf_remove: "bt_wf m \<Longrightarrow> bt_wf (bt_remove k m)"
  by (simp add: bt_remove_def bt_wf_filter)

lemma bt_wf_push: "bt_wf m \<Longrightarrow> bt_wf (bt_push k v m)"
  by (simp add: bt_push_def bt_wf_insert)

lemma bt_get_push:
  "bt_get (bt_push k v m) j =
     (if j = k then Some ((case bt_get m k of Some vs \<Rightarrow> vs | None \<Rightarrow> []) @ [v]) else bt_get m j)"
  by (simp add: bt_push_def bt_get_insert)

text \<open>Grouping a list by a key: every group is the sublist of the elements with that key.\<close>

lemma bt_get_group:
  "bt_get (fold (\<lambda>x. bt_push (f x) x) xs m) k =
     (case filter (\<lambda>x. f x = k) xs of
        [] \<Rightarrow> bt_get m k
      | ys \<Rightarrow> Some ((case bt_get m k of Some vs \<Rightarrow> vs | None \<Rightarrow> []) @ ys))"
  by (induction xs arbitrary: m) (auto simp: bt_get_push split: option.splits list.splits)

lemma bt_wf_group: "bt_wf m \<Longrightarrow> bt_wf (fold (\<lambda>x. bt_push (f x) x) xs m)"
  by (induction xs arbitrary: m) (auto simp: bt_wf_push)


text \<open>A relation between the keys and the elements of their groups, and that pushing keeps it.\<close>

definition groups_ok :: "('k::linorder \<Rightarrow> 'v \<Rightarrow> bool) \<Rightarrow> ('k, 'v list) btree \<Rightarrow> bool" where
  "groups_ok P m \<longleftrightarrow> bt_wf m \<and> (\<forall>(k, xs) \<in> set m. \<forall>x \<in> set xs. P k x)"

lemma groups_ok_Nil [simp]: "groups_ok P []"
  by (simp add: groups_ok_def)

lemma groups_ok_wf: "groups_ok P m \<Longrightarrow> bt_wf m"
  by (simp add: groups_ok_def)

lemma groups_okD: "groups_ok P m \<Longrightarrow> (k, xs) \<in> set m \<Longrightarrow> x \<in> set xs \<Longrightarrow> P k x"
  by (auto simp: groups_ok_def)

lemma groups_ok_push:
  assumes "groups_ok P m" and "P k x"
  shows "groups_ok P (bt_push k x m)"
proof -
  have m: "bt_wf m" "\<forall>(k, xs) \<in> set m. \<forall>x \<in> set xs. P k x" using assms(1) by (simp_all add: groups_ok_def)
  have wf: "bt_wf (bt_push k x m)" using m(1) by (rule bt_wf_push)
  have "\<forall>y \<in> set ys. P j y" if ys: "bt_get (bt_push k x m) j = Some ys" for j ys
  proof (cases "j = k")
    case True
    have "\<forall>y \<in> set vs. P k y" if "bt_get m k = Some vs" for vs
      using that m by (auto simp: bt_get_Some_iff)
    with True ys assms(2) show ?thesis by (auto simp: bt_get_push split: option.splits)
  next
    case False
    with ys have "(j, ys) \<in> set m" using m(1) by (simp add: bt_get_push bt_get_Some_iff)
    then show ?thesis using m(2) by auto
  qed
  then have "\<forall>(k, xs) \<in> set (bt_push k x m). \<forall>x \<in> set xs. P k x"
    using bt_get_Some_iff [OF wf] by auto
  with wf show ?thesis by (simp add: groups_ok_def)
qed

end
