(* ===== verification/Sst_File.thy ===== *)
theory Sst_File
  imports Btree Time_Range "HOL-Library.Product_Lexorder"
begin

text \<open>
  The files of a table and the levels they are in (\<^verbatim>\<open>analytic_engine/src/sst/file.rs\<close>,
  \<^verbatim>\<open>sst/manager.rs\<close> and \<^verbatim>\<open>table/sst_util.rs\<close>).  A \<open>FileHandle\<close> is a shared pointer to a file's
  immutable meta data and a flag: the pointer is an address, the flags are in a heap that all holders
  of a handle share.
\<close>

type_synonym file_id = nat
type_synonym space_id = nat
type_synonym table_id = nat
type_synonym sequence_number = nat
type_synonym level = nat

datatype storage_format = Columnar | Hybrid

record file_meta =
  fm_id :: file_id
  fm_size :: nat
  fm_row_num :: nat
  fm_time_range :: time_range
  fm_max_seq :: sequence_number
  fm_storage_format :: storage_format

definition intersect_with_time_range :: "file_meta \<Rightarrow> time_range \<Rightarrow> bool" where
  "intersect_with_time_range m r = intersect_with (fm_time_range m) r"

section \<open>Handles\<close>

record file_handle =
  fh_addr :: nat
  fh_meta :: file_meta

record arc_heap =
  next_addr :: nat
  compacted_flags :: "nat \<Rightarrow> bool"

abbreviation fh_id :: "file_handle \<Rightarrow> file_id" where "fh_id f \<equiv> fm_id (fh_meta f)"
abbreviation fh_size :: "file_handle \<Rightarrow> nat" where "fh_size f \<equiv> fm_size (fh_meta f)"
abbreviation fh_time_range :: "file_handle \<Rightarrow> time_range" where "fh_time_range f \<equiv> fm_time_range (fh_meta f)"
abbreviation fh_max_seq :: "file_handle \<Rightarrow> nat" where "fh_max_seq f \<equiv> fm_max_seq (fh_meta f)"

definition file_handle_new :: "arc_heap \<Rightarrow> file_meta \<Rightarrow> file_handle \<times> arc_heap" where
  "file_handle_new h m =
     (\<lparr>fh_addr = next_addr h, fh_meta = m\<rparr>,
      h\<lparr>next_addr := next_addr h + 1, compacted_flags := (compacted_flags h)(next_addr h := False)\<rparr>)"

definition being_compacted :: "arc_heap \<Rightarrow> file_handle \<Rightarrow> bool" where
  "being_compacted h f = compacted_flags h (fh_addr f)"

definition set_being_compacted :: "file_handle \<Rightarrow> bool \<Rightarrow> arc_heap \<Rightarrow> arc_heap" where
  "set_being_compacted f b h = h\<lparr>compacted_flags := (compacted_flags h)(fh_addr f := b)\<rparr>"

text \<open>\<open>PartialEq\<close> of handles compares the file ids.\<close>

definition file_handle_eq :: "file_handle \<Rightarrow> file_handle \<Rightarrow> bool" where
  "file_handle_eq f g \<longleftrightarrow> fh_id f = fh_id g"

section \<open>A set of handles\<close>

text \<open>\<open>FileOrdKey\<close>: end time, start time, file id, compared in this order.\<close>

type_synonym file_ord_key = "timestamp \<times> timestamp \<times> file_id"

definition for_seek :: "timestamp \<Rightarrow> file_ord_key" where
  "for_seek e = (e, i64_min, 0)"

definition key_of :: "file_handle \<Rightarrow> file_ord_key" where
  "key_of f = (exclusive_end (fh_time_range f), inclusive_start (fh_time_range f), fh_id f)"

record file_handle_set =
  file_map :: "(file_ord_key, file_handle) btree"
  id_to_files :: "file_id \<Rightarrow> file_handle option"

definition fhs_empty :: file_handle_set where
  "fhs_empty = \<lparr>file_map = [], id_to_files = Map.empty\<rparr>"

definition fhs_files :: "file_handle_set \<Rightarrow> file_handle list" where
  "fhs_files s = bt_values (file_map s)"

definition fhs_latest :: "file_handle_set \<Rightarrow> file_handle option" where
  "fhs_latest s = (if fhs_files s = [] then None else Some (last (fhs_files s)))"

definition files_by_time_range :: "file_handle_set \<Rightarrow> time_range \<Rightarrow> file_handle list" where
  "files_by_time_range s r =
     filter (\<lambda>f. intersect_with_time_range (fh_meta f) r)
       (bt_values (bt_range_from (for_seek (inclusive_start r)) (file_map s)))"

text \<open>Inserting into the \<open>HashSet\<close> keeps an element that is equal, that is, one with the same id.\<close>

definition fhs_insert :: "file_handle_set \<Rightarrow> file_handle \<Rightarrow> file_handle_set" where
  "fhs_insert s f =
     s\<lparr>file_map := bt_insert (key_of f) f (file_map s),
       id_to_files := (case id_to_files s (fh_id f) of
                         Some _ \<Rightarrow> id_to_files s
                       | None \<Rightarrow> (id_to_files s)(fh_id f \<mapsto> f))\<rparr>"

definition fhs_remove_id :: "file_id \<Rightarrow> file_handle_set \<Rightarrow> file_handle_set" where
  "fhs_remove_id i s =
     (case id_to_files s i of
        Some f \<Rightarrow> s\<lparr>file_map := bt_remove (key_of f) (file_map s), id_to_files := (id_to_files s)(i := None)\<rparr>
      | None \<Rightarrow> s)"

definition remove_by_ids :: "file_handle_set \<Rightarrow> file_id list \<Rightarrow> file_handle_set" where
  "remove_by_ids s ids = fold fhs_remove_id ids s"

text \<open>The loop stops at the first file that is not expired.\<close>

definition fhs_collect_expired :: "file_handle_set \<Rightarrow> timestamp option \<Rightarrow> file_handle list \<Rightarrow> file_handle list" where
  "fhs_collect_expired s expire expired_files =
     expired_files @ takeWhile (\<lambda>f. range_is_expired (fh_time_range f) expire) (fhs_files s)"

definition fhs_has_expired_sst :: "file_handle_set \<Rightarrow> timestamp option \<Rightarrow> bool" where
  "fhs_has_expired_sst s expire =
     (case fhs_files s of f # _ \<Rightarrow> range_is_expired (fh_time_range f) expire | [] \<Rightarrow> False)"

section \<open>The purge queue\<close>

datatype purge_request = Purge space_id table_id file_id | Exit

record purge_queue =
  pq_space_id :: space_id
  pq_table_id :: table_id
  pq_closed :: bool

definition purge_queue_new :: "space_id \<Rightarrow> table_id \<Rightarrow> purge_queue" where
  "purge_queue_new sp tb = \<lparr>pq_space_id = sp, pq_table_id = tb, pq_closed = False\<rparr>"

text \<open>
  The flag is an atomic that all clones of the queue share; the model has one copy of the queue, and
  \<open>purge_queue_close\<close> returns the queue as every clone sees it afterwards.
\<close>

definition purge_queue_close :: "purge_queue \<Rightarrow> purge_queue" where
  "purge_queue_close q = q\<lparr>pq_closed := True\<rparr>"

text \<open>The channel to the purger is the list of the requests sent.\<close>

definition push_file :: "purge_queue \<Rightarrow> file_id \<Rightarrow> purge_request list \<Rightarrow> purge_request list" where
  "push_file q i channel =
     (if pq_closed q then channel else channel @ [Purge (pq_space_id q) (pq_table_id q) i])"

text \<open>\<open>{id}.sst\<close> below the directories of the space and the table\<close>

fun show_nat :: "nat \<Rightarrow> string" where
  "show_nat n = (if n < 10 then [char_of (48 + n)] else show_nat (n div 10) @ [char_of (48 + n mod 10)])"

declare show_nat.simps [simp del]

definition sst_file_name :: "file_id \<Rightarrow> string" where
  "sst_file_name i = show_nat i @ ''.sst''"

definition new_sst_file_path :: "space_id \<Rightarrow> table_id \<Rightarrow> file_id \<Rightarrow> string list" where
  "new_sst_file_path sp tb i = [show_nat sp, show_nat tb, sst_file_name i]"

text \<open>The purger deletes what the requests name, until \<open>Exit\<close>; a failing delete is only logged.\<close>

fun purge_file_loop :: "(string list \<Rightarrow> bool) \<Rightarrow> purge_request list \<Rightarrow> string list set \<Rightarrow> string list set" where
  "purge_file_loop delete_ok [] store = store"
| "purge_file_loop delete_ok (Exit # requests) store = store"
| "purge_file_loop delete_ok (Purge sp tb i # requests) store =
     (let path = new_sst_file_path sp tb i
      in purge_file_loop delete_ok requests (if delete_ok path then store - {path} else store))"

section \<open>Levels\<close>

definition level_next :: "level \<Rightarrow> level" where
  "level_next l = min 1 (l + 1)"

record level_handler =
  lh_level :: level
  lh_files :: file_handle_set

record levels_controller =
  lc_levels :: "level_handler list"
  lc_purge_queue :: purge_queue

definition levels_controller_new :: "purge_queue \<Rightarrow> levels_controller" where
  "levels_controller_new q =
     \<lparr>lc_levels = map (\<lambda>v. \<lparr>lh_level = v, lh_files = fhs_empty\<rparr>) [0..<2], lc_purge_queue = q\<rparr>"

definition add_sst_to_level ::
    "arc_heap \<Rightarrow> levels_controller \<Rightarrow> level \<Rightarrow> file_meta \<Rightarrow> ('e, arc_heap \<times> levels_controller) result" where
  "add_sst_to_level h lc l m =
     res_bind (index_res (lc_levels lc) l) (\<lambda>lh.
       let (f, h) = file_handle_new h m
       in Ok (h, lc\<lparr>lc_levels := (lc_levels lc)[l := lh\<lparr>lh_files := fhs_insert (lh_files lh) f\<rparr>]\<rparr>))"

definition remove_ssts_from_level :: "levels_controller \<Rightarrow> level \<Rightarrow> file_id list \<Rightarrow> ('e, levels_controller) result" where
  "remove_ssts_from_level lc l ids =
     res_bind (index_res (lc_levels lc) l) (\<lambda>lh.
       Ok (lc\<lparr>lc_levels := (lc_levels lc)[l := lh\<lparr>lh_files := remove_by_ids (lh_files lh) ids\<rparr>]\<rparr>))"

definition latest_sst :: "levels_controller \<Rightarrow> level \<Rightarrow> ('e, file_handle option) result" where
  "latest_sst lc l = res_bind (index_res (lc_levels lc) l) (\<lambda>lh. Ok (fhs_latest (lh_files lh)))"

definition lc_pick_ssts :: "levels_controller \<Rightarrow> time_range \<Rightarrow> (level \<times> file_handle list) list" where
  "lc_pick_ssts lc r = map (\<lambda>lh. (lh_level lh, files_by_time_range (lh_files lh) r)) (lc_levels lc)"

definition lc_level_list :: "levels_controller \<Rightarrow> level list" where
  "lc_level_list lc = map lh_level (lc_levels lc)"

definition iter_ssts_at_level :: "levels_controller \<Rightarrow> level \<Rightarrow> ('e, file_handle list) result" where
  "iter_ssts_at_level lc l = res_bind (index_res (lc_levels lc) l) (\<lambda>lh. Ok (fhs_files (lh_files lh)))"

definition collect_expired_at_level :: "levels_controller \<Rightarrow> level \<Rightarrow> timestamp option \<Rightarrow> ('e, file_handle list) result" where
  "collect_expired_at_level lc l expire =
     res_bind (index_res (lc_levels lc) l) (\<lambda>lh. Ok (fhs_collect_expired (lh_files lh) expire []))"

definition has_expired_sst :: "levels_controller \<Rightarrow> timestamp option \<Rightarrow> bool" where
  "has_expired_sst lc expire = list_ex (\<lambda>lh. fhs_has_expired_sst (lh_files lh) expire) (lc_levels lc)"

record expired_files =
  ef_level :: level
  ef_files :: "file_handle list"

definition expired_ssts :: "levels_controller \<Rightarrow> timestamp option \<Rightarrow> ('e, expired_files list) result" where
  "expired_ssts lc expire =
     res_fold (\<lambda>l acc. res_bind (collect_expired_at_level lc l expire) (\<lambda>files.
         Ok (acc @ [\<lparr>ef_level = l, ef_files = files\<rparr>])))
       (lc_level_list lc) []"

section \<open>The two indexes of a handle set agree\<close>

definition fhs_wf :: "file_handle_set \<Rightarrow> bool" where
  "fhs_wf s \<longleftrightarrow>
     bt_wf (file_map s) \<and> (\<forall>(k, f) \<in> set (file_map s). k = key_of f \<and> range_wf (fh_time_range f)) \<and>
     (\<forall>i f. id_to_files s i = Some f \<longleftrightarrow> f \<in> set (fhs_files s) \<and> fh_id f = i)"

lemma fhs_wf_map:
  assumes "fhs_wf s"
  shows "file_map s = map (\<lambda>f. (key_of f, f)) (fhs_files s)"
proof -
  have "(key_of (snd e), snd e) = e" if "e \<in> set (file_map s)" for e
    using assms that by (cases e) (auto simp: fhs_wf_def)
  then show ?thesis by (simp add: fhs_files_def o_def map_idI)
qed

lemma fhs_wf_sorted:
  assumes "fhs_wf s"
  shows "sorted_wrt (\<lambda>f g. key_of f < key_of g) (fhs_files s)"
proof -
  have "bt_wf (file_map s)" using assms by (simp only: fhs_wf_def)
  then show ?thesis unfolding fhs_wf_map [OF assms] by (simp add: bt_wf_def sorted_wrt_map o_def)
qed

lemma fhs_wf_files_distinct: "fhs_wf s \<Longrightarrow> distinct (fhs_files s)"
proof -
  have "sorted_wrt (\<lambda>f g. key_of f < key_of g) fs \<Longrightarrow> distinct fs" for fs by (induction fs) auto
  then show "fhs_wf s \<Longrightarrow> distinct (fhs_files s)" using fhs_wf_sorted by blast
qed

lemma fhs_wf_range: "fhs_wf s \<Longrightarrow> f \<in> set (fhs_files s) \<Longrightarrow> range_wf (fh_time_range f)"
  by (auto simp: fhs_wf_def fhs_files_def)

lemma fhs_wf_id: "fhs_wf s \<Longrightarrow> f \<in> set (fhs_files s) \<Longrightarrow> id_to_files s (fh_id f) = Some f"
  by (simp add: fhs_wf_def)

lemma fhs_wf_empty: "fhs_wf fhs_empty"
  by (simp add: fhs_wf_def fhs_empty_def fhs_files_def)

lemma fhs_insert:
  assumes "fhs_wf s" and "id_to_files s (fh_id f) = None" and "range_wf (fh_time_range f)"
  shows "fhs_wf (fhs_insert s f)" and "set (fhs_files (fhs_insert s f)) = insert f (set (fhs_files s))"
    and "id_to_files (fhs_insert s f) = (id_to_files s)(fh_id f \<mapsto> f)"
proof -
  have wf: "bt_wf (file_map s)" and keys: "\<forall>(k, g) \<in> set (file_map s). k = key_of g \<and> range_wf (fh_time_range g)"
    using assms(1) by (simp_all add: fhs_wf_def)
  have ne: "fst e \<noteq> key_of f" if "e \<in> set (file_map s)" for e
  proof
    assume "fst e = key_of f"
    then have "fh_id f = fh_id (snd e)" using keys that by (auto simp: key_of_def)
    moreover have "snd e \<in> set (fhs_files s)" using that by (simp add: fhs_files_def)
    ultimately show False using fhs_wf_id [OF assms(1), of "snd e"] assms(2) by simp
  qed
  have "{e \<in> set (file_map s). fst e \<noteq> key_of f} = set (file_map s)"
    by (intro equalityI subsetI CollectI conjI) (simp_all only: ne mem_Collect_eq not_False_eq_True simp_thms)
  then have set: "set (file_map (fhs_insert s f)) = insert (key_of f, f) (set (file_map s))"
    using set_bt_insert [OF wf, of "key_of f" f] by (simp add: fhs_insert_def)
  then show files: "set (fhs_files (fhs_insert s f)) = insert f (set (fhs_files s))"
    by (auto simp: fhs_files_def)
  show ids: "id_to_files (fhs_insert s f) = (id_to_files s)(fh_id f \<mapsto> f)"
    using assms(2) by (simp add: fhs_insert_def)
  have "bt_wf (file_map (fhs_insert s f))" using bt_wf_insert [OF wf] by (simp add: fhs_insert_def)
  moreover have "\<forall>(k, g) \<in> set (file_map (fhs_insert s f)). k = key_of g \<and> range_wf (fh_time_range g)"
    using keys assms(3) set by auto
  moreover have "id_to_files (fhs_insert s f) i = Some g \<longleftrightarrow> g \<in> set (fhs_files (fhs_insert s f)) \<and> fh_id g = i" for i g
  proof -
    have "id_to_files s i = Some g \<longleftrightarrow> g \<in> set (fhs_files s) \<and> fh_id g = i" using assms(1) by (simp only: fhs_wf_def)
    moreover have "f \<notin> set (fhs_files s)" using fhs_wf_id [OF assms(1), of f] assms(2) by auto
    ultimately show ?thesis using assms(2) unfolding files ids by (cases "i = fh_id f") auto
  qed
  ultimately show "fhs_wf (fhs_insert s f)" by (simp only: fhs_wf_def) blast
qed

lemma fhs_remove_id:
  assumes "fhs_wf s"
  shows "fhs_wf (fhs_remove_id i s)"
    and "set (fhs_files (fhs_remove_id i s)) = {f \<in> set (fhs_files s). fh_id f \<noteq> i}"
    and "id_to_files (fhs_remove_id i s) = (id_to_files s)(i := None)"
proof -
  have wf: "bt_wf (file_map s)" and keys: "\<forall>(k, g) \<in> set (file_map s). k = key_of g \<and> range_wf (fh_time_range g)"
    and ids: "\<And>j g. id_to_files s j = Some g \<longleftrightarrow> g \<in> set (fhs_files s) \<and> fh_id g = j"
    using assms by (simp_all add: fhs_wf_def)
  show ids': "id_to_files (fhs_remove_id i s) = (id_to_files s)(i := None)"
    by (auto simp: fhs_remove_id_def split: option.splits)
  have map: "set (file_map (fhs_remove_id i s)) = {e \<in> set (file_map s). fh_id (snd e) \<noteq> i}"
  proof (cases "id_to_files s i")
    case None
    then have "fh_id f \<noteq> i" if "f \<in> set (fhs_files s)" for f using fhs_wf_id [OF assms that] by auto
    then show ?thesis using None by (auto simp: fhs_remove_id_def fhs_files_def)
  next
    case (Some f)
    then have f: "f \<in> set (fhs_files s)" "fh_id f = i" using ids by auto
    have "fst e = key_of f \<longleftrightarrow> fh_id (snd e) = i" if "e \<in> set (file_map s)" for e
    proof -
      have "snd e \<in> set (fhs_files s)" "fst e = key_of (snd e)" using that keys by (auto simp: fhs_files_def)
      moreover have "snd e = f" if "fh_id (snd e) = i"
        using that calculation(1) Some ids by (metis option.inject)
      ultimately show ?thesis using f by (auto simp: key_of_def)
    qed
    then show ?thesis using Some by (auto simp: fhs_remove_id_def set_bt_remove)
  qed
  then show files: "set (fhs_files (fhs_remove_id i s)) = {f \<in> set (fhs_files s). fh_id f \<noteq> i}"
    by (auto simp: fhs_files_def)
  have "bt_wf (file_map (fhs_remove_id i s))"
    using wf by (auto simp: fhs_remove_id_def bt_wf_remove split: option.splits)
  moreover have "id_to_files (fhs_remove_id i s) j = Some g \<longleftrightarrow> g \<in> set (fhs_files (fhs_remove_id i s)) \<and> fh_id g = j" for j g
    using ids unfolding ids' files by auto
  ultimately show "fhs_wf (fhs_remove_id i s)" using keys map by (auto simp: fhs_wf_def)
qed

lemma remove_by_ids:
  assumes "fhs_wf s"
  shows "fhs_wf (remove_by_ids s ids)" and "id_to_files (remove_by_ids s ids) = (id_to_files s) |` (- set ids)"
    and "set (fhs_files (remove_by_ids s ids)) = {f \<in> set (fhs_files s). fh_id f \<notin> set ids}"
proof -
  have "fhs_wf (remove_by_ids s ids) \<and> id_to_files (remove_by_ids s ids) = (id_to_files s) |` (- set ids) \<and>
      set (fhs_files (remove_by_ids s ids)) = {f \<in> set (fhs_files s). fh_id f \<notin> set ids}"
    using assms
  proof (induction ids arbitrary: s)
    case (Cons i ids)
    show ?case
      using Cons.IH [OF fhs_remove_id(1) [OF Cons.prems]] fhs_remove_id(2,3) [OF Cons.prems, of i]
      by (auto simp: remove_by_ids_def restrict_map_def)
  qed (simp add: remove_by_ids_def restrict_map_def)
  then show "fhs_wf (remove_by_ids s ids)" "id_to_files (remove_by_ids s ids) = (id_to_files s) |` (- set ids)"
    "set (fhs_files (remove_by_ids s ids)) = {f \<in> set (fhs_files s). fh_id f \<notin> set ids}"
    by simp_all
qed

section \<open>Seeking and stopping early lose no file\<close>

lemma filter_range_from:
  assumes "fhs_wf s"
  shows "files_by_time_range s r = filter (\<lambda>f. intersect_with_time_range (fh_meta f) r) (fhs_files s)"
proof -
  have "key_of f \<ge> for_seek (inclusive_start r)"
    if "f \<in> set (fhs_files s)" "intersect_with_time_range (fh_meta f) r" for f
    using that fhs_wf_range [OF assms that(1)]
    by (auto simp: for_seek_def key_of_def intersect_with_time_range_def intersect_with_def not_intersecting_def
        range_wf_def in_i64_def less_eq_prod_def)
  then have "filter (\<lambda>f. intersect_with_time_range (fh_meta f) r \<and> for_seek (inclusive_start r) \<le> key_of f) (fhs_files s) =
      filter (\<lambda>f. intersect_with_time_range (fh_meta f) r) (fhs_files s)"
    by (intro filter_cong) auto
  then show ?thesis
    by (simp add: files_by_time_range_def bt_range_from_def fhs_wf_map [OF assms] filter_map o_def conj_commute)
qed

lemma takeWhile_eq_filter_sorted:
  assumes "sorted_wrt (\<lambda>x y. P y \<longrightarrow> P x) xs"
  shows "takeWhile P xs = filter P xs"
  using assms by (induction xs) (auto simp: filter_empty_conv)

lemma expired_mono:
  assumes "fhs_wf s"
  shows "sorted_wrt (\<lambda>f g. range_is_expired (fh_time_range g) e \<longrightarrow> range_is_expired (fh_time_range f) e) (fhs_files s)"
  using fhs_wf_sorted [OF assms]
  by (rule sorted_wrt_mono_rel [rotated])
    (auto simp: key_of_def range_is_expired_def less_prod_def less_eq_prod_def split: option.splits)

lemma collect_expired_filter:
  "fhs_wf s \<Longrightarrow> fhs_collect_expired s e acc = acc @ filter (\<lambda>f. range_is_expired (fh_time_range f) e) (fhs_files s)"
  using takeWhile_eq_filter_sorted [OF expired_mono] by (simp add: fhs_collect_expired_def)

lemma has_expired_iff:
  assumes "fhs_wf s"
  shows "fhs_has_expired_sst s e \<longleftrightarrow> (\<exists>f \<in> set (fhs_files s). range_is_expired (fh_time_range f) e)"
  using expired_mono [OF assms, of e] by (cases "fhs_files s") (auto simp: fhs_has_expired_sst_def)

section \<open>The levels as a map from level and id to meta data\<close>

definition lc_files :: "levels_controller \<Rightarrow> file_handle set" where
  "lc_files lc = (\<Union>lh \<in> set (lc_levels lc). set (fhs_files (lh_files lh)))"

definition lc_wf :: "arc_heap \<Rightarrow> levels_controller \<Rightarrow> bool" where
  "lc_wf h lc \<longleftrightarrow>
     length (lc_levels lc) = 2 \<and> (\<forall>l < 2. lh_level (lc_levels lc ! l) = l \<and> fhs_wf (lh_files (lc_levels lc ! l))) \<and>
     (\<forall>f \<in> lc_files lc. fh_addr f < next_addr h) \<and> inj_on fh_addr (lc_files lc)"

definition lc_abs :: "levels_controller \<Rightarrow> level \<Rightarrow> file_id \<Rightarrow> file_meta option" where
  "lc_abs lc l i =
     (if l < length (lc_levels lc) then map_option fh_meta (id_to_files (lh_files (lc_levels lc ! l)) i) else None)"

lemma lc_level_wf: "lc_wf h lc \<Longrightarrow> l < 2 \<Longrightarrow> fhs_wf (lh_files (lc_levels lc ! l))"
  by (simp add: lc_wf_def)

lemma lc_files_update:
  assumes "length (lc_levels lc) = 2" and "l < 2"
  shows "lc_files (lc\<lparr>lc_levels := (lc_levels lc)[l := lh]\<rparr>) =
    set (fhs_files (lh_files lh)) \<union> set (fhs_files (lh_files (lc_levels lc ! (1 - l))))"
proof -
  obtain a b where "lc_levels lc = [a, b]"
    using assms(1) by (auto simp: numeral_2_eq_2 length_Suc_conv)
  moreover have "l = 0 \<or> l = 1" using assms(2) by auto
  ultimately show ?thesis by (auto simp: lc_files_def)
qed

lemma lc_files_split:
  assumes "length (lc_levels lc) = 2" and "l < 2"
  shows "lc_files lc = set (fhs_files (lh_files (lc_levels lc ! l))) \<union> set (fhs_files (lh_files (lc_levels lc ! (1 - l))))"
  using lc_files_update [OF assms, of "lc_levels lc ! l"] by simp

lemma add_sst:
  assumes "lc_wf h lc" and "l < 2" and "range_wf (fm_time_range m)" and "lc_abs lc l (fm_id m) = None"
  shows "\<exists>h' lc'. add_sst_to_level h lc l m = (Ok (h', lc') :: ('e, _) result) \<and> lc_wf h' lc' \<and>
    lc_abs lc' = (lc_abs lc)(l := (lc_abs lc l)(fm_id m \<mapsto> m)) \<and>
    lc_purge_queue lc' = lc_purge_queue lc \<and>
    lc_files lc' = insert \<lparr>fh_addr = next_addr h, fh_meta = m\<rparr> (lc_files lc) \<and>
    next_addr h' = next_addr h + 1 \<and> compacted_flags h' = (compacted_flags h)(next_addr h := False)"
proof -
  let ?f = "\<lparr>fh_addr = next_addr h, fh_meta = m\<rparr>" and ?lh = "lc_levels lc ! l"
  let ?lh' = "?lh\<lparr>lh_files := fhs_insert (lh_files ?lh) ?f\<rparr>"
  let ?lc = "lc\<lparr>lc_levels := (lc_levels lc)[l := ?lh']\<rparr>"
  let ?h = "h\<lparr>next_addr := next_addr h + 1, compacted_flags := (compacted_flags h)(next_addr h := False)\<rparr>"
  have len: "length (lc_levels lc) = 2" using assms(1) by (simp add: lc_wf_def)
  have "id_to_files (lh_files ?lh) (fh_id ?f) = None" using assms(2,4) len by (simp add: lc_abs_def)
  note ins = fhs_insert [OF lc_level_wf [OF assms(1,2)] this, simplified, OF assms(3)]
  have files: "lc_files ?lc = insert ?f (lc_files lc)"
    using lc_files_update [OF len assms(2), of ?lh'] lc_files_split [OF len assms(2)] ins(2) by simp
  have addr: "fh_addr f < next_addr h" if "f \<in> lc_files lc" for f using assms(1) that by (simp add: lc_wf_def)
  then have "fh_addr ?f \<notin> fh_addr ` (lc_files lc - {?f})" by force
  moreover have "inj_on fh_addr (lc_files lc)" using assms(1) by (simp add: lc_wf_def)
  ultimately have "inj_on fh_addr (lc_files ?lc)" unfolding files inj_on_insert by simp
  moreover have "\<forall>f \<in> lc_files ?lc. fh_addr f < next_addr ?h" using addr unfolding files by (auto intro: less_SucI)
  ultimately have wf: "lc_wf ?h ?lc"
    using assms(1,2) ins(1) by (auto simp: lc_wf_def nth_list_update)
  have "lc_abs ?lc = (lc_abs lc)(l := (lc_abs lc l)(fm_id m \<mapsto> m))"
    using assms(2) len ins(3) by (auto simp: lc_abs_def fun_eq_iff nth_list_update)
  then show ?thesis
    using assms(2) len wf files
    by (intro exI [of _ ?h] exI [of _ ?lc]) (simp add: add_sst_to_level_def index_res_def file_handle_new_def)
qed

lemma remove_ssts:
  assumes "lc_wf h lc" and "l < 2"
  shows "\<exists>lc'. remove_ssts_from_level lc l ids = (Ok lc' :: ('e, _) result) \<and> lc_wf h lc' \<and>
    lc_abs lc' = (lc_abs lc)(l := (lc_abs lc l) |` (- set ids)) \<and> lc_purge_queue lc' = lc_purge_queue lc \<and>
    lc_files lc' \<subseteq> lc_files lc"
proof -
  let ?lh = "lc_levels lc ! l"
  let ?lh' = "?lh\<lparr>lh_files := remove_by_ids (lh_files ?lh) ids\<rparr>"
  let ?lc = "lc\<lparr>lc_levels := (lc_levels lc)[l := ?lh']\<rparr>"
  have len: "length (lc_levels lc) = 2" using assms(1) by (simp add: lc_wf_def)
  note rem = remove_by_ids [OF lc_level_wf [OF assms], of ids]
  have files: "lc_files ?lc \<subseteq> lc_files lc"
    using lc_files_update [OF len assms(2), of ?lh'] lc_files_split [OF len assms(2)] rem(3) by auto
  then have "inj_on fh_addr (lc_files ?lc)" "\<forall>f \<in> lc_files ?lc. fh_addr f < next_addr h"
    using assms(1) by (auto simp: lc_wf_def intro: inj_on_subset)
  then have wf: "lc_wf h ?lc"
    using assms rem(1) by (auto simp: lc_wf_def nth_list_update)
  have "lc_abs ?lc = (lc_abs lc)(l := (lc_abs lc l) |` (- set ids))"
    using assms(2) len rem(2) by (auto simp: lc_abs_def fun_eq_iff nth_list_update restrict_map_def)
  then show ?thesis
    using assms(2) len wf files
    by (intro exI [of _ ?lc]) (simp add: remove_ssts_from_level_def index_res_def)
qed

lemma lc_new_levels:
  "length (lc_levels (levels_controller_new q)) = 2"
  "l < 2 \<Longrightarrow> lc_levels (levels_controller_new q) ! l = \<lparr>lh_level = l, lh_files = fhs_empty\<rparr>"
  "lc_files (levels_controller_new q) = {}"
  by (simp_all add: levels_controller_new_def lc_files_def fhs_files_def fhs_empty_def)

lemma lc_new_wf: "lc_wf h (levels_controller_new q)"
  by (simp add: lc_wf_def lc_new_levels fhs_wf_empty)

lemma lc_new_abs: "lc_abs (levels_controller_new q) = (\<lambda>l i. None)"
  by (simp add: lc_abs_def lc_new_levels fun_eq_iff fhs_empty_def)

section \<open>Paths of files\<close>

lemma digit_inj: "a < 10 \<Longrightarrow> b < 10 \<Longrightarrow> char_of (48 + a) = (char_of (48 + b) :: char) \<longleftrightarrow> a = (b :: nat)"
proof
  assume ab: "a < 10" "b < 10" and "char_of (48 + a) = (char_of (48 + b) :: char)"
  then have "of_char (char_of (48 + a) :: char) = (of_char (char_of (48 + b) :: char) :: nat)" by simp
  with ab show "a = b" by simp
qed simp

lemma show_nat_ne [simp]: "show_nat n \<noteq> []" "[] \<noteq> show_nat n"
  by (subst show_nat.simps, simp)+

lemma show_nat_inj: "show_nat m = show_nat n \<Longrightarrow> m = n"
proof (induction m arbitrary: n rule: show_nat.induct)
  case (1 m)
  show ?case
  proof (cases "m < 10"; cases "n < 10")
    assume "\<not> m < 10" "\<not> n < 10"
    then have "show_nat (m div 10) = show_nat (n div 10)" "m mod 10 = n mod 10"
      using 1(2) by (simp_all add: show_nat.simps [of m] show_nat.simps [of n] digit_inj)
    then have "m div 10 = n div 10" using 1(1) \<open>\<not> m < 10\<close> by blast
    with \<open>m mod 10 = n mod 10\<close> show ?thesis by (metis div_mult_mod_eq)
  qed (use 1(2) in \<open>auto simp: show_nat.simps [of m] show_nat.simps [of n] digit_inj\<close>)
qed

lemma sst_path_inj: "new_sst_file_path sp tb i = new_sst_file_path sp' tb' i' \<longleftrightarrow> sp = sp' \<and> tb = tb' \<and> i = i'"
  by (auto simp: new_sst_file_path_def sst_file_name_def dest: show_nat_inj)

section \<open>Runs of the levels controller\<close>

text \<open>
  A controller built by the engine's calls, together with the abstract map that the calls describe:
  a new file goes to a level that does not have its id, removals name the ids, and the flags of
  handles may change in between.
\<close>

inductive lc_run :: "arc_heap \<Rightarrow> levels_controller \<Rightarrow> (level \<Rightarrow> file_id \<Rightarrow> file_meta option) \<Rightarrow> bool" where
  new: "lc_run h (levels_controller_new q) (\<lambda>l i. None)"
| add: "lc_run h lc A \<Longrightarrow> l < 2 \<Longrightarrow> range_wf (fm_time_range m) \<Longrightarrow> A l (fm_id m) = None \<Longrightarrow>
    add_sst_to_level h lc l m = (Ok (h', lc') :: (unit, _) result) \<Longrightarrow> lc_run h' lc' (A(l := (A l)(fm_id m \<mapsto> m)))"
| remove: "lc_run h lc A \<Longrightarrow> l < 2 \<Longrightarrow> remove_ssts_from_level lc l ids = (Ok lc' :: (unit, _) result) \<Longrightarrow>
    lc_run h lc' (A(l := (A l) |` (- set ids)))"
| flag: "lc_run h lc A \<Longrightarrow> lc_run (set_being_compacted f b h) lc A"

lemma lc_run_inv: "lc_run h lc A \<Longrightarrow> lc_wf h lc \<and> lc_abs lc = A"
proof (induction rule: lc_run.induct)
  case (new h q)
  show ?case by (simp add: lc_new_wf lc_new_abs)
next
  case (add h lc A l m h' lc')
  then show ?case using add_sst [of h lc l m, where 'e = unit] by auto
next
  case (remove h lc A l ids lc')
  then show ?case using remove_ssts [of h lc l ids, where 'e = unit] by auto
next
  case (flag h lc A f b)
  then show ?case by (simp add: lc_wf_def set_being_compacted_def)
qed

lemma lc_abs_ran:
  assumes "lc_wf h lc" and "l < 2"
  shows "ran (lc_abs lc l) = fh_meta ` set (fhs_files (lh_files (lc_levels lc ! l)))"
proof -
  let ?s = "lh_files (lc_levels lc ! l)"
  have "length (lc_levels lc) = 2" using assms(1) by (simp add: lc_wf_def)
  moreover have "\<And>i f. id_to_files ?s i = Some f \<longleftrightarrow> f \<in> set (fhs_files ?s) \<and> fh_id f = i"
    using lc_level_wf [OF assms] by (simp add: fhs_wf_def)
  ultimately show ?thesis using assms(2) by (auto simp: ran_def lc_abs_def)
qed

section \<open>Properties\<close>

definition demo_meta :: "file_id \<Rightarrow> int \<Rightarrow> int \<Rightarrow> file_meta" where
  "demo_meta i s e =
     \<lparr>fm_id = i, fm_size = 10, fm_row_num = 1, fm_time_range = \<lparr>inclusive_start = s, exclusive_end = e\<rparr>,
      fm_max_seq = i, fm_storage_format = Columnar\<rparr>"

text \<open>
  C32. The levels controller implements a map from level and file id to meta data: whatever sequence
  of additions and removals was run, the files of a level are those of the abstract map, and
  \<open>pick_ssts\<close> returns for each level exactly the files whose time range intersects the query, although it
  seeks by end time.\<close>

theorem levels_controller_refines:
  assumes "lc_run h lc A" and "l < 2"
  shows "lc_abs lc = A \<and>
    (\<exists>fs. lc_pick_ssts lc r ! l = (l, fs) \<and> fh_meta ` set fs = {m \<in> ran (A l). intersect_with_time_range m r} \<and>
       distinct fs)"
proof -
  have wf: "lc_wf h lc" and A: "lc_abs lc = A" using lc_run_inv [OF assms(1)] by simp_all
  let ?s = "lh_files (lc_levels lc ! l)"
  have "lc_pick_ssts lc r ! l = (l, files_by_time_range ?s r)"
    using wf assms(2) by (simp add: lc_pick_ssts_def lc_wf_def)
  moreover have "files_by_time_range ?s r = filter (\<lambda>f. intersect_with_time_range (fh_meta f) r) (fhs_files ?s)"
    using filter_range_from [OF lc_level_wf [OF wf assms(2)]] .
  moreover have "distinct (fhs_files ?s)"
    using fhs_wf_files_distinct [OF lc_level_wf [OF wf assms(2)]] .
  ultimately show ?thesis using A lc_abs_ran [OF wf assms(2)] by auto
qed

theorem levels_controller_refines_witness:
  "\<exists>h lc fs. add_sst_to_level \<lparr>next_addr = 0, compacted_flags = \<lambda>_. False\<rparr>
       (levels_controller_new (purge_queue_new 1 2)) 0 (demo_meta 1 0 10) = (Ok (h, lc) :: (unit, _) result) \<and>
     lc_pick_ssts lc min_to_max ! 0 = (0, fs) \<and> fh_meta ` set fs = {demo_meta 1 0 10}"
proof -
  let ?h = "\<lparr>next_addr = 0, compacted_flags = \<lambda>_. False\<rparr>" and ?lc = "levels_controller_new (purge_queue_new 1 2)"
  have m: "range_wf (fm_time_range (demo_meta 1 0 10))" by (simp add: demo_meta_def range_wf_def in_i64_def)
  obtain h lc where add: "add_sst_to_level ?h ?lc 0 (demo_meta 1 0 10) = (Ok (h, lc) :: (unit, _) result)"
    using add_sst [OF lc_new_wf [of ?h "purge_queue_new 1 2"] _ m, of 0, where 'e = unit] by (auto simp: lc_new_abs)
  have "lc_run h lc ((\<lambda>l i. None)(0 := Map.empty(fm_id (demo_meta 1 0 10) \<mapsto> demo_meta 1 0 10)))"
    by (rule lc_run.add [OF lc_run.new _ m _ add]) simp_all
  note run = levels_controller_refines [OF this, of 0 min_to_max]
  have "ran (Map.empty(fm_id (demo_meta 1 0 10) \<mapsto> demo_meta 1 0 10)) = {demo_meta 1 0 10}" by simp
  moreover have "intersect_with_time_range (demo_meta 1 0 10) min_to_max" by code_simp
  ultimately show ?thesis using run add by auto
qed

text \<open>
  In a handle set whose two indexes agree, the scans that use the order of the files are
  equivalent to full scans: seeking for a time range, collecting expired files up to the first live
  one, and testing only the first file for expiry.\<close>

lemma handle_set_scans:
  assumes "fhs_wf s"
  shows "files_by_time_range s r = filter (\<lambda>f. intersect_with_time_range (fh_meta f) r) (fhs_files s) \<and>
    fhs_collect_expired s e [] = filter (\<lambda>f. range_is_expired (fh_time_range f) e) (fhs_files s) \<and>
    (fhs_has_expired_sst s e \<longleftrightarrow> fhs_collect_expired s e [] \<noteq> [])"
  using filter_range_from [OF assms] collect_expired_filter [OF assms] has_expired_iff [OF assms]
  by (auto simp: filter_empty_conv)

definition demo_files :: file_handle_set where
  "demo_files = fhs_insert (fhs_insert fhs_empty \<lparr>fh_addr = 0, fh_meta = demo_meta 1 0 10\<rparr>)
     \<lparr>fh_addr = 1, fh_meta = demo_meta 2 5 20\<rparr>"

lemma demo_files_wf: "fhs_wf demo_files"
proof -
  have "fhs_wf (fhs_insert fhs_empty \<lparr>fh_addr = 0, fh_meta = demo_meta 1 0 10\<rparr>)"
    by (rule fhs_insert(1) [OF fhs_wf_empty])
      (simp_all add: fhs_empty_def demo_meta_def range_wf_def in_i64_def)
  then show ?thesis
    unfolding demo_files_def
    by (rule fhs_insert(1))
      (simp_all add: fhs_empty_def demo_meta_def range_wf_def in_i64_def Sst_File.fhs_insert_def)
qed

lemma handle_set_scans_witness:
  "map fh_addr (fhs_collect_expired demo_files (Some 10) []) = [0] \<and> fhs_has_expired_sst demo_files (Some 10)"
proof -
  have "filter (\<lambda>f. range_is_expired (fh_time_range f) (Some 10)) (fhs_files demo_files) =
      [\<lparr>fh_addr = 0, fh_meta = demo_meta 1 0 10\<rparr>]"
    by code_simp
  then show ?thesis using handle_set_scans [OF demo_files_wf, where e = "Some 10"] by simp
qed

text \<open>
  C37. Purging deletes only what was requested: a file of the object store for which no purge request
  was sent is still there after the purge loop, even when other tables have a file of the same id,
  and a closed queue sends no request.\<close>

theorem purge_only_requested:
  assumes "new_sst_file_path sp tb i \<in> store" and "Purge sp tb i \<notin> set requests"
  shows "new_sst_file_path sp tb i \<in> purge_file_loop delete_ok requests store \<and>
    push_file (purge_queue_close q) j requests = requests"
proof -
  have "new_sst_file_path sp tb i \<in> purge_file_loop delete_ok requests store"
    using assms
    by (induction delete_ok requests store rule: purge_file_loop.induct) (auto simp: Let_def sst_path_inj)
  then show ?thesis by (simp add: push_file_def purge_queue_close_def)
qed

theorem purge_only_requested_witness:
  "new_sst_file_path 1 2 3 \<in> purge_file_loop (\<lambda>_. True) [Purge 1 23 3, Purge 12 2 3] {new_sst_file_path 1 2 3} \<and>
   push_file (purge_queue_close (purge_queue_new 1 2)) 3 [] = []"
  using purge_only_requested [of 1 2 3 "{new_sst_file_path 1 2 3}" "[Purge 1 23 3, Purge 12 2 3]" "\<lambda>_. True"]
  by (simp add: push_file_def purge_queue_close_def)

end
