(* ===== verification/Compaction.thy ===== *)
theory Compaction
  imports Sst_File Datum "HOL-Library.Multiset"
begin

text \<open>
  Picking files to compact (\<^verbatim>\<open>analytic_engine/src/compaction/mod.rs\<close> and \<^verbatim>\<open>compaction/picker.rs\<close>):
  the task with its shared flags, the size-tiered and the time-window picker, and the picker that
  combines them with the expired files.

  What the code takes from elsewhere are arguments: \<open>usort\<close> is \<open>sort_unstable_by_key\<close>, which may
  order elements of equal key in any way; \<open>float_env\<close> holds the float operations that only the
  grouping by size uses, on bit patterns; \<open>by_seq\<close> is the environment variable
  \<^verbatim>\<open>CERESDB_COMPACT_PICK_BY_SEQ\<close>.
\<close>

section \<open>Options\<close>

datatype time_unit = Nanoseconds | Microseconds | Milliseconds | Seconds | Minutes | Hours | Days

record size_tiered_options =
  bucket_low :: u32
  bucket_high :: u32
  min_sstable_size :: nat
  min_threshold :: nat
  max_threshold :: nat
  max_input_sstable_size :: nat

record time_window_options =
  size_tiered :: size_tiered_options
  timestamp_resolution :: time_unit

datatype compaction_strategy =
  Strategy_Default
| TimeWindow time_window_options
| SizeTiered size_tiered_options

record float_env =
  f32_of_u64 :: "nat \<Rightarrow> u32"
  f32_mul :: "u32 \<Rightarrow> u32 \<Rightarrow> u32"
  f64_of_u64 :: "nat \<Rightarrow> u64"
  f64_div :: "u64 \<Rightarrow> u64 \<Rightarrow> u64"
  f64_sum :: "u64 list \<Rightarrow> u64"
  h2_rate :: "file_handle \<Rightarrow> u64"

text \<open>The bit patterns of 0.5 and 1.5, and 50 and 1200 megabytes.\<close>

definition size_tiered_default :: size_tiered_options where
  "size_tiered_default =
     \<lparr>bucket_low = 0x3f000000, bucket_high = 0x3fc00000, min_sstable_size = 50 * 1024 * 1024,
      min_threshold = 4, max_threshold = 16, max_input_sstable_size = 1200 * 1024 * 1024\<rparr>"

definition time_window_default :: time_window_options where
  "time_window_default = \<lparr>size_tiered = size_tiered_default, timestamp_resolution = Milliseconds\<rparr>"

record picker_context =
  segment_duration :: duration
  ttl :: "duration option"
  strategy :: compaction_strategy

definition size_tiered_opts :: "picker_context \<Rightarrow> size_tiered_options" where
  "size_tiered_opts ctx = (case strategy ctx of SizeTiered opts \<Rightarrow> opts | _ \<Rightarrow> size_tiered_default)"

definition time_window_opts :: "picker_context \<Rightarrow> time_window_options" where
  "time_window_opts ctx = (case strategy ctx of TimeWindow opts \<Rightarrow> opts | _ \<Rightarrow> time_window_default)"

section \<open>Tasks\<close>

record compaction_input_files =
  ci_level :: level
  ci_files :: "file_handle list"
  ci_output_level :: level

record compaction_task =
  task_inputs :: "compaction_input_files list"
  task_expired :: "expired_files list"

definition mark_files_being_compacted :: "compaction_task \<Rightarrow> bool \<Rightarrow> arc_heap \<Rightarrow> arc_heap" where
  "mark_files_being_compacted t b h =
     fold (\<lambda>expired. fold (\<lambda>f. set_being_compacted f b) (ef_files expired)) (task_expired t)
       (fold (\<lambda>input. fold (\<lambda>f. set_being_compacted f b) (ci_files input)) (task_inputs t) h)"

definition task_drop :: "compaction_task \<Rightarrow> arc_heap \<Rightarrow> arc_heap" where
  "task_drop t h = mark_files_being_compacted t False h"

definition with_expired :: "expired_files list \<Rightarrow> compaction_task" where
  "with_expired expired = \<lparr>task_inputs = [], task_expired = expired\<rparr>"

definition add_inputs :: "compaction_task \<Rightarrow> compaction_input_files \<Rightarrow> compaction_task" where
  "add_inputs t files = t\<lparr>task_inputs := task_inputs t @ [files]\<rparr>"

definition task_build :: "compaction_task \<Rightarrow> arc_heap \<Rightarrow> compaction_task \<times> arc_heap" where
  "task_build t h = (t, mark_files_being_compacted t True h)"

definition num_compact_files :: "compaction_task \<Rightarrow> nat" where
  "num_compact_files t = sum_list (map (\<lambda>v. length (ci_files v)) (task_inputs t))"

definition is_input_empty :: "compaction_task \<Rightarrow> bool" where
  "is_input_empty t \<longleftrightarrow> task_inputs t = []"

definition task_is_empty :: "compaction_task \<Rightarrow> bool" where
  "task_is_empty t \<longleftrightarrow> is_input_empty t \<and> task_expired t = []"

datatype picker_error = NoPickerError

text \<open>A sum of \<open>u64\<close> panics when it overflows.\<close>

definition u64_add :: "nat \<Rightarrow> nat \<Rightarrow> (picker_error, nat) result" where
  "u64_add a b = (if a + b \<le> u64_max then Ok (a + b) else Panic)"

definition sum_u64 :: "nat list \<Rightarrow> (picker_error, nat) result" where
  "sum_u64 xs = res_fold (\<lambda>x acc. u64_add acc x) xs 0"

definition estimated_total_input_file_size :: "compaction_task \<Rightarrow> (picker_error, nat) result" where
  "estimated_total_input_file_size t =
     res_bind (res_fold (\<lambda>v acc. res_bind (sum_u64 (map fh_size (ci_files v))) (\<lambda>n. Ok (acc @ [n]))) (task_inputs t) [])
       sum_u64"

section \<open>Helpers of the pickers\<close>

type_synonym unstable_sort = "(file_handle \<Rightarrow> int) \<Rightarrow> file_handle list \<Rightarrow> file_handle list"

definition find_uncompact_files ::
    "arc_heap \<Rightarrow> levels_controller \<Rightarrow> level \<Rightarrow> timestamp option \<Rightarrow> (picker_error, file_handle list) result" where
  "find_uncompact_files h lc l expire =
     res_bind (iter_ssts_at_level lc l) (\<lambda>files.
       Ok (filter (\<lambda>f. \<not> being_compacted h f \<and> \<not> range_is_expired (fh_time_range f) expire) files))"

fun take_while_size :: "nat \<Rightarrow> nat \<Rightarrow> file_handle list \<Rightarrow> (picker_error, file_handle list) result" where
  "take_while_size max_size input_size [] = Ok []"
| "take_while_size max_size input_size (f # fs) =
     res_bind (u64_add input_size (fh_size f)) (\<lambda>input_size.
       if input_size \<le> max_size then res_bind (take_while_size max_size input_size fs) (\<lambda>r. Ok (f # r)) else Ok [])"

definition trim_to_threshold :: "file_handle list \<Rightarrow> nat \<Rightarrow> nat \<Rightarrow> (picker_error, file_handle list) result" where
  "trim_to_threshold input_files max_th max_size = take_while_size max_size 0 (take max_th input_files)"

section \<open>The size-tiered picker\<close>

text \<open>The inner loop of \<open>pick_by_seq\<close> over the steps, and the outer one over the starts.\<close>

fun try_steps ::
    "file_handle list \<Rightarrow> nat \<Rightarrow> nat \<Rightarrow> nat \<Rightarrow> nat list \<Rightarrow> (picker_error, file_handle list option) result" where
  "try_steps files start min_th max_size [] = Ok None"
| "try_steps files start min_th max_size (step # steps) =
     (if u64_max < start + step then Panic
      else let e = min (start + step) (length files)
           in if e - start < min_th then Ok None
              else res_bind (sum_u64 (map fh_size (take (e - start) (drop start files)))) (\<lambda>curr_size.
                     if curr_size \<le> max_size then Ok (Some (take (e - start) (drop start files)))
                     else try_steps files start min_th max_size steps))"

fun try_starts ::
    "file_handle list \<Rightarrow> nat \<Rightarrow> nat \<Rightarrow> nat \<Rightarrow> nat list \<Rightarrow> (picker_error, file_handle list option) result" where
  "try_starts files min_th max_th max_size [] = Ok None"
| "try_starts files min_th max_th max_size (start # starts) =
     res_bind (try_steps files start min_th max_size (rev [min_th..<Suc max_th])) (\<lambda>r.
       case r of Some fs \<Rightarrow> Ok (Some fs) | None \<Rightarrow> try_starts files min_th max_th max_size starts)"

definition pick_by_seq ::
    "unstable_sort \<Rightarrow> file_handle list \<Rightarrow> nat \<Rightarrow> nat \<Rightarrow> nat \<Rightarrow> (picker_error, file_handle list option) result" where
  "pick_by_seq usort files min_th max_th max_size =
     (let files = usort (\<lambda>f. - int (fh_max_seq f)) files
      in try_starts files min_th max_th max_size [0..<length files])"

record size_bucket =
  sb_avg_size :: nat
  sb_files :: "file_handle list"

definition bucket_with_file :: "file_handle \<Rightarrow> size_bucket" where
  "bucket_with_file f = \<lparr>sb_avg_size = fh_size f, sb_files = [f]\<rparr>"

definition bucket_with_files :: "file_handle list \<Rightarrow> (picker_error, size_bucket) result" where
  "bucket_with_files files =
     res_bind (sum_u64 (map fh_size files)) (\<lambda>total.
       Ok \<lparr>sb_avg_size = (if files = [] then 0 else total div length files), sb_files = files\<rparr>)"

definition bucket_insert_file :: "size_bucket \<Rightarrow> file_handle \<Rightarrow> (picker_error, size_bucket) result" where
  "bucket_insert_file b f =
     (let n = length (sb_files b)
      in if n * sb_avg_size b + fh_size f \<le> u64_max
         then Ok \<lparr>sb_avg_size = (n * sb_avg_size b + fh_size f) div (n + 1), sb_files = sb_files b @ [f]\<rparr>
         else Panic)"

definition hotness :: "float_env \<Rightarrow> file_handle \<Rightarrow> u64" where
  "hotness env f = f64_div env (h2_rate env f) (f64_of_u64 env (max (fm_row_num (fh_meta f)) 1))"

definition f32_less :: "u32 \<Rightarrow> u32 \<Rightarrow> bool" where
  "f32_less x y \<longleftrightarrow> f32_partial_cmp x y = Some Less"

definition similar_size :: "float_env \<Rightarrow> u32 \<Rightarrow> u32 \<Rightarrow> u32 \<Rightarrow> file_handle \<Rightarrow> size_bucket \<Rightarrow> bool" where
  "similar_size env high low min_sst_size f b =
     (let size = f32_of_u64 env (fh_size f); old_avg_size = f32_of_u64 env (sb_avg_size b)
      in f32_less (f32_mul env old_avg_size low) size \<and> f32_less size (f32_mul env old_avg_size high) \<or>
         f32_less size min_sst_size \<and> f32_less old_avg_size min_sst_size)"

text \<open>A file goes to the first bucket of similar size, or to a new one.\<close>

fun insert_similar ::
    "float_env \<Rightarrow> u32 \<Rightarrow> u32 \<Rightarrow> u32 \<Rightarrow> file_handle \<Rightarrow> size_bucket list \<Rightarrow> (picker_error, size_bucket list) result" where
  "insert_similar env high low min_size f [] = Ok [bucket_with_file f]"
| "insert_similar env high low min_size f (b # bs) =
     (if similar_size env high low min_size f b
      then res_bind (bucket_insert_file b f) (\<lambda>b. Ok (b # bs))
      else res_bind (insert_similar env high low min_size f bs) (\<lambda>bs. Ok (b # bs)))"

definition get_size_buckets ::
    "unstable_sort \<Rightarrow> float_env \<Rightarrow> file_handle list \<Rightarrow> u32 \<Rightarrow> u32 \<Rightarrow> u32 \<Rightarrow> (picker_error, size_bucket list) result" where
  "get_size_buckets usort env files high low min_size =
     res_fold (insert_similar env high low min_size) (usort (\<lambda>f. int (fh_size f)) files) []"

text \<open>
  Sorting by hotness compares with \<open>partial_cmp(..).unwrap()\<close>, which panics on a NaN when there is
  something to compare.
\<close>

definition hotness_map :: "float_env \<Rightarrow> file_handle list \<Rightarrow> file_id \<Rightarrow> u64" where
  "hotness_map env files i = (case find (\<lambda>f. fh_id f = i) (rev files) of Some f \<Rightarrow> hotness env f | None \<Rightarrow> 0)"

definition is_nan :: "u64 \<Rightarrow> bool" where
  "is_nan x \<longleftrightarrow> f64_partial_cmp x x = None"

definition trim_to_threshold_with_hotness ::
    "unstable_sort \<Rightarrow> float_env \<Rightarrow> size_bucket \<Rightarrow> nat \<Rightarrow> nat \<Rightarrow> (picker_error, size_bucket \<times> u64) result" where
  "trim_to_threshold_with_hotness usort env b max_th max_size =
     (let snapshot = (\<lambda>f. hotness_map env (sb_files b) (fh_id f))
      in if 2 \<le> length (sb_files b) \<and> list_ex (\<lambda>f. is_nan (snapshot f)) (sb_files b) then Panic
         else res_bind (trim_to_threshold (usort (\<lambda>f. - float_key 64 (unat (snapshot f))) (sb_files b)) max_th max_size) (\<lambda>pruned.
              res_bind (bucket_with_files pruned) (\<lambda>b.
                Ok (b, f64_sum env (map (hotness env) pruned)))))"

definition prune_bucket ::
    "unstable_sort \<Rightarrow> float_env \<Rightarrow> nat \<Rightarrow> nat \<Rightarrow> nat \<Rightarrow> size_bucket \<Rightarrow> (size_bucket \<times> u64) list \<Rightarrow>
     (picker_error, (size_bucket \<times> u64) list) result" where
  "prune_bucket usort env min_th max_th max_size b acc =
     res_bind (trim_to_threshold_with_hotness usort env b max_th max_size) (\<lambda>bh.
       Ok (if min_th \<le> length (sb_files (fst bh)) then acc @ [bh] else acc))"

text \<open>\<open>max_by\<close> keeps the later of two equal elements.\<close>

definition hotter :: "size_bucket \<times> u64 \<Rightarrow> size_bucket \<times> u64 \<Rightarrow> (picker_error, size_bucket \<times> u64) result" where
  "hotter y x =
     (case f64_partial_cmp (snd x) (snd y) of
        None \<Rightarrow> Panic
      | Some Greater \<Rightarrow> Ok x
      | Some Less \<Rightarrow> Ok y
      | Some Equal \<Rightarrow> Ok (if sb_avg_size (fst y) < sb_avg_size (fst x) then x else y))"

definition most_interesting_bucket ::
    "unstable_sort \<Rightarrow> float_env \<Rightarrow> size_bucket list \<Rightarrow> nat \<Rightarrow> nat \<Rightarrow> nat \<Rightarrow> (picker_error, file_handle list option) result" where
  "most_interesting_bucket usort env buckets min_th max_th max_size =
     res_bind (res_fold (prune_bucket usort env min_th max_th max_size) buckets []) (\<lambda>pruned.
       case pruned of
         [] \<Rightarrow> Ok None
       | b # bs \<Rightarrow> res_bind (res_fold hotter bs b) (\<lambda>(bucket, _). Ok (Some (sb_files bucket))))"

definition pick_by_size ::
    "unstable_sort \<Rightarrow> float_env \<Rightarrow> file_handle list \<Rightarrow> size_tiered_options \<Rightarrow> (picker_error, file_handle list option) result" where
  "pick_by_size usort env files opts =
     res_bind (get_size_buckets usort env files (bucket_high opts) (bucket_low opts) (f32_of_u64 env (min_sstable_size opts)))
       (\<lambda>buckets. most_interesting_bucket usort env buckets (min_threshold opts) (max_threshold opts)
                    (max_input_sstable_size opts))"

definition pick_ssts ::
    "unstable_sort \<Rightarrow> float_env \<Rightarrow> bool \<Rightarrow> file_handle list \<Rightarrow> size_tiered_options \<Rightarrow>
     (picker_error, file_handle list option) result" where
  "pick_ssts usort env by_seq files opts =
     (if by_seq
      then pick_by_seq usort files (min_threshold opts) (max_threshold opts) (max_input_sstable_size opts)
      else pick_by_size usort env files opts)"

definition push_segment ::
    "duration \<Rightarrow> file_handle \<Rightarrow> (timestamp, file_handle list) btree \<Rightarrow>
     (picker_error, (timestamp, file_handle list) btree) result" where
  "push_segment d f m =
     res_bind (truncate_by (exclusive_end (fh_time_range f)) d) (\<lambda>segment. Ok (bt_push segment f m))"

definition files_by_segment ::
    "arc_heap \<Rightarrow> levels_controller \<Rightarrow> level \<Rightarrow> duration \<Rightarrow> timestamp option \<Rightarrow>
     (picker_error, (timestamp, file_handle list) btree) result" where
  "files_by_segment h lc l d expire =
     res_bind (find_uncompact_files h lc l expire) (\<lambda>files. res_fold (push_segment d) files [])"

fun first_picked :: "('a \<Rightarrow> (picker_error, 'b option) result) \<Rightarrow> 'a list \<Rightarrow> (picker_error, 'b option) result" where
  "first_picked pick [] = Ok None"
| "first_picked pick (x # xs) =
     res_bind (pick x) (\<lambda>r. case r of Some y \<Rightarrow> Ok (Some y) | None \<Rightarrow> first_picked pick xs)"

definition size_tiered_candidates ::
    "unstable_sort \<Rightarrow> float_env \<Rightarrow> bool \<Rightarrow> picker_context \<Rightarrow> arc_heap \<Rightarrow> levels_controller \<Rightarrow> level \<Rightarrow>
     timestamp option \<Rightarrow> (picker_error, file_handle list option) result" where
  "size_tiered_candidates usort env by_seq ctx h lc l expire =
     res_bind (files_by_segment h lc l (segment_duration ctx) expire) (\<lambda>segments.
       first_picked (\<lambda>(_, segment). pick_ssts usort env by_seq segment (size_tiered_opts ctx)) (rev segments))"

section \<open>The time-window picker\<close>

definition i64_res :: "int \<Rightarrow> (picker_error, int) result" where
  "i64_res x = (if in_i64 x then Ok x else Panic)"

definition as_secs :: "duration \<Rightarrow> nat" where
  "as_secs d = d div 1000000000"

definition get_window_bounds_in_millis :: "duration \<Rightarrow> int \<Rightarrow> (picker_error, int \<times> int) result" where
  "get_window_bounds_in_millis window ts =
     (let ts_secs = ts sdiv 1000; size = sint (of_nat (as_secs window) :: u64)
      in if size = 0 \<or> \<not> in_i64 (ts_secs sdiv size) then Panic
         else res_bind (i64_res (ts_secs - ts_secs smod size)) (\<lambda>lower.
              res_bind (i64_res (lower + size)) (\<lambda>upper.
              res_bind (i64_res (upper - 1)) (\<lambda>upper.
              res_bind (i64_res (lower * 1000)) (\<lambda>l.
              res_bind (i64_res (upper * 1000)) (\<lambda>u. Ok (l, u)))))))"

definition resolve_timestamp :: "int \<Rightarrow> time_unit \<Rightarrow> (picker_error, int) result" where
  "resolve_timestamp ts u =
     (case u of
        Microseconds \<Rightarrow> Ok (ts sdiv 1000)
      | Nanoseconds \<Rightarrow> Ok (ts sdiv 1000000)
      | Seconds \<Rightarrow> i64_res (ts * 1000)
      | Milliseconds \<Rightarrow> Ok ts
      | _ \<Rightarrow> Panic)"

definition window_of :: "duration \<Rightarrow> time_unit \<Rightarrow> file_handle \<Rightarrow> (picker_error, int) result" where
  "window_of window u f =
     res_bind (resolve_timestamp (exclusive_end (fh_time_range f)) u) (\<lambda>ts.
     res_bind (get_window_bounds_in_millis window ts) (\<lambda>(left, _). Ok left))"

definition push_window ::
    "duration \<Rightarrow> time_unit \<Rightarrow> file_handle \<Rightarrow> (int, file_handle list) btree \<times> int \<Rightarrow>
     (picker_error, (int, file_handle list) btree \<times> int) result" where
  "push_window window u f = (\<lambda>(buckets, max_ts).
     res_bind (window_of window u f) (\<lambda>left.
       Ok (bt_push left f buckets, if max_ts < left then left else max_ts)))"

definition get_time_buckets ::
    "file_handle list \<Rightarrow> duration \<Rightarrow> time_unit \<Rightarrow> (picker_error, (int, file_handle list) btree \<times> int) result" where
  "get_time_buckets files window u = res_fold (push_window window u) files ([], 0)"

definition pick_sst_for_old_bucket ::
    "unstable_sort \<Rightarrow> bool \<Rightarrow> file_handle list \<Rightarrow> size_tiered_options \<Rightarrow> (picker_error, file_handle list option) result" where
  "pick_sst_for_old_bucket usort by_seq files opts =
     (if by_seq then pick_by_seq usort files 2 (max_threshold opts) (max_input_sstable_size opts)
      else res_bind (trim_to_threshold (usort (\<lambda>f. int (fh_size f)) files) (max_threshold opts) (max_input_sstable_size opts))
             (\<lambda>candidate_files. Ok (if 2 \<le> length candidate_files then Some candidate_files else None)))"

definition pick_bucket ::
    "unstable_sort \<Rightarrow> float_env \<Rightarrow> bool \<Rightarrow> size_tiered_options \<Rightarrow> int \<Rightarrow> int \<times> file_handle list \<Rightarrow>
     (picker_error, file_handle list option) result" where
  "pick_bucket usort env by_seq opts now = (\<lambda>(key, bucket).
     if min_threshold opts \<le> length bucket \<and> now \<le> key then pick_ssts usort env by_seq bucket opts
     else if 2 \<le> length bucket \<and> key < now then pick_sst_for_old_bucket usort by_seq bucket opts
     else Ok None)"

definition newest_bucket ::
    "unstable_sort \<Rightarrow> float_env \<Rightarrow> bool \<Rightarrow> (int, file_handle list) btree \<Rightarrow> size_tiered_options \<Rightarrow> int \<Rightarrow>
     (picker_error, file_handle list option) result" where
  "newest_bucket usort env by_seq buckets opts now = first_picked (pick_bucket usort env by_seq opts now) (rev buckets)"

definition get_current_window ::
    "levels_controller \<Rightarrow> level \<Rightarrow> duration \<Rightarrow> time_unit \<Rightarrow> (picker_error, int) result" where
  "get_current_window lc l window u =
     res_bind (latest_sst lc l) (\<lambda>latest.
       case latest of None \<Rightarrow> Panic | Some f \<Rightarrow> window_of window u f)"

definition time_window_candidates ::
    "unstable_sort \<Rightarrow> float_env \<Rightarrow> bool \<Rightarrow> picker_context \<Rightarrow> arc_heap \<Rightarrow> levels_controller \<Rightarrow> level \<Rightarrow>
     timestamp option \<Rightarrow> (picker_error, file_handle list option) result" where
  "time_window_candidates usort env by_seq ctx h lc l expire =
     res_bind (find_uncompact_files h lc l expire) (\<lambda>files.
       if files = [] then Ok None
       else let opts = time_window_opts ctx
            in res_bind (get_time_buckets files (segment_duration ctx) (timestamp_resolution opts)) (\<lambda>(buckets, max_bucket_ts).
               res_bind (get_current_window lc l (segment_duration ctx) (timestamp_resolution opts)) (\<lambda>now.
                 if max_bucket_ts \<le> now then newest_bucket usort env by_seq buckets (size_tiered opts) now else Panic)))"

section \<open>The picker\<close>

definition level_picker ::
    "unstable_sort \<Rightarrow> float_env \<Rightarrow> bool \<Rightarrow> picker_context \<Rightarrow> arc_heap \<Rightarrow> levels_controller \<Rightarrow> level \<Rightarrow>
     timestamp option \<Rightarrow> (picker_error, file_handle list option) result" where
  "level_picker usort env by_seq ctx =
     (case strategy ctx of
        SizeTiered _ \<Rightarrow> size_tiered_candidates usort env by_seq ctx
      | _ \<Rightarrow> time_window_candidates usort env by_seq ctx)"

definition pick_compact_candidates ::
    "unstable_sort \<Rightarrow> float_env \<Rightarrow> bool \<Rightarrow> picker_context \<Rightarrow> arc_heap \<Rightarrow> levels_controller \<Rightarrow>
     timestamp option \<Rightarrow> (picker_error, compaction_input_files option) result" where
  "pick_compact_candidates usort env by_seq ctx h lc expire =
     first_picked (\<lambda>l. res_bind (level_picker usort env by_seq ctx h lc l expire) (\<lambda>r.
         Ok (case r of
               Some files \<Rightarrow> Some \<lparr>ci_level = l, ci_files = files, ci_output_level = level_next l\<rparr>
             | None \<Rightarrow> None)))
       (lc_level_list lc)"

definition pick_compaction ::
    "unstable_sort \<Rightarrow> float_env \<Rightarrow> bool \<Rightarrow> timestamp \<Rightarrow> picker_context \<Rightarrow> arc_heap \<Rightarrow> levels_controller \<Rightarrow>
     (picker_error, compaction_task \<times> arc_heap) result" where
  "pick_compaction usort env by_seq now ctx h lc =
     (let expire = map_option (expire_time now) (ttl ctx)
      in res_bind (expired_ssts lc expire) (\<lambda>expired.
         res_bind (pick_compact_candidates usort env by_seq ctx h lc expire) (\<lambda>inputs.
           Ok (task_build (case inputs of
                             Some input_files \<Rightarrow> add_inputs (with_expired expired) input_files
                           | None \<Rightarrow> with_expired expired) h))))"

section \<open>The pickers only pick from what they are given\<close>

definition usort_ok :: "unstable_sort \<Rightarrow> bool" where
  "usort_ok usort \<longleftrightarrow> (\<forall>key fs. mset (usort key fs) = mset fs \<and> sorted (map key (usort key fs)))"

lemma usort_set: "usort_ok usort \<Longrightarrow> set (usort key fs) = set fs"
  unfolding usort_ok_def by (metis set_mset_mset)

lemma usort_length: "usort_ok usort \<Longrightarrow> length (usort key fs) = length fs"
  unfolding usort_ok_def by (metis size_mset)

lemma usort_sum: "usort_ok usort \<Longrightarrow> sum_list (map g (usort key fs)) = sum_list (map g fs)" for g :: "file_handle \<Rightarrow> nat"
  unfolding usort_ok_def by (metis mset_map sum_mset_sum_list)

lemma sort_key_usort_ok: "usort_ok sort_key"
  by (simp add: usort_ok_def)

lemma first_picked_Some:
  "first_picked pick xs = Ok (Some y) \<Longrightarrow> \<exists>x \<in> set xs. pick x = Ok (Some y)"
  by (induction xs) (auto simp: res_bind_eq_Ok split: option.splits)

lemma sum_u64_eq: "sum_u64 xs = (if sum_list xs \<le> u64_max then Ok (sum_list xs) else Panic)"
proof -
  have "res_fold (\<lambda>x acc. u64_add acc x) xs n = (if n + sum_list xs \<le> u64_max then Ok (n + sum_list xs) else Panic)"
    if "n \<le> u64_max" for n
    using that by (induction xs arbitrary: n) (auto simp: u64_add_def add.assoc)
  from this [of 0] show ?thesis by (simp add: sum_u64_def)
qed

lemma take_while_size_prefix:
  "take_while_size m n fs = Ok r \<Longrightarrow> prefix r fs \<and> (r \<noteq> [] \<longrightarrow> n + sum_list (map fh_size r) \<le> m)"
proof (induction m n fs arbitrary: r rule: take_while_size.induct)
  case (2 m n f fs)
  then show ?case
    by (cases r) (fastforce simp: res_bind_eq_Ok u64_add_def split: if_splits)+
qed simp

lemma trim_to_threshold_sub: "trim_to_threshold fs k m = Ok r \<Longrightarrow> set r \<subseteq> set fs"
  unfolding trim_to_threshold_def
  by (metis take_while_size_prefix set_mono_prefix subset_trans set_take_subset)

lemma try_steps_Some:
  assumes "try_steps files start min_th max_size steps = Ok (Some fs)"
  shows "\<exists>n step. step \<in> set steps \<and> n \<le> step \<and> min_th \<le> n \<and> start + n \<le> max start (length files) \<and>
    fs = take n (drop start files) \<and> sum_list (map fh_size fs) \<le> max_size"
  using assms
proof (induction steps)
  case (Cons step steps)
  let ?n = "min (start + step) (length files) - start"
  show ?case
  proof (cases "sum_list (map fh_size (take ?n (drop start files))) \<le> max_size")
    case True
    with Cons(2) have "fs = take ?n (drop start files)" "min_th \<le> ?n"
      by (auto simp: sum_u64_eq Let_def split: if_splits)
    with True show ?thesis by - (rule exI [of _ ?n], rule exI [of _ step], auto)
  next
    case False
    with Cons(2) have "try_steps files start min_th max_size steps = Ok (Some fs)"
      by (auto simp: sum_u64_eq Let_def split: if_splits)
    from Cons.IH [OF this] obtain n step' where "step' \<in> set steps" "n \<le> step'" "min_th \<le> n"
      "start + n \<le> max start (length files)" "fs = take n (drop start files)" "sum_list (map fh_size fs) \<le> max_size"
      by blast
    then show ?thesis by - (rule exI [of _ n], rule exI [of _ step'], simp)
  qed
qed simp

lemma try_starts_Some:
  assumes "try_starts files min_th max_th max_size starts = Ok (Some fs)"
  shows "\<exists>start n. start \<in> set starts \<and> n \<le> max_th \<and> min_th \<le> n \<and> start + n \<le> max start (length files) \<and>
    fs = take n (drop start files) \<and> sum_list (map fh_size fs) \<le> max_size"
  using assms
proof (induction starts)
  case (Cons start starts)
  from Cons(2) obtain r where r: "try_steps files start min_th max_size (rev [min_th..<Suc max_th]) = Ok r"
    by (auto simp only: try_starts.simps res_bind_eq_Ok)
  show ?case
  proof (cases r)
    case None
    then have "try_starts files min_th max_th max_size starts = Ok (Some fs)"
      using Cons(2) r by (simp only: try_starts.simps res_bind.simps option.case)
    from Cons.IH [OF this] obtain start' n where "start' \<in> set starts" "n \<le> max_th" "min_th \<le> n"
      "start' + n \<le> max start' (length files)" "fs = take n (drop start' files)" "sum_list (map fh_size fs) \<le> max_size"
      by blast
    then show ?thesis by - (rule exI [of _ start'], rule exI [of _ n], simp)
  next
    case (Some gs)
    then have "gs = fs" using Cons(2) r by (simp only: try_starts.simps) simp
    then obtain n step where "step \<in> set (rev [min_th..<Suc max_th])" "n \<le> step" "min_th \<le> n"
      "start + n \<le> max start (length files)" "fs = take n (drop start files)" "sum_list (map fh_size fs) \<le> max_size"
      using try_steps_Some [OF r [unfolded Some]] by blast
    then show ?thesis by - (rule exI [of _ start], rule exI [of _ n], auto)
  qed
qed simp

text \<open>
  A successful pick by sequence is a run of the files in descending order of sequence: no file
  outside lies strictly between two picked ones.
\<close>

lemma pick_by_seq_Some:
  assumes "usort_ok usort" and "pick_by_seq usort files min_th max_th max_size = Ok (Some fs)"
  shows "\<exists>pre post. mset (pre @ fs @ post) = mset files \<and>
    sorted_wrt (\<lambda>f g. fh_max_seq g \<le> fh_max_seq f) (pre @ fs @ post) \<and>
    min_th \<le> length fs \<and> length fs \<le> max_th \<and> sum_list (map fh_size fs) \<le> max_size"
proof -
  let ?s = "usort (\<lambda>f. - int (fh_max_seq f)) files"
  obtain start n where n: "start \<in> set [0..<length ?s]" "n \<le> max_th" "min_th \<le> n" "start + n \<le> max start (length ?s)"
    and fs: "fs = take n (drop start ?s)" "sum_list (map fh_size fs) \<le> max_size"
    using try_starts_Some assms(2) unfolding pick_by_seq_def Let_def by blast
  have split: "take start ?s @ fs @ drop (start + n) ?s = ?s"
    unfolding fs(1) drop_drop [symmetric] add.commute [of start n] append_take_drop_id ..
  have "sorted (map (\<lambda>f. - int (fh_max_seq f)) ?s)" and mset: "mset ?s = mset files"
    using assms(1) by (simp_all add: usort_ok_def)
  then have "sorted_wrt (\<lambda>f g. fh_max_seq g \<le> fh_max_seq f) ?s" by (simp add: sorted_wrt_map)
  moreover have "length fs = n" using n fs(1) by simp
  ultimately show ?thesis
    using n fs(2) mset by (intro exI [of _ "take start ?s"] exI [of _ "drop (start + n) ?s"]) (simp only: split)
qed

lemma pick_by_seq_sub:
  assumes "usort_ok usort" and "pick_by_seq usort files a b c = Ok (Some fs)"
  shows "set fs \<subseteq> set files"
proof -
  obtain pre post where "mset (pre @ fs @ post) = mset files" using pick_by_seq_Some [OF assms] by blast
  then have "set (pre @ fs @ post) = set files" by (rule mset_eq_setD)
  then show ?thesis by auto
qed

definition bucket_files :: "size_bucket list \<Rightarrow> file_handle set" where
  "bucket_files bs = (\<Union>b \<in> set bs. set (sb_files b))"

lemma bucket_files_simps [simp]:
  "bucket_files [] = {}" "bucket_files (b # bs) = set (sb_files b) \<union> bucket_files bs"
  by (simp_all add: bucket_files_def)

lemma insert_similar_files:
  "insert_similar env high low m f bs = Ok bs' \<Longrightarrow> bucket_files bs' = insert f (bucket_files bs)"
  by (induction bs arbitrary: bs')
    (auto simp: bucket_with_file_def bucket_insert_file_def res_bind_eq_Ok Let_def split: if_splits)

lemma get_size_buckets_files:
  assumes "usort_ok usort" and "get_size_buckets usort env files high low m = Ok bs"
  shows "bucket_files bs \<subseteq> set files"
  using assms(2) unfolding get_size_buckets_def
  by (rule res_fold_inv [where I = "\<lambda>bs. bucket_files bs \<subseteq> set files"])
    (auto simp: usort_set [OF assms(1)] dest!: insert_similar_files)

lemma trim_with_hotness_sub:
  assumes "usort_ok usort" and "trim_to_threshold_with_hotness usort env b k m = Ok (b', hot)"
  shows "set (sb_files b') \<subseteq> set (sb_files b)"
proof -
  define key where "key = (\<lambda>f. - float_key 64 (unat (hotness_map env (sb_files b) (fh_id f))))"
  obtain pruned where "trim_to_threshold (usort key (sb_files b)) k m = Ok pruned" "bucket_with_files pruned = Ok b'"
    using assms(2) by (auto simp: trim_to_threshold_with_hotness_def key_def Let_def res_bind_eq_Ok split: if_splits)
  moreover from this(2) have "sb_files b' = pruned" by (auto simp: bucket_with_files_def res_bind_eq_Ok)
  ultimately show ?thesis using trim_to_threshold_sub usort_set [OF assms(1)] by metis
qed

lemma most_interesting_bucket_sub:
  assumes "usort_ok usort" and "most_interesting_bucket usort env bs a k m = Ok (Some fs)"
  shows "set fs \<subseteq> bucket_files bs"
proof -
  obtain pruned where pruned: "res_fold (prune_bucket usort env a k m) bs [] = Ok pruned"
    using assms(2) by (auto simp: most_interesting_bucket_def res_bind_eq_Ok)
  then have sub: "\<forall>bh \<in> set pruned. set (sb_files (fst bh)) \<subseteq> bucket_files bs"
  proof (rule res_fold_inv)
    fix b acc acc'
    assume "b \<in> set bs" and acc: "\<forall>bh \<in> set acc. set (sb_files (fst bh)) \<subseteq> bucket_files bs"
      and "prune_bucket usort env a k m b acc = Ok acc'"
    then obtain b' hot where b': "trim_to_threshold_with_hotness usort env b k m = Ok (b', hot)"
      and "acc' = (if a \<le> length (sb_files b') then acc @ [(b', hot)] else acc)"
      by (auto simp: prune_bucket_def res_bind_eq_Ok)
    moreover have "set (sb_files b') \<subseteq> bucket_files bs"
      using trim_with_hotness_sub [OF assms(1) b'] \<open>b \<in> set bs\<close> by (auto simp: bucket_files_def)
    ultimately show "\<forall>bh \<in> set acc'. set (sb_files (fst bh)) \<subseteq> bucket_files bs" using acc by auto
  qed simp
  obtain p ps bucket hot where ps: "pruned = p # ps" and hotter: "res_fold hotter ps p = Ok (bucket, hot)"
    and "fs = sb_files bucket"
    using assms(2) pruned
    by (cases pruned) (auto simp: most_interesting_bucket_def res_bind_eq_Ok split: prod.splits)
  moreover have "(bucket, hot) \<in> set (p # ps)"
    using hotter
    by (rule res_fold_inv [where I = "\<lambda>x. x \<in> set (p # ps)"])
      (auto simp: hotter_def split: option.splits cmp_ordering.splits if_splits)
  ultimately show ?thesis using sub by force
qed

lemma pick_ssts_sub:
  assumes "usort_ok usort" and "pick_ssts usort env by_seq files opts = Ok (Some fs)"
  shows "set fs \<subseteq> set files"
proof (cases by_seq)
  case True
  then show ?thesis using assms pick_by_seq_sub by (simp add: pick_ssts_def)
next
  case False
  then obtain bs where "get_size_buckets usort env files (bucket_high opts) (bucket_low opts)
      (f32_of_u64 env (min_sstable_size opts)) = Ok bs"
    and "most_interesting_bucket usort env bs (min_threshold opts) (max_threshold opts) (max_input_sstable_size opts) =
      Ok (Some fs)"
    using assms(2) by (auto simp: pick_ssts_def pick_by_size_def res_bind_eq_Ok)
  then show ?thesis
    using get_size_buckets_files [OF assms(1)] most_interesting_bucket_sub [OF assms(1)] by blast
qed

lemma files_by_segment_groups:
  assumes "files_by_segment h lc l d e = Ok m" and "find_uncompact_files h lc l e = Ok us"
  shows "groups_ok (\<lambda>k f. f \<in> set us \<and> truncate_by (exclusive_end (fh_time_range f)) d = (Ok k :: (picker_error, _) result)) m"
proof -
  have "res_fold (push_segment d) us [] = Ok m" using assms by (simp add: files_by_segment_def)
  then show ?thesis
    by (rule res_fold_inv) (auto simp: push_segment_def res_bind_eq_Ok intro: groups_ok_push)
qed

lemma get_time_buckets_groups:
  assumes "get_time_buckets us window u = Ok s"
  shows "groups_ok (\<lambda>k f. f \<in> set us \<and> window_of window u f = Ok k) (fst s)"
  using assms unfolding get_time_buckets_def
  by (rule res_fold_inv [where I = "\<lambda>s. groups_ok (\<lambda>k f. f \<in> set us \<and> window_of window u f = Ok k) (fst s)"])
    (auto simp: push_window_def res_bind_eq_Ok split: prod.splits intro: groups_ok_push)

lemma pick_bucket_sub:
  assumes "usort_ok usort" and "pick_bucket usort env by_seq opts now (key, bucket) = Ok (Some fs)"
  shows "set fs \<subseteq> set bucket"
proof -
  have "set fs \<subseteq> set bucket" if old: "pick_sst_for_old_bucket usort by_seq bucket opts = Ok (Some fs)"
  proof (cases by_seq)
    case True
    then show ?thesis using old pick_by_seq_sub [OF assms(1)] by (simp add: pick_sst_for_old_bucket_def)
  next
    case False
    then have "trim_to_threshold (usort (\<lambda>f. int (fh_size f)) bucket) (max_threshold opts) (max_input_sstable_size opts) = Ok fs"
      using old by (auto simp: pick_sst_for_old_bucket_def res_bind_eq_Ok split: if_splits)
    then show ?thesis using trim_to_threshold_sub usort_set [OF assms(1)] by metis
  qed
  then show ?thesis
    using assms(2) pick_ssts_sub [OF assms(1)] by (auto simp: pick_bucket_def split: if_splits)
qed

lemma time_window_candidates_Some:
  assumes "usort_ok usort" and "time_window_candidates usort env by_seq ctx h lc l e = Ok (Some fs)"
    and "find_uncompact_files h lc l e = Ok us"
  shows "set fs \<subseteq> set us \<and>
    (\<exists>k. \<forall>f \<in> set fs. window_of (segment_duration ctx) (timestamp_resolution (time_window_opts ctx)) f = Ok k)"
proof -
  let ?u = "timestamp_resolution (time_window_opts ctx)"
  obtain m mx now where m: "get_time_buckets us (segment_duration ctx) ?u = Ok (m, mx)"
    and "newest_bucket usort env by_seq m (size_tiered (time_window_opts ctx)) now = Ok (Some fs)"
    using assms(2,3)
    by (auto simp: time_window_candidates_def res_bind_eq_Ok Let_def split: if_splits prod.splits)
  then obtain k bucket where b: "(k, bucket) \<in> set m"
    and "pick_bucket usort env by_seq (size_tiered (time_window_opts ctx)) now (k, bucket) = Ok (Some fs)"
    unfolding newest_bucket_def by (auto dest!: first_picked_Some)
  then have "set fs \<subseteq> set bucket" using pick_bucket_sub [OF assms(1)] by blast
  moreover have "\<forall>f \<in> set bucket. f \<in> set us \<and> window_of (segment_duration ctx) ?u f = Ok k"
    using groups_okD [OF get_time_buckets_groups [OF m]] b by auto
  ultimately show ?thesis by blast
qed

lemma size_tiered_candidates_Some:
  assumes "usort_ok usort" and "size_tiered_candidates usort env by_seq ctx h lc l e = Ok (Some fs)"
    and "find_uncompact_files h lc l e = Ok us"
  shows "set fs \<subseteq> set us \<and>
    (\<exists>k. \<forall>f \<in> set fs. truncate_by (exclusive_end (fh_time_range f)) (segment_duration ctx) = (Ok k :: (picker_error, _) result))"
proof -
  obtain m where m: "files_by_segment h lc l (segment_duration ctx) e = Ok m"
    and "first_picked (\<lambda>(_, segment). pick_ssts usort env by_seq segment (size_tiered_opts ctx)) (rev m) = Ok (Some fs)"
    using assms(2) by (auto simp: size_tiered_candidates_def res_bind_eq_Ok)
  then obtain k bucket where b: "(k, bucket) \<in> set m"
    and "pick_ssts usort env by_seq bucket (size_tiered_opts ctx) = Ok (Some fs)"
    by (auto dest!: first_picked_Some)
  then have "set fs \<subseteq> set bucket" using pick_ssts_sub [OF assms(1)] by blast
  moreover have "\<forall>f \<in> set bucket. f \<in> set us \<and>
      truncate_by (exclusive_end (fh_time_range f)) (segment_duration ctx) = (Ok k :: (picker_error, _) result)"
    using groups_okD [OF files_by_segment_groups [OF m assms(3)] b] by blast
  ultimately show ?thesis by blast
qed

lemma pick_candidates_Some:
  assumes "usort_ok usort" and "pick_compact_candidates usort env by_seq ctx h lc e = Ok (Some input)"
    and "lc_wf h lc"
  shows "set (ci_files input) \<subseteq> {f \<in> lc_files lc. \<not> being_compacted h f \<and> \<not> range_is_expired (fh_time_range f) e} \<and>
    ci_output_level input = level_next (ci_level input)"
proof -
  obtain l fs where l: "l \<in> set (lc_level_list lc)" and fs: "level_picker usort env by_seq ctx h lc l e = Ok (Some fs)"
    and input: "input = \<lparr>ci_level = l, ci_files = fs, ci_output_level = level_next l\<rparr>"
    using assms(2) unfolding pick_compact_candidates_def
    by (auto dest!: first_picked_Some simp: res_bind_eq_Ok split: option.splits)
  have len: "length (lc_levels lc) = 2" "l < 2"
    using assms(3) l by (auto simp: lc_wf_def lc_level_list_def in_set_conv_nth)
  define us where "us = filter (\<lambda>f. \<not> being_compacted h f \<and> \<not> range_is_expired (fh_time_range f) e)
    (fhs_files (lh_files (lc_levels lc ! l)))"
  have us: "find_uncompact_files h lc l e = Ok us"
    using len by (simp add: find_uncompact_files_def iter_ssts_at_level_def index_res_def us_def)
  have "set fs \<subseteq> set us"
    using fs time_window_candidates_Some [OF assms(1) _ us] size_tiered_candidates_Some [OF assms(1) _ us]
    by (auto simp: level_picker_def split: compaction_strategy.splits)
  also have "set us \<subseteq> {f \<in> lc_files lc. \<not> being_compacted h f \<and> \<not> range_is_expired (fh_time_range f) e}"
    using len by (auto simp: us_def lc_files_def)
  finally show ?thesis using input by simp
qed

section \<open>The flags of a task\<close>

definition input_files :: "compaction_task \<Rightarrow> file_handle set" where
  "input_files t = (\<Union>i \<in> set (task_inputs t). set (ci_files i))"

definition expired_of :: "compaction_task \<Rightarrow> file_handle set" where
  "expired_of t = (\<Union>x \<in> set (task_expired t). set (ef_files x))"

lemma fold_set_flags:
  "next_addr (fold (\<lambda>f. set_being_compacted f b) fs h) = next_addr h"
  "compacted_flags (fold (\<lambda>f. set_being_compacted f b) fs h) a = (if a \<in> fh_addr ` set fs then b else compacted_flags h a)"
  by (induction fs arbitrary: h) (auto simp: set_being_compacted_def)

lemma fold_fold_set_flags:
  "next_addr (fold (\<lambda>x. fold (\<lambda>f. set_being_compacted f b) (g x)) xs h) = next_addr h"
  "compacted_flags (fold (\<lambda>x. fold (\<lambda>f. set_being_compacted f b) (g x)) xs h) a =
     (if a \<in> fh_addr ` (\<Union>x \<in> set xs. set (g x)) then b else compacted_flags h a)"
  by (induction xs arbitrary: h) (auto simp: fold_set_flags)

lemma mark_files:
  "next_addr (mark_files_being_compacted t b h) = next_addr h"
  "compacted_flags (mark_files_being_compacted t b h) a =
     (if a \<in> fh_addr ` (input_files t \<union> expired_of t) then b else compacted_flags h a)"
  by (simp_all add: mark_files_being_compacted_def fold_fold_set_flags input_files_def expired_of_def image_Un)

lemma lc_files_level:
  "length (lc_levels lc) = 2 \<Longrightarrow> l < 2 \<Longrightarrow> set (fhs_files (lh_files (lc_levels lc ! l))) \<subseteq> lc_files lc"
  unfolding lc_files_def by (rule UN_upper) simp

lemma expired_ssts_files:
  assumes "lc_wf h lc" and "expired_ssts lc e = (Ok expired :: (picker_error, _) result)"
  shows "\<forall>x \<in> set expired. set (ef_files x) \<subseteq> {f \<in> lc_files lc. range_is_expired (fh_time_range f) e}"
  using assms(2) unfolding expired_ssts_def
proof (rule res_fold_inv)
  fix l acc acc'
  assume l: "l \<in> set (lc_level_list lc)"
    and acc: "\<forall>x \<in> set acc. set (ef_files x) \<subseteq> {f \<in> lc_files lc. range_is_expired (fh_time_range f) e}"
    and "res_bind (collect_expired_at_level lc l e) (\<lambda>files. Ok (acc @ [\<lparr>ef_level = l, ef_files = files\<rparr>])) =
      (Ok acc' :: (picker_error, _) result)"
  moreover have len: "length (lc_levels lc) = 2" "l < 2"
    using assms(1) l by (auto simp: lc_wf_def lc_level_list_def in_set_conv_nth)
  ultimately have "acc' = acc @ [\<lparr>ef_level = l, ef_files =
      filter (\<lambda>f. range_is_expired (fh_time_range f) e) (fhs_files (lh_files (lc_levels lc ! l)))\<rparr>]"
    by (simp add: collect_expired_at_level_def index_res_def collect_expired_filter [OF lc_level_wf [OF assms(1)]])
  moreover have "set (fhs_files (lh_files (lc_levels lc ! l))) \<subseteq> lc_files lc" using len by (rule lc_files_level)
  ultimately show "\<forall>x \<in> set acc'. set (ef_files x) \<subseteq> {f \<in> lc_files lc. range_is_expired (fh_time_range f) e}"
    using acc by auto
qed simp

lemma pick_compaction_task:
  assumes "usort_ok usort" and "lc_wf h lc" and "pick_compaction usort env by_seq now ctx h lc = Ok (t, h')"
  defines "e \<equiv> map_option (expire_time now) (ttl ctx)"
  shows "h' = mark_files_being_compacted t True h"
    and "input_files t \<subseteq> {f \<in> lc_files lc. \<not> being_compacted h f \<and> \<not> range_is_expired (fh_time_range f) e}"
    and "expired_of t \<subseteq> {f \<in> lc_files lc. range_is_expired (fh_time_range f) e}"
    and "\<forall>i \<in> set (task_inputs t). ci_output_level i = level_next (ci_level i)"
proof -
  obtain expired inputs where x: "expired_ssts lc e = (Ok expired :: (picker_error, _) result)"
    and i: "pick_compact_candidates usort env by_seq ctx h lc e = Ok inputs"
    and t: "(t, h') = task_build (case inputs of Some input \<Rightarrow> add_inputs (with_expired expired) input
      | None \<Rightarrow> with_expired expired) h"
    using assms(3) by (auto simp: pick_compaction_def e_def res_bind_eq_Ok Let_def)
  then show "h' = mark_files_being_compacted t True h" by (simp add: task_build_def)
  have t: "task_expired t = expired" "task_inputs t = (case inputs of Some input \<Rightarrow> [input] | None \<Rightarrow> [])"
    using t by (auto simp: task_build_def add_inputs_def with_expired_def split: option.splits)
  show "expired_of t \<subseteq> {f \<in> lc_files lc. range_is_expired (fh_time_range f) e}"
    using expired_ssts_files [OF assms(2) x] t(1) by (auto simp: expired_of_def)
  show "input_files t \<subseteq> {f \<in> lc_files lc. \<not> being_compacted h f \<and> \<not> range_is_expired (fh_time_range f) e}"
    and "\<forall>i \<in> set (task_inputs t). ci_output_level i = level_next (ci_level i)"
    using pick_candidates_Some [OF assms(1) _ assms(2)] i t(2) by (auto simp: input_files_def split: option.splits)
qed

section \<open>Concurrent tasks\<close>

record comp_state =
  cs_heap :: arc_heap
  cs_levels :: levels_controller
  cs_tasks :: "compaction_task list"
  cs_expire :: "timestamp option"

definition expire_le :: "timestamp option \<Rightarrow> timestamp option \<Rightarrow> bool" where
  "expire_le e e' \<longleftrightarrow> (\<forall>r. range_is_expired r e \<longrightarrow> range_is_expired r e')"

text \<open>
  The life of a table's files: tasks are picked while the expiry time does not go back, any live task
  may be dropped, flushes add files and version edits remove them. The expiry time of a table is the
  current time minus its time to live, so this leaves out runs in which the option \<open>ttl\<close> is raised or
  switched off while tasks are live.
\<close>

inductive comp_run :: "unstable_sort \<Rightarrow> float_env \<Rightarrow> bool \<Rightarrow> comp_state \<Rightarrow> bool" for usort env by_seq where
  init: "lc_wf h lc \<Longrightarrow> comp_run usort env by_seq \<lparr>cs_heap = h, cs_levels = lc, cs_tasks = [], cs_expire = None\<rparr>"
| pick: "comp_run usort env by_seq s \<Longrightarrow>
    pick_compaction usort env by_seq now ctx (cs_heap s) (cs_levels s) = Ok (t, h') \<Longrightarrow>
    expire_le (cs_expire s) (map_option (expire_time now) (ttl ctx)) \<Longrightarrow>
    comp_run usort env by_seq (s\<lparr>cs_heap := h', cs_tasks := cs_tasks s @ [t],
      cs_expire := map_option (expire_time now) (ttl ctx)\<rparr>)"
| drop: "comp_run usort env by_seq s \<Longrightarrow> cs_tasks s = ts @ t # us \<Longrightarrow>
    comp_run usort env by_seq (s\<lparr>cs_heap := task_drop t (cs_heap s), cs_tasks := ts @ us\<rparr>)"
| add: "comp_run usort env by_seq s \<Longrightarrow> l < 2 \<Longrightarrow> range_wf (fm_time_range m) \<Longrightarrow>
    lc_abs (cs_levels s) l (fm_id m) = None \<Longrightarrow>
    add_sst_to_level (cs_heap s) (cs_levels s) l m = (Ok (h', lc') :: (unit, _) result) \<Longrightarrow>
    comp_run usort env by_seq (s\<lparr>cs_heap := h', cs_levels := lc'\<rparr>)"
| remove: "comp_run usort env by_seq s \<Longrightarrow> l < 2 \<Longrightarrow>
    remove_ssts_from_level (cs_levels s) l ids = (Ok lc' :: (unit, _) result) \<Longrightarrow>
    comp_run usort env by_seq (s\<lparr>cs_levels := lc'\<rparr>)"

definition known_files :: "comp_state \<Rightarrow> file_handle set" where
  "known_files s = lc_files (cs_levels s) \<union> (\<Union>t \<in> set (cs_tasks s). input_files t \<union> expired_of t)"

definition comp_inv :: "comp_state \<Rightarrow> bool" where
  "comp_inv s \<longleftrightarrow>
     lc_wf (cs_heap s) (cs_levels s) \<and> inj_on fh_addr (known_files s) \<and>
     (\<forall>f \<in> known_files s. fh_addr f < next_addr (cs_heap s)) \<and>
     (\<forall>t \<in> set (cs_tasks s). \<forall>f \<in> input_files t \<inter> lc_files (cs_levels s).
        being_compacted (cs_heap s) f \<or> range_is_expired (fh_time_range f) (cs_expire s)) \<and>
     (\<forall>t \<in> set (cs_tasks s). \<forall>f \<in> expired_of t. range_is_expired (fh_time_range f) (cs_expire s)) \<and>
     sorted_wrt (\<lambda>t u. input_files t \<inter> input_files u = {}) (cs_tasks s)"

lemmas comp_invD = comp_inv_def [THEN iffD1]

lemma comp_inv_pick:
  assumes "usort_ok usort" and "comp_inv s" and "expire_le (cs_expire s) (map_option (expire_time now) (ttl ctx))"
    and "pick_compaction usort env by_seq now ctx (cs_heap s) (cs_levels s) = Ok (t, h')"
  shows "comp_inv (s\<lparr>cs_heap := h', cs_tasks := cs_tasks s @ [t], cs_expire := map_option (expire_time now) (ttl ctx)\<rparr>)"
proof -
  let ?e = "map_option (expire_time now) (ttl ctx)"
  let ?s = "s\<lparr>cs_heap := h', cs_tasks := cs_tasks s @ [t], cs_expire := ?e\<rparr>"
  have wf: "lc_wf (cs_heap s) (cs_levels s)" using assms(2) by (simp add: comp_inv_def)
  note t = pick_compaction_task [OF assms(1) wf assms(4)]
  have mono: "range_is_expired r (cs_expire s) \<Longrightarrow> range_is_expired r ?e" for r using assms(3) by (simp add: expire_le_def)
  have known: "known_files ?s = known_files s" using t(2,3) by (auto simp: known_files_def)
  have next_h: "next_addr h' = next_addr (cs_heap s)" using t(1) by (simp add: mark_files)
  have flag: "being_compacted h' f" if "being_compacted (cs_heap s) f \<or> f \<in> input_files t" for f
    using that t(1) by (auto simp: being_compacted_def mark_files)
  have "lc_wf h' (cs_levels s)" using wf next_h by (simp add: lc_wf_def)
  moreover have "input_files u \<inter> input_files t = {}" if "u \<in> set (cs_tasks s)" for u
    using that assms(2) t(2) mono by (fastforce simp: comp_inv_def)
  moreover have "being_compacted h' f \<or> range_is_expired (fh_time_range f) ?e"
    if "u \<in> set (cs_tasks s @ [t])" "f \<in> input_files u \<inter> lc_files (cs_levels s)" for u f
  proof (cases "u = t")
    case False
    then have "being_compacted (cs_heap s) f \<or> range_is_expired (fh_time_range f) (cs_expire s)"
      using that assms(2) by (simp add: comp_inv_def)
    then show ?thesis using flag mono by blast
  qed (use that flag in blast)
  moreover have "range_is_expired (fh_time_range f) ?e" if "u \<in> set (cs_tasks s @ [t])" "f \<in> expired_of u" for u f
    using that assms(2) t(3) mono by (auto simp: comp_inv_def)
  ultimately show ?thesis
    using assms(2) known next_h unfolding comp_inv_def by (auto simp: sorted_wrt_append)
qed

lemma comp_inv_drop:
  assumes "comp_inv s" and "cs_tasks s = ts @ t # us"
  shows "comp_inv (s\<lparr>cs_heap := task_drop t (cs_heap s), cs_tasks := ts @ us\<rparr>)"
proof -
  let ?s = "s\<lparr>cs_heap := task_drop t (cs_heap s), cs_tasks := ts @ us\<rparr>"
  have sub: "known_files ?s \<subseteq> known_files s" using assms(2) by (auto simp: known_files_def)
  have inj: "inj_on fh_addr (known_files s)" using assms(1) by (simp add: comp_inv_def)
  have next_h: "next_addr (task_drop t (cs_heap s)) = next_addr (cs_heap s)" by (simp add: task_drop_def mark_files)
  have disj: "input_files u \<inter> input_files t = {}" if "u \<in> set (ts @ us)" for u
    using that assms by (auto simp: comp_inv_def sorted_wrt_append)
  have "being_compacted (task_drop t (cs_heap s)) f \<or> range_is_expired (fh_time_range f) (cs_expire s)"
    if u: "u \<in> set (ts @ us)" and f: "f \<in> input_files u \<inter> lc_files (cs_levels s)" for u f
  proof (cases "f \<in> expired_of t")
    case True
    then show ?thesis using assms by (auto simp: comp_inv_def)
  next
    case False
    moreover have "f \<notin> input_files t" using disj [OF u] f by blast
    moreover have "f \<in> known_files s" "input_files t \<union> expired_of t \<subseteq> known_files s"
      using f assms(2) by (auto simp: known_files_def)
    ultimately have "fh_addr f \<notin> fh_addr ` (input_files t \<union> expired_of t)"
      using inj_on_image_mem_iff [OF inj] by blast
    then have "being_compacted (task_drop t (cs_heap s)) f = being_compacted (cs_heap s) f"
      by (simp add: being_compacted_def task_drop_def mark_files)
    then show ?thesis using u f assms by (auto simp: comp_inv_def)
  qed
  then show ?thesis
    using assms sub next_h inj_on_subset [OF inj sub] unfolding comp_inv_def
    by (auto simp: lc_wf_def sorted_wrt_append)
qed

lemma comp_inv_add:
  assumes "comp_inv s" and "l < 2" and "range_wf (fm_time_range m)" and "lc_abs (cs_levels s) l (fm_id m) = None"
    and "add_sst_to_level (cs_heap s) (cs_levels s) l m = (Ok (h', lc') :: (unit, _) result)"
  shows "comp_inv (s\<lparr>cs_heap := h', cs_levels := lc'\<rparr>)"
proof -
  let ?f = "\<lparr>fh_addr = next_addr (cs_heap s), fh_meta = m\<rparr>" and ?s = "s\<lparr>cs_heap := h', cs_levels := lc'\<rparr>"
  have inv: "lc_wf (cs_heap s) (cs_levels s)" "inj_on fh_addr (known_files s)"
    "\<forall>f \<in> known_files s. fh_addr f < next_addr (cs_heap s)" using assms(1) by (simp_all add: comp_inv_def)
  have wf: "lc_wf h' lc'" and files: "lc_files lc' = insert ?f (lc_files (cs_levels s))"
    and h': "next_addr h' = next_addr (cs_heap s) + 1" "compacted_flags h' = (compacted_flags (cs_heap s))(next_addr (cs_heap s) := False)"
    using add_sst [OF inv(1) assms(2-4), where 'e = unit] assms(5) by auto
  have known: "known_files ?s = insert ?f (known_files s)" using files by (simp add: known_files_def)
  have fresh: "f \<noteq> ?f" "fh_addr f \<noteq> next_addr (cs_heap s)" if "f \<in> known_files s" for f using inv(3) that by auto
  then have "fh_addr ?f \<notin> fh_addr ` (known_files s - {?f})" by force
  with inv(2) have "inj_on fh_addr (known_files ?s)" unfolding known inj_on_insert by simp
  moreover have "\<forall>f \<in> known_files ?s. fh_addr f < next_addr h'" using inv(3) h'(1) unfolding known by auto
  moreover have "being_compacted h' f \<or> range_is_expired (fh_time_range f) (cs_expire s)"
    if "t \<in> set (cs_tasks s)" "f \<in> input_files t \<inter> lc_files lc'" for t f
  proof -
    have "f \<in> known_files s" using that(1,2) by (auto simp: known_files_def)
    then have "f \<in> lc_files (cs_levels s)" "being_compacted h' f = being_compacted (cs_heap s) f"
      using fresh that(2) files h'(2) by (auto simp: being_compacted_def)
    then show ?thesis using that assms(1) by (auto simp: comp_inv_def)
  qed
  ultimately show ?thesis using assms(1) wf by (simp add: comp_inv_def)
qed

lemma comp_inv_remove:
  assumes "comp_inv s" and "l < 2" and "remove_ssts_from_level (cs_levels s) l ids = (Ok lc' :: (unit, _) result)"
  shows "comp_inv (s\<lparr>cs_levels := lc'\<rparr>)"
proof -
  have "lc_wf (cs_heap s) (cs_levels s)" using assms(1) by (simp add: comp_inv_def)
  from remove_ssts [OF this assms(2), of ids, where 'e = unit] assms(3)
  have wf: "lc_wf (cs_heap s) lc'" and files: "lc_files lc' \<subseteq> lc_files (cs_levels s)" by auto
  have sub: "known_files (s\<lparr>cs_levels := lc'\<rparr>) \<subseteq> known_files s" using files by (auto simp: known_files_def)
  have inj: "inj_on fh_addr (known_files s)" using assms(1) by (simp add: comp_inv_def)
  show ?thesis
    using assms(1) wf files sub inj_on_subset [OF inj sub] unfolding comp_inv_def by (simp, blast)
qed

lemma comp_run_inv:
  assumes "usort_ok usort" and "comp_run usort env by_seq s"
  shows "comp_inv s"
  using assms(2)
proof (induction rule: comp_run.induct)
  case (init h lc)
  then show ?case by (simp add: comp_inv_def known_files_def lc_wf_def)
next
  case (pick s now ctx t h')
  then show ?case using comp_inv_pick [OF assms(1)] by blast
next
  case (drop s ts t us)
  then show ?case using comp_inv_drop by blast
next
  case (add s l m h' lc')
  then show ?case using comp_inv_add by blast
next
  case (remove s l ids lc')
  then show ?case using comp_inv_remove by blast
qed

section \<open>When the pickers return\<close>

lemma first_picked_total:
  assumes "\<And>x. x \<in> set xs \<Longrightarrow> \<exists>r. pick x = Ok r"
  shows "\<exists>r. first_picked pick xs = Ok r"
  using assms
proof (induction xs)
  case (Cons x xs)
  then obtain r where "pick x = Ok r" by auto
  with Cons show ?case by (cases r) auto
qed simp

lemma sum_take_drop_le: "sum_list (map g (take n (drop k xs))) \<le> sum_list (map g xs)" for g :: "'a \<Rightarrow> nat"
proof -
  have split: "sum_list (map g ys) = sum_list (map g (take i ys)) + sum_list (map g (drop i ys))" for i ys
    by (metis append_take_drop_id map_append sum_list_append)
  show ?thesis using split [of xs k] split [of "drop k xs" n] by linarith
qed

lemma try_steps_total:
  assumes "sum_list (map fh_size files) \<le> u64_max" and "\<forall>step \<in> set steps. start + step \<le> u64_max"
  shows "\<exists>r. try_steps files start min_th max_size steps = Ok r"
  using assms(2)
proof (induction steps)
  case (Cons step steps)
  let ?w = "take (min (start + step) (length files) - start) (drop start files)"
  have "sum_list (map fh_size ?w) \<le> sum_list (map fh_size files)" by (rule sum_take_drop_le)
  then have "sum_u64 (map fh_size ?w) = Ok (sum_list (map fh_size ?w))" using assms(1) by (simp add: sum_u64_eq)
  then show ?case using Cons by (simp add: Let_def)
qed simp

lemma pick_by_seq_total:
  assumes "usort_ok usort" and "sum_list (map fh_size files) \<le> u64_max" and "length files + max_th \<le> u64_max"
  shows "\<exists>r. pick_by_seq usort files min_th max_th max_size = Ok r"
proof -
  let ?s = "usort (\<lambda>f. - int (fh_max_seq f)) files"
  have "\<exists>r. try_starts ?s min_th max_th max_size starts = Ok r" if "set starts \<subseteq> {..<length ?s}" for starts
    using that
  proof (induction starts)
    case (Cons start starts)
    have "\<exists>r. try_steps ?s start min_th max_size (rev [min_th..<Suc max_th]) = Ok r"
      using Cons(2) assms by (intro try_steps_total) (auto simp: usort_sum usort_length)
    then obtain r where "try_steps ?s start min_th max_size (rev [min_th..<Suc max_th]) = Ok r" by blast
    with Cons show ?case by (cases r) auto
  qed simp
  moreover have "set [0..<length ?s] \<subseteq> {..<length ?s}" by auto
  ultimately show ?thesis unfolding pick_by_seq_def Let_def by blast
qed

lemma try_steps_None:
  assumes "try_steps files start min_th max_size (rev [min_th..<Suc max_th]) = Ok None" and "min_th \<le> max_th"
    and "start + min_th \<le> length files"
  shows "max_size < sum_list (map fh_size (take min_th (drop start files)))"
proof -
  have "max_size < sum_list (map fh_size (take min_th (drop start files)))"
    if "try_steps files start min_th max_size (steps @ [min_th]) = Ok None" "\<forall>step \<in> set steps. min_th \<le> step" for steps
    using that
  proof (induction steps)
    case Nil
    then show ?case using assms(3) by (auto simp: Let_def sum_u64_eq min_absorb1 split: if_splits)
  next
    case (Cons step steps)
    have "try_steps files start min_th max_size (steps @ [min_th]) = Ok None"
      using Cons(2,3) assms(3) by (auto simp: Let_def sum_u64_eq split: if_splits)
    with Cons show ?case by simp
  qed
  moreover have "rev [min_th..<Suc max_th] = rev [Suc min_th..<Suc max_th] @ [min_th]"
    using assms(2) by (subst upt_conv_Cons) simp_all
  ultimately show ?thesis using assms(1) by (metis atLeastLessThan_iff Suc_leD set_rev set_upt)
qed

lemma pick_by_seq_None:
  assumes "pick_by_seq usort files min_th max_th max_size = Ok None" and "min_th \<le> max_th"
    and "start + min_th \<le> length (usort (\<lambda>f. - int (fh_max_seq f)) files)" and "0 < min_th"
  shows "max_size < sum_list (map fh_size (take min_th (drop start (usort (\<lambda>f. - int (fh_max_seq f)) files))))"
proof -
  let ?s = "usort (\<lambda>f. - int (fh_max_seq f)) files"
  have "try_steps ?s st min_th max_size (rev [min_th..<Suc max_th]) = Ok None"
    if "try_starts ?s min_th max_th max_size starts = Ok None" "st \<in> set starts" for st starts
    using that
  proof (induction starts)
    case (Cons a starts)
    obtain r where r: "try_steps ?s a min_th max_size (rev [min_th..<Suc max_th]) = Ok r"
      using Cons(2) by (auto simp only: try_starts.simps res_bind_eq_Ok)
    with Cons(2) have "r = None" by (cases r) (simp_all only: try_starts.simps, simp)
    with Cons r show ?case by auto
  qed simp
  moreover have "start \<in> set [0..<length ?s]" using assms(3,4) by simp
  moreover have "try_starts ?s min_th max_th max_size [0..<length ?s] = Ok None"
    using assms(1) by (simp add: pick_by_seq_def Let_def)
  ultimately have "try_steps ?s start min_th max_size (rev [min_th..<Suc max_th]) = Ok None" by blast
  then show ?thesis using try_steps_None assms(2,3) by blast
qed

section \<open>Time windows\<close>

definition window_left :: "int \<Rightarrow> int \<Rightarrow> int" where
  "window_left sz ts = ts div 1000 div sz * sz * 1000"

lemma window_left_mono: "0 < sz \<Longrightarrow> ts \<le> ts' \<Longrightarrow> window_left sz ts \<le> window_left sz ts'"
  by (simp add: window_left_def zdiv_mono1)

lemma window_size_wrap:
  assumes "int (as_secs window) \<le> i64_max"
  shows "sint (of_nat (as_secs window) :: u64) = int (as_secs window)"
  using assms by (simp add: signed_of_nat signed_take_bit_int_eq_self)

lemma window_bounds_nonneg:
  assumes "0 \<le> ts" and "0 < as_secs window" and "ts + 1000 * int (as_secs window) \<le> i64_max"
  shows "\<exists>u. get_window_bounds_in_millis window ts = Ok (window_left (int (as_secs window)) ts, u)"
proof -
  define sz where "sz = int (as_secs window)"
  have sz: "0 < sz" "1000 * sz \<le> i64_max - ts" using assms(2,3) by (simp_all add: sz_def)
  have wrap: "sint (of_nat (as_secs window) :: u64) = sz"
    using window_size_wrap [of window] sz assms(1) by (simp add: sz_def)
  let ?s = "ts div 1000"
  have s: "0 \<le> ?s" "?s * 1000 \<le> ts" using assms(1) by (simp_all add: pos_imp_zdiv_nonneg_iff)
  have div: "ts sdiv 1000 = ?s" "?s sdiv sz = ?s div sz"
    using floor_by_trunc(1) [of 1000 ts] floor_by_trunc(1) [OF sz(1), of ?s] assms(1) s(1) by simp_all
  have smod: "?s smod sz = ?s mod sz"
    using s(1) sz(1) by (cases "?s = 0") (simp_all add: signed_modulo_int_def)
  have lower: "?s - ?s mod sz = ?s div sz * sz" by (simp add: minus_mod_eq_div_mult)
  have "0 \<le> ?s div sz" "0 \<le> ?s div sz * sz" "?s div sz * sz \<le> ?s" "?s div sz \<le> ?s"
    using s(1) sz(1) floor_bounds(1) [OF sz(1), of ?s] zdiv_mono2 [of ?s 1 sz]
    by (simp_all add: pos_imp_zdiv_nonneg_iff)
  moreover define L where "L = ?s div sz * sz"
  ultimately have L: "0 \<le> L" "L \<le> ?s" "0 \<le> ?s div sz" "?s div sz \<le> ?s" by simp_all
  then have "L * 1000 \<le> ts" "(L + sz - 1) * 1000 \<le> i64_max" "0 \<le> (L + sz - 1) * 1000"
    using s sz by (simp_all add: algebra_simps)
  then have "in_i64 (?s div sz)" "in_i64 L" "in_i64 (L + sz)" "in_i64 (L + sz - 1)" "in_i64 (L * 1000)"
    "in_i64 ((L + sz - 1) * 1000)"
    using L s sz unfolding in_i64_def by linarith+
  then show ?thesis
    unfolding get_window_bounds_in_millis_def wrap Let_def div smod lower window_left_def sz_def [symmetric] L_def [symmetric]
    using sz(1) by (simp add: i64_res_def)
qed

lemma window_of_nonneg:
  assumes "0 \<le> exclusive_end (fh_time_range f)" and "0 < as_secs window"
    and "exclusive_end (fh_time_range f) + 1000 * int (as_secs window) \<le> i64_max"
  shows "window_of window Milliseconds f = Ok (window_left (int (as_secs window)) (exclusive_end (fh_time_range f)))"
  using window_bounds_nonneg [OF assms] by (auto simp: window_of_def resolve_timestamp_def)

lemma push_windows_eq:
  assumes "\<forall>f \<in> set us. window_of window u f = Ok (w f)"
  shows "\<exists>mx'. res_fold (push_window window u) us (m, mx) = Ok (fold (\<lambda>f. bt_push (w f) f) us m, mx') \<and>
    (\<forall>b. mx \<le> b \<longrightarrow> (\<forall>f \<in> set us. w f \<le> b) \<longrightarrow> mx' \<le> b)"
  using assms
proof (induction us arbitrary: m mx)
  case (Cons f us)
  then show ?case by (force simp: push_window_def)
qed simp

lemma latest_max:
  assumes "fhs_wf s" and "f \<in> set (fhs_files s)"
  shows "\<exists>g. fhs_latest s = Some g \<and> g \<in> set (fhs_files s) \<and>
    exclusive_end (fh_time_range f) \<le> exclusive_end (fh_time_range g)"
proof -
  have "sorted_wrt (\<lambda>f g. exclusive_end (fh_time_range f) \<le> exclusive_end (fh_time_range g)) (fhs_files s)"
    using fhs_wf_sorted [OF assms(1)]
    by (rule sorted_wrt_mono_rel [rotated]) (auto simp: key_of_def less_prod_def less_eq_prod_def)
  moreover have "exclusive_end (fh_time_range f) \<le> exclusive_end (fh_time_range (last fs))"
    if "sorted_wrt (\<lambda>f g. exclusive_end (fh_time_range f) \<le> exclusive_end (fh_time_range g)) fs" "f \<in> set fs" for fs
    using that by (induction fs) auto
  ultimately show ?thesis using assms(2) by (auto simp: fhs_latest_def)
qed

lemma time_window_total:
  fixes ctx :: picker_context
  assumes "usort_ok usort" and "lc_wf h lc" and "l < 2"
  defines "files \<equiv> fhs_files (lh_files (lc_levels lc ! l))" and "window \<equiv> segment_duration ctx"
    and "opts \<equiv> time_window_opts ctx"
  assumes "timestamp_resolution opts = Milliseconds" and "0 < as_secs window"
    and "\<forall>f \<in> set files. 0 \<le> exclusive_end (fh_time_range f) \<and>
      exclusive_end (fh_time_range f) + 1000 * int (as_secs window) \<le> i64_max"
    and "sum_list (map fh_size files) \<le> u64_max" and "length files + max_threshold (size_tiered opts) \<le> u64_max"
  shows "\<exists>r. time_window_candidates usort env True ctx h lc l e = Ok r"
proof -
  define us where "us = filter (\<lambda>f. \<not> being_compacted h f \<and> \<not> range_is_expired (fh_time_range f) e) files"
  define w where "w = (\<lambda>f. window_left (int (as_secs window)) (exclusive_end (fh_time_range f)))"
  have len: "length (lc_levels lc) = 2" using assms(2) by (simp add: lc_wf_def)
  have find: "find_uncompact_files h lc l e = Ok us"
    using len assms(3) by (simp add: find_uncompact_files_def iter_ssts_at_level_def index_res_def us_def files_def)
  have w: "window_of window Milliseconds f = Ok (w f)" if "f \<in> set files" for f
    using window_of_nonneg [OF _ assms(8)] assms(9) that by (simp add: w_def)
  show ?thesis
  proof (cases "us = []")
    case True
    then show ?thesis using find by (simp add: time_window_candidates_def)
  next
    case False
    then obtain f where "f \<in> set us" by (cases us) auto
    then have "f \<in> set files" by (simp add: us_def)
    then obtain g where g: "fhs_latest (lh_files (lc_levels lc ! l)) = Some g" "g \<in> set files"
      using latest_max [OF lc_level_wf [OF assms(2,3)]] unfolding files_def by blast
    have now: "get_current_window lc l window Milliseconds = Ok (w g)"
      using g w len assms(3) by (simp add: get_current_window_def latest_sst_def index_res_def)
    have le: "w f \<le> w g" if "f \<in> set files" for f
      using latest_max [OF lc_level_wf [OF assms(2,3)], of f] g(1) that assms(8)
      by (auto simp: w_def files_def intro: window_left_mono)
    have "0 \<le> w g"
      using g(2) assms(8,9) by (auto simp: w_def window_left_def pos_imp_zdiv_nonneg_iff)
    obtain mx where b: "get_time_buckets us window Milliseconds = Ok (fold (\<lambda>f. bt_push (w f) f) us [], mx)" and "mx \<le> w g"
      using push_windows_eq [of us window Milliseconds w "[]" 0] w le \<open>0 \<le> w g\<close>
      unfolding get_time_buckets_def us_def by auto
    moreover have "\<exists>r. newest_bucket usort env True (fold (\<lambda>f. bt_push (w f) f) us []) (size_tiered opts) (w g) = Ok r"
      unfolding newest_bucket_def
    proof (rule first_picked_total)
      let ?m = "fold (\<lambda>f. bt_push (w f) f) us []"
      fix kb assume "kb \<in> set (rev ?m)"
      moreover obtain k bucket where kb: "kb = (k, bucket)" by (cases kb)
      moreover have "bt_wf ?m" by (rule bt_wf_group [OF bt_wf_Nil])
      ultimately have "bt_get ?m k = Some bucket" by (simp only: set_rev bt_get_Some_iff)
      then have "bucket = filter (\<lambda>f. w f = k) us" by (simp add: bt_get_group split: list.splits)
      then have bucket: "bucket = filter (\<lambda>f. (\<not> being_compacted h f \<and> \<not> range_is_expired (fh_time_range f) e) \<and> w f = k) files"
        by (simp add: us_def conj_commute)
      have "sum_list (map fh_size bucket) \<le> sum_list (map fh_size files)"
        unfolding bucket by (rule sum_list_filter_le_nat)
      moreover have "length bucket \<le> length files" unfolding bucket by (rule length_filter_le)
      ultimately have "\<exists>r. pick_by_seq usort bucket n (max_threshold (size_tiered opts)) m = Ok r" for n m
        using assms(1,10,11) by (intro pick_by_seq_total) simp_all
      then show "\<exists>r. pick_bucket usort env True (size_tiered opts) (w g) kb = Ok r"
        by (simp add: kb pick_bucket_def pick_ssts_def pick_sst_for_old_bucket_def)
    qed
    ultimately show ?thesis
      using find False now assms(7) by (simp add: time_window_candidates_def window_def [symmetric] opts_def [symmetric] Let_def)
  qed
qed

section \<open>Properties\<close>

text \<open>
  C34. What \<open>pick_by_seq\<close> picks: a run of the files in descending order of sequence number, between
  the two thresholds in length and at most the maximum input size, so that no other file of the
  segment lies between two picked ones; and when it picks nothing, every run of the minimal length
  is too large.\<close>

theorem pick_by_seq_spec:
  assumes "usort_ok usort" and "pick_by_seq usort files min_th max_th max_size = Ok r"
    and "0 < min_th" and "min_th \<le> max_th"
  shows "case r of
      Some fs \<Rightarrow> \<exists>pre post. mset (pre @ fs @ post) = mset files \<and>
        sorted_wrt (\<lambda>f g. fh_max_seq g \<le> fh_max_seq f) (pre @ fs @ post) \<and>
        min_th \<le> length fs \<and> length fs \<le> max_th \<and> sum_list (map fh_size fs) \<le> max_size
    | None \<Rightarrow> \<exists>sorted_files. mset sorted_files = mset files \<and>
        sorted_wrt (\<lambda>f g. fh_max_seq g \<le> fh_max_seq f) sorted_files \<and>
        (\<forall>start. start + min_th \<le> length files \<longrightarrow>
           max_size < sum_list (map fh_size (take min_th (drop start sorted_files))))"
proof (cases r)
  case (Some fs)
  then show ?thesis using pick_by_seq_Some [OF assms(1)] assms(2) by simp
next
  case None
  let ?s = "usort (\<lambda>f. - int (fh_max_seq f)) files"
  have "mset ?s = mset files" "sorted_wrt (\<lambda>f g. fh_max_seq g \<le> fh_max_seq f) ?s"
    using assms(1) by (simp_all add: usort_ok_def sorted_wrt_map [symmetric])
      (metis (mono_tags, lifting) neg_le_iff_le of_nat_le_iff sorted_wrt_map sorted_wrt_mono_rel)
  moreover have "\<forall>start. start + min_th \<le> length files \<longrightarrow> max_size < sum_list (map fh_size (take min_th (drop start ?s)))"
    using pick_by_seq_None [of usort files min_th max_th max_size] assms None usort_length [OF assms(1)] by simp
  ultimately show ?thesis using None by auto
qed

definition demo_env :: float_env where
  "demo_env = \<lparr>f32_of_u64 = (\<lambda>_. 0), f32_mul = (\<lambda>_ _. 0), f64_of_u64 = (\<lambda>_. 0), f64_div = (\<lambda>_ _. 0),
     f64_sum = (\<lambda>_. 0), h2_rate = (\<lambda>_. 0)\<rparr>"

definition demo_levels :: "file_handle_set \<Rightarrow> levels_controller" where
  "demo_levels fs = (let lc = levels_controller_new (purge_queue_new 1 2)
     in lc\<lparr>lc_levels := (lc_levels lc)[0 := \<lparr>lh_level = 0, lh_files = fs\<rparr>]\<rparr>)"

definition demo_heap :: arc_heap where
  "demo_heap = \<lparr>next_addr = 2, compacted_flags = \<lambda>_. False\<rparr>"

definition demo_ctx :: picker_context where
  "demo_ctx = \<lparr>segment_duration = 3600 * 1000000000, ttl = None,
     strategy = TimeWindow (time_window_default\<lparr>size_tiered := size_tiered_default\<lparr>min_threshold := 2\<rparr>\<rparr>)\<rparr>"

lemma demo_levels_wf: "lc_wf demo_heap (demo_levels demo_files)"
proof -
  have "fhs_files demo_files = [\<lparr>fh_addr = 0, fh_meta = demo_meta 1 0 10\<rparr>, \<lparr>fh_addr = 1, fh_meta = demo_meta 2 5 20\<rparr>]"
    by code_simp
  then have "lc_files (demo_levels demo_files) = {\<lparr>fh_addr = 0, fh_meta = demo_meta 1 0 10\<rparr>, \<lparr>fh_addr = 1, fh_meta = demo_meta 2 5 20\<rparr>}"
    by (simp add: lc_files_update demo_levels_def Let_def lc_new_levels) (simp add: fhs_files_def fhs_empty_def)
  then show ?thesis
    by (simp add: lc_wf_def demo_levels_def Let_def lc_new_levels demo_files_wf fhs_wf_empty demo_heap_def nth_list_update)
qed

theorem pick_by_seq_spec_witness:
  "pick_by_seq sort_key (fhs_files demo_files) 2 4 100 = Ok (Some (rev (fhs_files demo_files))) \<and>
   (\<exists>pre post. mset (pre @ rev (fhs_files demo_files) @ post) = mset (fhs_files demo_files) \<and>
      sorted_wrt (\<lambda>f g. fh_max_seq g \<le> fh_max_seq f) (pre @ rev (fhs_files demo_files) @ post))"
proof -
  have "pick_by_seq sort_key (fhs_files demo_files) 2 4 100 = Ok (Some (rev (fhs_files demo_files)))" by code_simp
  with pick_by_seq_spec [OF sort_key_usort_ok this] show ?thesis by auto
qed

text \<open>
  C31. Compaction tasks do not interfere: however picks, finished tasks, flushes and version edits
  interleave, no file is the input of two live tasks, and an input still in the levels is marked as
  being compacted until its task is dropped, unless it has expired meanwhile.  The expiry time does
  not go back in these runs: the time to live of the table is not raised while tasks are live.\<close>

theorem compaction_tasks_disjoint:
  assumes "usort_ok usort" and "comp_run usort env by_seq s"
  shows "sorted_wrt (\<lambda>t u. input_files t \<inter> input_files u = {}) (cs_tasks s) \<and>
    (\<forall>t \<in> set (cs_tasks s). \<forall>f \<in> input_files t \<inter> lc_files (cs_levels s).
       being_compacted (cs_heap s) f \<or> range_is_expired (fh_time_range f) (cs_expire s))"
  using comp_run_inv [OF assms] by (simp add: comp_inv_def)

theorem compaction_tasks_disjoint_witness:
  "\<exists>t h u h'. pick_compaction sort_key demo_env True 100 demo_ctx demo_heap (demo_levels demo_files) = Ok (t, h) \<and>
     pick_compaction sort_key demo_env True 200 demo_ctx h (demo_levels demo_files) = Ok (u, h') \<and>
     num_compact_files t = 2 \<and> input_files t \<inter> input_files u = {}"
proof -
  let ?pick = "\<lambda>now h. pick_compaction sort_key demo_env True now demo_ctx h (demo_levels demo_files)"
  have "case ?pick 100 demo_heap of Ok (t, h) \<Rightarrow> num_compact_files t = 2 \<and> (case ?pick 200 h of Ok (u, h') \<Rightarrow> True | _ \<Rightarrow> False) | _ \<Rightarrow> False"
    by code_simp
  then obtain t h where t: "?pick 100 demo_heap = Ok (t, h)" "num_compact_files t = 2"
    and "case ?pick 200 h of Ok (u, h') \<Rightarrow> True | _ \<Rightarrow> False"
    by (cases "?pick 100 demo_heap") auto
  then obtain u h' where u: "?pick 200 h = Ok (u, h')" by (cases "?pick 200 h") auto
  let ?s = "\<lparr>cs_heap = demo_heap, cs_levels = demo_levels demo_files, cs_tasks = [], cs_expire = None\<rparr>"
  have "comp_run sort_key demo_env True (?s\<lparr>cs_heap := h, cs_tasks := [t], cs_expire := None\<rparr>)"
    using comp_run.pick [OF comp_run.init [OF demo_levels_wf], of sort_key demo_env True 100 demo_ctx t h] t
    by (simp add: expire_le_def demo_ctx_def)
  from comp_run.pick [OF this, of 200 demo_ctx u h'] u
  have "comp_run sort_key demo_env True (?s\<lparr>cs_heap := h', cs_tasks := [t, u], cs_expire := None\<rparr>)"
    by (simp add: expire_le_def demo_ctx_def)
  from compaction_tasks_disjoint [OF sort_key_usort_ok this] show ?thesis using t u by auto
qed

text \<open>
  C33. The time window picker returns without a panic on a level whose files end at non-negative times
  that leave room for one window below the maximum, whose sizes fit 64 bits, and what it picks are
  unexpired files of that level that no task holds, all of one window.\<close>

theorem time_window_picker_safe:
  assumes "usort_ok usort" and "lc_wf h lc" and "l < 2"
    and "timestamp_resolution (time_window_opts ctx) = Milliseconds" and "0 < as_secs (segment_duration ctx)"
    and "\<forall>f \<in> set (fhs_files (lh_files (lc_levels lc ! l))). 0 \<le> exclusive_end (fh_time_range f) \<and>
      exclusive_end (fh_time_range f) + 1000 * int (as_secs (segment_duration ctx)) \<le> i64_max"
    and "sum_list (map fh_size (fhs_files (lh_files (lc_levels lc ! l)))) \<le> u64_max"
    and "length (fhs_files (lh_files (lc_levels lc ! l))) + max_threshold (size_tiered (time_window_opts ctx)) \<le> u64_max"
  shows "\<exists>r. time_window_candidates usort env True ctx h lc l e = Ok r \<and>
    (\<forall>fs. r = Some fs \<longrightarrow>
      set fs \<subseteq> {f \<in> set (fhs_files (lh_files (lc_levels lc ! l))).
        \<not> being_compacted h f \<and> \<not> range_is_expired (fh_time_range f) e} \<and>
      (\<exists>k. \<forall>f \<in> set fs. window_left (int (as_secs (segment_duration ctx))) (exclusive_end (fh_time_range f)) = k))"
proof -
  let ?files = "fhs_files (lh_files (lc_levels lc ! l))"
  obtain r where r: "time_window_candidates usort env True ctx h lc l e = Ok r"
    using time_window_total [OF assms] by blast
  have find: "find_uncompact_files h lc l e =
      Ok (filter (\<lambda>f. \<not> being_compacted h f \<and> \<not> range_is_expired (fh_time_range f) e) ?files)"
    using assms(2,3) by (simp add: find_uncompact_files_def iter_ssts_at_level_def index_res_def lc_wf_def)
  have "set fs \<subseteq> {f \<in> set ?files. \<not> being_compacted h f \<and> \<not> range_is_expired (fh_time_range f) e} \<and>
      (\<exists>k. \<forall>f \<in> set fs. window_left (int (as_secs (segment_duration ctx))) (exclusive_end (fh_time_range f)) = k)"
    if fs: "r = Some fs" for fs
  proof -
    from time_window_candidates_Some [OF assms(1) r [unfolded fs] find] obtain k
      where sub: "set fs \<subseteq> {f \<in> set ?files. \<not> being_compacted h f \<and> \<not> range_is_expired (fh_time_range f) e}"
        and k: "\<forall>f \<in> set fs. window_of (segment_duration ctx) Milliseconds f = Ok k"
      using assms(4) by auto
    have "window_left (int (as_secs (segment_duration ctx))) (exclusive_end (fh_time_range f)) = k" if "f \<in> set fs" for f
      using window_of_nonneg [OF _ assms(5), of f] assms(6) sub k that by auto
    then show ?thesis using sub by blast
  qed
  then show ?thesis using r by blast
qed

theorem time_window_picker_safe_witness:
  "\<exists>fs. time_window_candidates sort_key demo_env True demo_ctx demo_heap (demo_levels demo_files) 0 None = Ok (Some fs) \<and>
     set fs \<subseteq> set (fhs_files demo_files) \<and>
     (\<exists>k. (\<lambda>f. window_left 3600 (exclusive_end (fh_time_range f))) ` set fs \<subseteq> {k})"
proof -
  have files: "fhs_files (lh_files (lc_levels (demo_levels demo_files) ! 0)) = fhs_files demo_files"
    by (simp add: demo_levels_def Let_def lc_new_levels)
  have ends: "\<forall>f \<in> set (fhs_files demo_files). 0 \<le> exclusive_end (fh_time_range f) \<and>
      exclusive_end (fh_time_range f) + 1000 * int (as_secs (segment_duration demo_ctx)) \<le> i64_max" by code_simp
  have bounds: "timestamp_resolution (time_window_opts demo_ctx) = Milliseconds" "0 < as_secs (segment_duration demo_ctx)"
    "sum_list (map fh_size (fhs_files demo_files)) \<le> u64_max"
    "length (fhs_files demo_files) + max_threshold (size_tiered (time_window_opts demo_ctx)) \<le> u64_max"
    "as_secs (segment_duration demo_ctx) = 3600" by code_simp+
  have "case time_window_candidates sort_key demo_env True demo_ctx demo_heap (demo_levels demo_files) 0 None of
      Ok (Some fs) \<Rightarrow> True | _ \<Rightarrow> False" by code_simp
  then obtain fs where fs: "time_window_candidates sort_key demo_env True demo_ctx demo_heap (demo_levels demo_files) 0 None = Ok (Some fs)"
    by (auto split: result.splits option.splits)
  from time_window_picker_safe [OF sort_key_usort_ok demo_levels_wf, of 0 demo_ctx demo_env None, unfolded files]
    ends bounds fs obtain k where "set fs \<subseteq> set (fhs_files demo_files)"
      "\<forall>f \<in> set fs. window_left 3600 (exclusive_end (fh_time_range f)) = k" by auto
  then show ?thesis using fs by (intro exI [of _ fs] conjI exI [of _ k]) auto
qed

text \<open>Windows before the epoch: the start of the window of a file is cut towards zero.\<close>

lemma window_bounds_neg:
  assumes "0 < as_secs window" and "int (as_secs window) \<le> i64_max" and "ts \<le> - 1000 * int (as_secs window)"
    and "get_window_bounds_in_millis window ts = Ok (left, right)"
  shows "left < 0"
proof -
  define sz where "sz = int (as_secs window)"
  have sz: "0 < sz" "ts \<le> - (1000 * sz)" using assms(1,3) by (simp_all add: sz_def)
  define s where "s = - ts div 1000"
  have s: "ts sdiv 1000 = - s" "sz \<le> s"
    using sz zdiv_mono1 [of "1000 * sz" "- ts" 1000] by (simp_all add: s_def signed_divide_int_def)
  have "- s smod sz = - (s mod sz)" using sz(1) s(2) by (simp add: signed_modulo_int_def)
  then have "- s - - s smod sz = - (s div sz * sz)" by (simp add: minus_mod_eq_div_mult [symmetric])
  moreover have "0 < s div sz * sz" using sz(1) s(2) by (simp add: pos_imp_zdiv_pos_iff)
  moreover have "left = (- s - - s smod sz) * 1000"
    using assms(4) unfolding get_window_bounds_in_millis_def window_size_wrap [OF assms(2)] sz_def [symmetric] s(1)
    by (auto simp: Let_def i64_res_def res_bind_eq_Ok split: if_splits)
  ultimately show ?thesis by simp
qed

lemma window_of_neg:
  assumes "0 < as_secs window" and "int (as_secs window) \<le> i64_max"
    and "exclusive_end (fh_time_range f) \<le> - 1000 * int (as_secs window)"
  shows "window_of window Milliseconds f = Panic \<or> (\<exists>left < 0. window_of window Milliseconds f = Ok left)"
proof (cases "get_window_bounds_in_millis window (exclusive_end (fh_time_range f))")
  case (Ok b)
  then show ?thesis
    using window_bounds_neg [OF assms] by (cases b) (auto simp: window_of_def resolve_timestamp_def)
next
  case (Err e)
  then show ?thesis by (auto simp: get_window_bounds_in_millis_def i64_res_def Let_def split: if_splits)
qed (simp add: window_of_def resolve_timestamp_def)

lemma push_windows_start:
  assumes "\<forall>f \<in> set us. \<forall>e. window_of window u f \<noteq> Err e"
  shows "res_fold (push_window window u) us (m, mx) = Panic \<or>
    (\<exists>m' mx'. mx \<le> mx' \<and> res_fold (push_window window u) us (m, mx) = Ok (m', mx'))"
  using assms
proof (induction us arbitrary: m mx)
  case (Cons f us)
  show ?case
  proof (cases "window_of window u f")
    case (Ok left)
    have "mx \<le> (if mx < left then left else mx)" by simp
    then show ?thesis
      using Cons.IH [of "bt_push left f m" "if mx < left then left else mx"] Cons.prems Ok
      by (auto simp: push_window_def intro: order_trans)
  qed (use Cons.prems in \<open>simp_all add: push_window_def\<close>)
qed simp

text \<open>
  C39. The time window picker panics on every level whose files all end at least one window before the
  epoch, as soon as one of them can be picked: the largest window start begins at 0 while the current
  window is negative, so the assertion that compares them fails.  This holds for both ways to pick
  and for every expiry time.\<close>

theorem time_window_negative_panic:
  assumes "lc_wf h lc" and "l < 2"
    and "timestamp_resolution (time_window_opts ctx) = Milliseconds" and "0 < as_secs (segment_duration ctx)"
    and "int (as_secs (segment_duration ctx)) \<le> i64_max"
    and "\<forall>f \<in> set (fhs_files (lh_files (lc_levels lc ! l))).
      exclusive_end (fh_time_range f) \<le> - 1000 * int (as_secs (segment_duration ctx))"
    and "f \<in> set (fhs_files (lh_files (lc_levels lc ! l)))" and "\<not> being_compacted h f"
    and "\<not> range_is_expired (fh_time_range f) e"
  shows "time_window_candidates usort env by_seq ctx h lc l e = Panic"
proof -
  let ?files = "fhs_files (lh_files (lc_levels lc ! l))" and ?w = "segment_duration ctx"
  define us where "us = filter (\<lambda>f. \<not> being_compacted h f \<and> \<not> range_is_expired (fh_time_range f) e) ?files"
  have len: "length (lc_levels lc) = 2" using assms(1) by (simp add: lc_wf_def)
  have find: "find_uncompact_files h lc l e = Ok us"
    using len assms(2) by (simp add: find_uncompact_files_def iter_ssts_at_level_def index_res_def us_def)
  have us: "us \<noteq> []" "set us \<subseteq> set ?files" using assms(7-9) by (auto simp: us_def filter_empty_conv)
  note w = window_of_neg [OF assms(4,5)]
  obtain g where g: "fhs_latest (lh_files (lc_levels lc ! l)) = Some g" "g \<in> set ?files"
    using latest_max [OF lc_level_wf [OF assms(1,2)] assms(7)] by blast
  have now: "get_current_window lc l ?w Milliseconds = window_of ?w Milliseconds g"
    using g(1) len assms(2) by (simp add: get_current_window_def latest_sst_def index_res_def)
  have "\<forall>f \<in> set us. \<forall>e. window_of ?w Milliseconds f \<noteq> Err e" using w assms(6) us(2) by force
  from push_windows_start [OF this, of "[]" 0] consider "get_time_buckets us ?w Milliseconds = Panic"
    | m mx where "0 \<le> mx" "get_time_buckets us ?w Milliseconds = Ok (m, mx)"
    unfolding get_time_buckets_def by blast
  then show ?thesis
  proof cases
    case 2
    then show ?thesis
      using w [of g] assms(6) g(2) find us(1) assms(3) now by (auto simp: time_window_candidates_def Let_def)
  qed (use find us(1) assms(3) in \<open>simp add: time_window_candidates_def Let_def\<close>)
qed

theorem time_window_negative_panic_witness:
  "time_window_candidates sort_key demo_env True demo_ctx demo_heap
     (demo_levels (fhs_insert fhs_empty \<lparr>fh_addr = 0, fh_meta = demo_meta 1 (- 20000000) (- 10000000)\<rparr>)) 0 None = Panic"
proof -
  define f where "f = \<lparr>fh_addr = 0, fh_meta = demo_meta 1 (- 20000000) (- 10000000)\<rparr>"
  define s where "s = fhs_insert fhs_empty f"
  have s: "fhs_files s = [f]" unfolding s_def f_def by code_simp
  have files: "fhs_files (lh_files (lc_levels (demo_levels s) ! 0)) = [f]"
    by (simp add: demo_levels_def Let_def lc_new_levels s)
  have "lc_files (demo_levels s) = {f}"
    by (simp add: lc_files_update demo_levels_def Let_def lc_new_levels s) (simp add: fhs_files_def fhs_empty_def)
  moreover have "fhs_wf s"
    unfolding s_def f_def
    by (rule fhs_insert(1) [OF fhs_wf_empty]) (simp_all add: fhs_empty_def demo_meta_def range_wf_def in_i64_def)
  ultimately have wf: "lc_wf demo_heap (demo_levels s)"
    by (simp add: lc_wf_def demo_levels_def Let_def lc_new_levels fhs_wf_empty demo_heap_def nth_list_update f_def)
  have "timestamp_resolution (time_window_opts demo_ctx) = Milliseconds" "0 < as_secs (segment_duration demo_ctx)"
    "int (as_secs (segment_duration demo_ctx)) \<le> i64_max"
    "exclusive_end (fh_time_range f) \<le> - 1000 * int (as_secs (segment_duration demo_ctx))"
    "\<not> being_compacted demo_heap f" "\<not> range_is_expired (fh_time_range f) None" unfolding f_def by code_simp+
  then show ?thesis
    using time_window_negative_panic [OF wf, of 0 demo_ctx f None sort_key demo_env True] files
    unfolding f_def [symmetric] s_def [symmetric] by simp
qed

end
