(* ===== verification/Skiplist.thy ===== *)
theory Skiplist
  imports Datum Btree
begin

text \<open>
  The skip list that memtables are built on (\<^verbatim>\<open>components/skiplist/src/list.rs\<close>), with the
  byte-wise comparator of the memtable (\<^verbatim>\<open>analytic_engine/src/memtable/skiplist/mod.rs\<close>).

  Nodes are cells of a store and a pointer is an index into it; index 0 is the head node.  A node
  holds a tower of \<open>height + 1\<close> next pointers, its key and its value.  The result \<open>None\<close> of
  an operation stands for a call that does not return: a failed \<open>assert!\<close> or \<open>unwrap\<close>, a read
  outside the store or above the tower of a node, which the source leaves undefined, or a loop that
  does not end.  Every operation is shown to return on a well-formed list.

  The model is that of the single writer the memtable documents.  A reader may run between two
  stores of a writer: the invariant holds after each of them.  Random bits and the capacity of the
  arena are outside the model: \<open>put\<close> takes the bits as an argument and allocation succeeds.
\<close>

section \<open>Nodes\<close>

abbreviation MAX_HEIGHT :: nat where "MAX_HEIGHT \<equiv> 20"

type_synonym bytes = "u8 list"
type_synonym node_ptr = "nat option"

record sl_node =
  nd_height :: nat
  nd_tower :: "node_ptr list"
  nd_key :: bytes
  nd_value :: bytes

record skiplist =
  sl_height :: nat
  sl_nodes :: "sl_node list"

abbreviation (input) head :: nat where "head \<equiv> 0"

text \<open>The sizes of key and value are stored as \<open>u16\<close> and \<open>u32\<close>.\<close>

definition node_alloc :: "bytes \<Rightarrow> bytes \<Rightarrow> nat \<Rightarrow> sl_node option" where
  "node_alloc key v height =
     (if length key < 2 ^ 16 \<and> length v < 2 ^ 32
      then Some \<lparr>nd_height = height, nd_tower = replicate (height + 1) None, nd_key = key, nd_value = v\<rparr>
      else None)"

definition next_ptr :: "skiplist \<Rightarrow> nat \<Rightarrow> nat \<Rightarrow> node_ptr option" where
  "next_ptr s a level =
     (if a < length (sl_nodes s) \<and> level < length (nd_tower (sl_nodes s ! a))
      then Some (nd_tower (sl_nodes s ! a) ! level) else None)"

definition set_next_ptr :: "skiplist \<Rightarrow> nat \<Rightarrow> nat \<Rightarrow> node_ptr \<Rightarrow> skiplist option" where
  "set_next_ptr s a level p =
     (if a < length (sl_nodes s) \<and> level < length (nd_tower (sl_nodes s ! a))
      then Some (s\<lparr>sl_nodes := (sl_nodes s)[a := (sl_nodes s ! a)\<lparr>nd_tower := (nd_tower (sl_nodes s ! a))[level := p]\<rparr>]\<rparr>)
      else None)"

definition key_at :: "skiplist \<Rightarrow> nat \<Rightarrow> bytes option" where
  "key_at s a = (if a < length (sl_nodes s) then Some (nd_key (sl_nodes s ! a)) else None)"

definition value_at :: "skiplist \<Rightarrow> nat \<Rightarrow> bytes option" where
  "value_at s a = (if a < length (sl_nodes s) then Some (nd_value (sl_nodes s ! a)) else None)"

definition compare_key :: "bytes \<Rightarrow> bytes \<Rightarrow> cmp_ordering" where
  "compare_key lhs rhs = lin_cmp lhs rhs"

definition same_key :: "bytes \<Rightarrow> bytes \<Rightarrow> bool" where
  "same_key lhs rhs \<longleftrightarrow> lhs = rhs"

section \<open>The list\<close>

definition skiplist_new :: "skiplist option" where
  "skiplist_new = Option.bind (node_alloc [] [] (MAX_HEIGHT - 1)) (\<lambda>n. Some \<lparr>sl_height = 0, sl_nodes = [n]\<rparr>)"

text \<open>The height of a new node: the number of leading successes among the random
  bits (a bit that is not given is a failure).\<close>

definition random_height :: "bool list \<Rightarrow> nat" where
  "random_height coins = min (length (takeWhile id coins)) (MAX_HEIGHT - 1)"

partial_function (option) find_near_loop :: "skiplist \<Rightarrow> bytes \<Rightarrow> bool \<Rightarrow> bool \<Rightarrow> nat \<Rightarrow> nat \<Rightarrow> node_ptr option" where
  "find_near_loop s key below allow_equal cursor level =
     Option.bind (next_ptr s cursor level) (\<lambda>next.
       case next of
         None \<Rightarrow>
           if 0 < level then find_near_loop s key below allow_equal cursor (level - 1)
           else if \<not> below \<or> cursor = head then Some None else Some (Some cursor)
       | Some next \<Rightarrow> Option.bind (key_at s next) (\<lambda>next_key.
           case compare_key key next_key of
             Greater \<Rightarrow> find_near_loop s key below allow_equal next level
           | Equal \<Rightarrow>
               if allow_equal then Some (Some next)
               else if \<not> below then next_ptr s next 0
               else if 0 < level then find_near_loop s key below allow_equal cursor (level - 1)
               else if cursor = head then Some None else Some (Some cursor)
           | Less \<Rightarrow>
               if 0 < level then find_near_loop s key below allow_equal cursor (level - 1)
               else if \<not> below then Some (Some next)
               else if cursor = head then Some None else Some (Some cursor)))"

definition find_near :: "skiplist \<Rightarrow> bytes \<Rightarrow> bool \<Rightarrow> bool \<Rightarrow> node_ptr option" where
  "find_near s key below allow_equal = find_near_loop s key below allow_equal head (sl_height s)"

partial_function (option) find_splice_for_level :: "skiplist \<Rightarrow> bytes \<Rightarrow> nat \<Rightarrow> nat \<Rightarrow> (nat \<times> node_ptr) option" where
  "find_splice_for_level s key before level =
     Option.bind (next_ptr s before level) (\<lambda>next.
       case next of
         None \<Rightarrow> Some (before, None)
       | Some next \<Rightarrow> Option.bind (key_at s next) (\<lambda>next_key.
           case compare_key key next_key of
             Equal \<Rightarrow> Some (next, Some next)
           | Less \<Rightarrow> Some (before, Some next)
           | Greater \<Rightarrow> find_splice_for_level s key next level))"

text \<open>
  The splices of \<open>put\<close>: the arrays \<open>prev\<close> and \<open>next\<close>, filled from the top level down, or the
  information that the key exists.
\<close>

fun find_splices :: "skiplist \<Rightarrow> bytes \<Rightarrow> nat list \<Rightarrow> node_ptr list \<times> node_ptr list \<Rightarrow>
    (node_ptr list \<times> node_ptr list) option option" where
  "find_splices s key [] (prev, next) = Some (Some (prev, next))"
| "find_splices s key (i # levels) (prev, next) =
     (case prev ! (i + 1) of
        None \<Rightarrow> None
      | Some before \<Rightarrow> Option.bind (find_splice_for_level s key before i) (\<lambda>(p, n).
          if n = Some p then Some None
          else find_splices s key levels (prev[i := Some p], next[i := n])))"

text \<open>
  Linking a node at one level: the splice is searched when the level is above the old height, then
  the pointer of the predecessor is exchanged if it is still the one seen; otherwise the splice is
  searched again.  The result tells whether the node was linked.
\<close>

partial_function (option) link_level :: "skiplist \<Rightarrow> nat \<Rightarrow> bytes \<Rightarrow> nat \<Rightarrow> node_ptr \<Rightarrow> node_ptr \<Rightarrow> (bool \<times> skiplist) option" where
  "link_level s x key i prev next =
     (case prev of
        None \<Rightarrow>
          if 1 < i
          then Option.bind (find_splice_for_level s key head i) (\<lambda>(p, n).
                 if n = Some p then None else link_level s x key i (Some p) n)
          else None
      | Some p \<Rightarrow>
          Option.bind (set_next_ptr s x i next) (\<lambda>s1.
          Option.bind (next_ptr s1 p i) (\<lambda>current.
            if current = next then Option.bind (set_next_ptr s1 p i (Some x)) (\<lambda>s2. Some (True, s2))
            else Option.bind (find_splice_for_level s1 key p i) (\<lambda>(p', n').
                   if n' = Some p' then (if i = 0 then Some (False, s1) else None)
                   else link_level s1 x key i (Some p') n'))))"

fun link_levels :: "skiplist \<Rightarrow> nat \<Rightarrow> bytes \<Rightarrow> nat list \<Rightarrow> node_ptr list \<Rightarrow> node_ptr list \<Rightarrow> (bool \<times> skiplist) option" where
  "link_levels s x key [] prev next = Some (True, s)"
| "link_levels s x key (i # levels) prev next =
     Option.bind (link_level s x key i (prev ! i) (next ! i)) (\<lambda>(linked, s').
       if linked then link_levels s' x key levels prev next else Some (False, s'))"

definition sl_put :: "skiplist \<Rightarrow> bytes \<Rightarrow> bytes \<Rightarrow> bool list \<Rightarrow> (bool \<times> skiplist) option" where
  "sl_put s key v coins =
     (let list_height = sl_height s;
          prev = (replicate (MAX_HEIGHT + 1) None)[list_height + 1 := Some head];
          next = replicate (MAX_HEIGHT + 1) None
      in Option.bind (find_splices s key (rev [0..<Suc list_height]) (prev, next)) (\<lambda>splices.
           case splices of
             None \<Rightarrow> Some (False, s)
           | Some (prev, next) \<Rightarrow>
               let height = random_height coins
               in Option.bind (node_alloc key v height) (\<lambda>node.
                    let x = length (sl_nodes s);
                        s1 = s\<lparr>sl_nodes := sl_nodes s @ [node]\<rparr>;
                        s2 = (if list_height < height then s1\<lparr>sl_height := height\<rparr> else s1)
                    in link_levels s2 x key [0..<Suc height] prev next)))"

definition sl_is_empty :: "skiplist \<Rightarrow> bool option" where
  "sl_is_empty s = Option.bind (next_ptr s head 0) (\<lambda>n. Some (n = None))"

partial_function (option) len_loop :: "skiplist \<Rightarrow> nat \<Rightarrow> nat \<Rightarrow> nat option" where
  "len_loop s node count =
     Option.bind (next_ptr s node 0) (\<lambda>next.
       case next of Some n \<Rightarrow> len_loop s n (count + 1) | None \<Rightarrow> Some count)"

definition sl_len :: "skiplist \<Rightarrow> nat option" where
  "sl_len s = len_loop s head 0"

partial_function (option) find_last_loop :: "skiplist \<Rightarrow> nat \<Rightarrow> nat \<Rightarrow> node_ptr option" where
  "find_last_loop s node level =
     Option.bind (next_ptr s node level) (\<lambda>next.
       case next of
         Some n \<Rightarrow> find_last_loop s n level
       | None \<Rightarrow> if level = 0 then Some (if node = head then None else Some node)
                 else find_last_loop s node (level - 1))"

definition find_last :: "skiplist \<Rightarrow> node_ptr option" where
  "find_last s = find_last_loop s head (sl_height s)"

definition get_with_key :: "skiplist \<Rightarrow> bytes \<Rightarrow> (bytes \<times> bytes) option option" where
  "get_with_key s key =
     Option.bind (find_near s key False True) (\<lambda>node.
       case node of
         None \<Rightarrow> Some None
       | Some n \<Rightarrow> Option.bind (key_at s n) (\<lambda>k. Option.bind (value_at s n) (\<lambda>v.
           Some (if same_key k key then Some (k, v) else None))))"

definition sl_get :: "skiplist \<Rightarrow> bytes \<Rightarrow> bytes option option" where
  "sl_get s key = Option.bind (get_with_key s key) (\<lambda>r. Some (map_option snd r))"

section \<open>Iterators\<close>

text \<open>An iterator is a list and a cursor; moving it needs a valid cursor.\<close>

definition iter_key :: "skiplist \<Rightarrow> node_ptr \<Rightarrow> bytes option" where
  "iter_key s cursor = Option.bind cursor (key_at s)"

definition iter_value :: "skiplist \<Rightarrow> node_ptr \<Rightarrow> bytes option" where
  "iter_value s cursor = Option.bind cursor (value_at s)"

definition iter_next :: "skiplist \<Rightarrow> node_ptr \<Rightarrow> node_ptr option" where
  "iter_next s cursor = Option.bind cursor (\<lambda>c. next_ptr s c 0)"

definition iter_prev :: "skiplist \<Rightarrow> node_ptr \<Rightarrow> node_ptr option" where
  "iter_prev s cursor = Option.bind (iter_key s cursor) (\<lambda>key. find_near s key True False)"

definition seek :: "skiplist \<Rightarrow> bytes \<Rightarrow> node_ptr option" where
  "seek s target = find_near s target False True"

definition seek_for_prev :: "skiplist \<Rightarrow> bytes \<Rightarrow> node_ptr option" where
  "seek_for_prev s target = find_near s target True True"

definition seek_to_first :: "skiplist \<Rightarrow> node_ptr option" where
  "seek_to_first s = next_ptr s head 0"

definition seek_to_last :: "skiplist \<Rightarrow> node_ptr option" where
  "seek_to_last s = find_last s"

section \<open>The invariant\<close>

abbreviation nkey :: "skiplist \<Rightarrow> nat \<Rightarrow> bytes" where "nkey s a \<equiv> nd_key (sl_nodes s ! a)"
abbreviation nvalue :: "skiplist \<Rightarrow> nat \<Rightarrow> bytes" where "nvalue s a \<equiv> nd_value (sl_nodes s ! a)"

text \<open>The nodes that follow a node at a level.\<close>

fun path :: "skiplist \<Rightarrow> nat \<Rightarrow> nat \<Rightarrow> nat list \<Rightarrow> bool" where
  "path s l a [] \<longleftrightarrow> next_ptr s a l = Some None"
| "path s l a (b # bs) \<longleftrightarrow> next_ptr s a l = Some (Some b) \<and> path s l b bs"

text \<open>
  The nodes of every level: each level is part of the one below, the lowest is sorted by key, and
  levels above the height are empty.
\<close>

definition sl_wf :: "skiplist \<Rightarrow> (nat \<Rightarrow> nat list) \<Rightarrow> bool" where
  "sl_wf s lv \<longleftrightarrow>
     0 < length (sl_nodes s) \<and> sl_height s < MAX_HEIGHT \<and>
     (\<forall>a < length (sl_nodes s). length (nd_tower (sl_nodes s ! a)) = nd_height (sl_nodes s ! a) + 1 \<and>
        nd_height (sl_nodes s ! a) < MAX_HEIGHT) \<and>
     nd_height (sl_nodes s ! head) = MAX_HEIGHT - 1 \<and>
     (\<forall>l < MAX_HEIGHT. path s l head (lv l)) \<and>
     (\<forall>l > sl_height s. lv l = []) \<and>
     (\<forall>l. subseq (lv (Suc l)) (lv l)) \<and>
     sorted_wrt (\<lambda>a b. nkey s a < nkey s b) (lv 0) \<and>
     set (lv 0) \<subseteq> {0<..<length (sl_nodes s)}"

definition ptr_of :: "nat list \<Rightarrow> node_ptr" where
  "ptr_of xs = (case xs of [] \<Rightarrow> None | x # _ \<Rightarrow> Some x)"

lemma ptr_of_simps [simp]: "ptr_of [] = None" "ptr_of (x # xs) = Some x"
  by (simp_all add: ptr_of_def)

abbreviation lo :: "skiplist \<Rightarrow> bytes \<Rightarrow> nat list \<Rightarrow> nat list" where
  "lo s k xs \<equiv> filter (\<lambda>a. nkey s a < k) xs"
abbreviation hi :: "skiplist \<Rightarrow> bytes \<Rightarrow> nat list \<Rightarrow> nat list" where
  "hi s k xs \<equiv> filter (\<lambda>a. \<not> nkey s a < k) xs"

lemma subseq_sorted_wrt: "subseq xs ys \<Longrightarrow> sorted_wrt P ys \<Longrightarrow> sorted_wrt P xs"
proof (induction rule: list_emb.induct)
  case (list_emb_Cons2 x y xs ys)
  then show ?case by (auto dest: list_emb_set)
qed auto

lemma subseq_set: "subseq xs ys \<Longrightarrow> set xs \<subseteq> set ys"
  by (auto dest: list_emb_set)

lemma sorted_split:
  "sorted_wrt (\<lambda>a b. f a < f b) xs \<Longrightarrow> xs = filter (\<lambda>a. f a < k) xs @ filter (\<lambda>a. \<not> f a < k) xs"
  for f :: "'a \<Rightarrow> 'b::linorder"
proof (induction xs)
  case (Cons x xs)
  show ?case
  proof (cases "f x < k")
    case False
    then have "filter (\<lambda>a. f a < k) xs = []" using Cons(2) by (auto simp: filter_empty_conv)
    then show ?thesis using False Cons by simp
  qed (use Cons in simp)
qed simp

lemma sl_wf_subseq: "sl_wf s lv \<Longrightarrow> subseq (lv l) (lv 0)"
proof (induction l)
  case (Suc l)
  then have "subseq (lv (Suc l)) (lv l)" by (simp add: sl_wf_def)
  then show ?case using Suc by (meson subseq_order.order_trans)
qed simp

lemma sl_wf_sorted: "sl_wf s lv \<Longrightarrow> sorted_wrt (\<lambda>a b. nkey s a < nkey s b) (lv l)"
  by (rule subseq_sorted_wrt [OF sl_wf_subseq [of s lv l]]) (simp_all add: sl_wf_def)

lemma sl_wf_nodes: "sl_wf s lv \<Longrightarrow> a \<in> set (lv l) \<Longrightarrow> 0 < a \<and> a < length (sl_nodes s) \<and> a \<in> set (lv 0)"
  using subseq_set [OF sl_wf_subseq, of s lv l] unfolding sl_wf_def by fastforce

lemma sl_wf_split: "sl_wf s lv \<Longrightarrow> lv l = lo s k (lv l) @ hi s k (lv l)"
  by (rule sorted_split [OF sl_wf_sorted])

lemma sl_wf_down: "sl_wf s lv \<Longrightarrow> a \<in> set (lv (Suc l)) \<Longrightarrow> a \<in> set (lv l)"
  using subseq_set [of "lv (Suc l)" "lv l"] unfolding sl_wf_def by blast

lemma sl_wf_path: "sl_wf s lv \<Longrightarrow> l < MAX_HEIGHT \<Longrightarrow> path s l head (lv l)"
  by (simp add: sl_wf_def)

lemma path_suffix: "path s l a (xs @ b # ys) \<Longrightarrow> path s l b ys"
  by (induction xs arbitrary: a) auto

lemma path_next: "path s l a xs \<Longrightarrow> next_ptr s a l = Some (ptr_of xs)"
  by (cases xs) auto

section \<open>Searching\<close>

definition starts :: "skiplist \<Rightarrow> (nat \<Rightarrow> nat list) \<Rightarrow> nat \<Rightarrow> bytes \<Rightarrow> nat \<Rightarrow> bool" where
  "starts s lv l k a \<longleftrightarrow> a = head \<or> a \<in> set (lv l) \<and> nkey s a < k"

definition before_at :: "skiplist \<Rightarrow> (nat \<Rightarrow> nat list) \<Rightarrow> nat \<Rightarrow> bytes \<Rightarrow> nat" where
  "before_at s lv l k = last (head # lo s k (lv l))"

lemma before_starts: "starts s lv l k (before_at s lv l k)"
  using last_in_set [of "lo s k (lv l)"] by (auto simp: starts_def before_at_def)

lemma starts_down: "sl_wf s lv \<Longrightarrow> starts s lv (Suc l) k a \<Longrightarrow> starts s lv l k a"
  using sl_wf_down by (auto simp: starts_def)

lemma path_from:
  assumes "sl_wf s lv" and "l < MAX_HEIGHT" and "starts s lv l k a"
  obtains zs where "path s l a (zs @ hi s k (lv l))" and "last (a # zs) = before_at s lv l k"
    and "\<forall>z \<in> set zs. nkey s z < k \<and> z < length (sl_nodes s)"
proof -
  have path: "path s l head (lo s k (lv l) @ hi s k (lv l))"
    using assms(1,2) sl_wf_split [OF assms(1), of l k] by (simp add: sl_wf_def)
  have ok: "\<forall>z \<in> set (lo s k (lv l)). nkey s z < k \<and> z < length (sl_nodes s)" using sl_wf_nodes [OF assms(1)] by auto
  show thesis
  proof (cases "a = head")
    case True
    then show ?thesis using that [OF _ _ ok] path by (simp add: before_at_def)
  next
    case False
    then have "a \<in> set (lo s k (lv l))" using assms(3) by (auto simp: starts_def)
    then obtain ys zs where split: "lo s k (lv l) = ys @ a # zs" by (auto dest: split_list)
    then have "path s l a (zs @ hi s k (lv l))" using path path_suffix [of s l head ys a] by simp
    then show ?thesis using that [of zs] ok split by (auto simp: before_at_def)
  qed
qed

lemma hi_hd:
  assumes "sl_wf s lv" and "hi s k (lv l) = h # t"
  shows "\<not> nkey s h < k \<and> h < length (sl_nodes s) \<and> 0 < h \<and> h \<in> set (lv l)"
proof -
  have "h \<in> set (hi s k (lv l))" unfolding assms(2) by simp
  then show ?thesis using sl_wf_nodes [OF assms(1), of h l] by simp
qed

lemma find_splice_path:
  assumes "path s l a (zs @ hs)" and "\<forall>z \<in> set zs. nkey s z < k \<and> z < length (sl_nodes s)"
    and "\<And>h t. hs = h # t \<Longrightarrow> \<not> nkey s h < k \<and> h < length (sl_nodes s)"
  shows "find_splice_for_level s k a l =
    Some (case hs of h # _ \<Rightarrow> if nkey s h = k then (h, Some h) else (last (a # zs), Some h) | [] \<Rightarrow> (last (a # zs), None))"
  using assms(1,2)
proof (induction zs arbitrary: a)
  case Nil
  then show ?case
    using assms(3) by (subst find_splice_for_level.simps)
      (auto simp: path_next key_at_def compare_key_def lin_cmp_def split: list.splits)
next
  case (Cons z zs)
  then have "find_splice_for_level s k a l = find_splice_for_level s k z l"
    by (subst find_splice_for_level.simps) (auto simp: key_at_def compare_key_def lin_cmp_def)
  with Cons show ?case by (simp split: list.splits)
qed

lemma find_splice_ok:
  assumes "sl_wf s lv" and "l < MAX_HEIGHT" and "starts s lv l k a"
  shows "find_splice_for_level s k a l = Some (case hi s k (lv l) of
      h # _ \<Rightarrow> if nkey s h = k then (h, Some h) else (before_at s lv l k, Some h)
    | [] \<Rightarrow> (before_at s lv l k, None))"
proof -
  obtain zs where z: "path s l a (zs @ hi s k (lv l))" "last (a # zs) = before_at s lv l k"
    "\<forall>z \<in> set zs. nkey s z < k \<and> z < length (sl_nodes s)" using path_from [OF assms] .
  show ?thesis
    using find_splice_path [OF z(1,3)] hi_hd [OF assms(1), of k l] unfolding z(2) by blast
qed

definition near_spec :: "skiplist \<Rightarrow> bytes \<Rightarrow> bool \<Rightarrow> bool \<Rightarrow> nat list \<Rightarrow> node_ptr" where
  "near_spec s k below eq xs =
     (let l = lo s k xs; h = hi s k xs; same = (h \<noteq> [] \<and> nkey s (hd h) = k)
      in if eq \<and> same then Some (hd h)
         else if below then (if l = [] then None else Some (last l))
         else ptr_of (if same then tl h else h))"

lemma path_last: "path s l a (zs @ hs) \<Longrightarrow> path s l (last (a # zs)) hs"
  by (induction zs arbitrary: a) auto

lemma find_near_right:
  assumes "next_ptr s c l = Some (Some n)" and "n < length (sl_nodes s)" and "nkey s n < k"
  shows "find_near_loop s k below eq c l = find_near_loop s k below eq n l"
proof -
  have "compare_key k (nkey s n) = Greater" using assms(3) by (auto simp: compare_key_def lin_cmp_def)
  then show ?thesis using assms by (subst find_near_loop.simps) (simp add: key_at_def)
qed

lemma find_near_skip:
  assumes "path s l a (zs @ hs)" and "\<forall>z \<in> set zs. nkey s z < k \<and> z < length (sl_nodes s)"
  shows "find_near_loop s k below eq a l = find_near_loop s k below eq (last (a # zs)) l"
  using assms
proof (induction zs arbitrary: a)
  case (Cons z zs)
  then have "find_near_loop s k below eq a l = find_near_loop s k below eq z l"
    by (intro find_near_right) simp_all
  with Cons show ?case by simp
qed simp

text \<open>The node of a key starts the upper part of every level it is in.\<close>

lemma hi_key:
  assumes "sl_wf s lv" and "a \<in> set (lv l)" and "nkey s a = k"
  obtains t where "hi s k (lv l) = a # t"
proof -
  have a: "a \<in> set (hi s k (lv l))" using assms(2,3) by simp
  then obtain g t where g: "hi s k (lv l) = g # t" by (cases "hi s k (lv l)") auto
  have "sorted_wrt (\<lambda>a b. nkey s a < nkey s b) (g # t)"
    using sl_wf_sorted [OF assms(1), of l] unfolding g [symmetric] by (rule sorted_wrt_filter)
  moreover have "\<not> nkey s g < k" using hi_hd [OF assms(1) g] by blast
  ultimately have "g = a" using a assms(3) unfolding g by auto
  then show thesis using that g by simp
qed

lemma hi_found:
  assumes "sl_wf s lv" and "hi s k (lv l) = h # t" and "nkey s h = k"
  obtains t0 where "hi s k (lv 0) = h # t0"
  using hi_key [OF assms(1) _ assms(3), of 0] hi_hd [OF assms(1,2)] sl_wf_nodes [OF assms(1), of h l] by blast

lemma lo_before: "sl_wf s lv \<Longrightarrow> before_at s lv l k = (if lo s k (lv l) = [] then head else last (lo s k (lv l)))"
  by (simp add: before_at_def)

lemma before_head: "sl_wf s lv \<Longrightarrow> before_at s lv l k = head \<longleftrightarrow> lo s k (lv l) = []"
  using last_in_set [of "lo s k (lv l)"] sl_wf_nodes [of s lv "before_at s lv l k" l] by (auto simp: lo_before)

lemma find_near_end:
  "next_ptr s c l = Some None \<Longrightarrow> find_near_loop s k below eq c l =
     (if 0 < l then find_near_loop s k below eq c (l - 1)
      else if \<not> below \<or> c = head then Some None else Some (Some c))"
  by (subst find_near_loop.simps) simp

lemma find_near_stop:
  assumes "next_ptr s c l = Some (Some n)" and "n < length (sl_nodes s)" and "\<not> nkey s n < k"
  shows "find_near_loop s k below eq c l =
     (if nkey s n = k \<and> eq then Some (Some n)
      else if nkey s n = k \<and> \<not> below then next_ptr s n 0
      else if 0 < l then find_near_loop s k below eq c (l - 1)
      else if \<not> below then Some (Some n)
      else if c = head then Some None else Some (Some c))"
  using assms by (subst find_near_loop.simps) (simp add: key_at_def compare_key_def lin_cmp_def)

lemma find_near_ok:
  assumes "sl_wf s lv" and "l < MAX_HEIGHT" and "starts s lv l k a"
  shows "find_near_loop s k below eq a l = Some (near_spec s k below eq (lv 0))"
  using assms(2,3)
proof (induction l arbitrary: a)
  case 0
  obtain zs where z: "path s 0 a (zs @ hi s k (lv 0))" "last (a # zs) = before_at s lv 0 k"
    "\<forall>z \<in> set zs. nkey s z < k \<and> z < length (sl_nodes s)" using path_from [OF assms(1) 0] .
  have next': "next_ptr s (before_at s lv 0 k) 0 = Some (ptr_of (hi s k (lv 0)))"
    using path_next [OF path_last [OF z(1)]] unfolding z(2) .
  have p: "(if \<not> below \<or> before_at s lv 0 k = head then None else Some (before_at s lv 0 k)) =
      (if \<not> below \<or> lo s k (lv 0) = [] then None else Some (last (lo s k (lv 0))))"
    using before_head [OF assms(1), of 0 k] lo_before [OF assms(1), of 0 k] by simp
  show ?case
  proof (cases "hi s k (lv 0)")
    case Nil
    then show ?thesis
      using next' p unfolding find_near_skip [OF z(1,3)] z(2) by (simp add: find_near_end near_spec_def Let_def split: if_splits)
  next
    case (Cons h t)
    have "next_ptr s h 0 = Some (ptr_of t)" using path_suffix [of s 0 a zs h t] z(1) Cons by (simp add: path_next)
    then show ?thesis
      using find_near_stop [of s "before_at s lv 0 k" 0 h k below eq] next' p hi_hd [OF assms(1) Cons] Cons
      unfolding find_near_skip [OF z(1,3)] z(2) by (simp add: near_spec_def Let_def split: if_splits)
  qed
next
  case (Suc l)
  obtain zs where z: "path s (Suc l) a (zs @ hi s k (lv (Suc l)))" "last (a # zs) = before_at s lv (Suc l) k"
    "\<forall>z \<in> set zs. nkey s z < k \<and> z < length (sl_nodes s)" using path_from [OF assms(1) Suc(2,3)] .
  let ?p = "before_at s lv (Suc l) k"
  have next': "next_ptr s ?p (Suc l) = Some (ptr_of (hi s k (lv (Suc l))))"
    using path_next [OF path_last [OF z(1)]] unfolding z(2) .
  have down: "find_near_loop s k below eq ?p l = Some (near_spec s k below eq (lv 0))"
    using Suc(1) Suc(2) starts_down [OF assms(1) before_starts] by simp
  show ?case
  proof (cases "hi s k (lv (Suc l))")
    case Nil
    then show ?thesis using next' down unfolding find_near_skip [OF z(1,3)] z(2) by (simp add: find_near_end)
  next
    case (Cons h t)
    note stop = find_near_stop [of s ?p "Suc l" h k below eq] next' down hi_hd [OF assms(1) Cons] Cons
    show ?thesis
    proof (cases "nkey s h = k")
      case True
      obtain t0 where t0: "hi s k (lv 0) = h # t0" using hi_found [OF assms(1) Cons True] .
      have "path s 0 head (lo s k (lv 0) @ h # t0)"
        using assms(1) sl_wf_split [OF assms(1), of 0 k] t0 by (simp add: sl_wf_def)
      then have "next_ptr s h 0 = Some (ptr_of t0)" using path_next [OF path_suffix] by blast
      then show ?thesis
        using stop t0 True unfolding find_near_skip [OF z(1,3)] z(2)
        by (cases eq; cases below) (simp_all add: near_spec_def Let_def)
    next
      case False
      then show ?thesis using stop unfolding find_near_skip [OF z(1,3)] z(2) by simp
    qed
  qed
qed

section \<open>Inserting\<close>

definition same_nodes :: "skiplist \<Rightarrow> skiplist \<Rightarrow> bool" where
  "same_nodes s s' \<longleftrightarrow> sl_height s' = sl_height s \<and> length (sl_nodes s') = length (sl_nodes s) \<and>
     (\<forall>a < length (sl_nodes s). nkey s' a = nkey s a \<and> nvalue s' a = nvalue s a \<and>
        nd_height (sl_nodes s' ! a) = nd_height (sl_nodes s ! a) \<and>
        length (nd_tower (sl_nodes s' ! a)) = length (nd_tower (sl_nodes s ! a)))"

lemma same_nodes_refl: "same_nodes s s"
  by (simp add: same_nodes_def)

lemma same_nodes_trans: "same_nodes s t \<Longrightarrow> same_nodes t u \<Longrightarrow> same_nodes s u"
  by (simp add: same_nodes_def)

lemma set_next_ptr_ok:
  assumes "next_ptr s a l \<noteq> None"
  obtains s' where "set_next_ptr s a l p = Some s'" and "same_nodes s s'"
    and "\<forall>b m. next_ptr s' b m = (if b = a \<and> m = l then Some p else next_ptr s b m)"
proof -
  have a: "a < length (sl_nodes s)" "l < length (nd_tower (sl_nodes s ! a))"
    using assms by (auto simp: next_ptr_def split: if_splits)
  let ?s = "s\<lparr>sl_nodes := (sl_nodes s)[a := (sl_nodes s ! a)\<lparr>nd_tower := (nd_tower (sl_nodes s ! a))[l := p]\<rparr>]\<rparr>"
  have "same_nodes s ?s" using a by (auto simp: same_nodes_def nth_list_update)
  moreover have "next_ptr ?s b m = (if b = a \<and> m = l then Some p else next_ptr s b m)" for b m
    using a by (auto simp: next_ptr_def nth_list_update)
  ultimately show thesis using that [of ?s] a by (simp add: set_next_ptr_def)
qed

lemma path_frame:
  assumes "path s l a xs" and "\<And>b. b \<in> set (a # xs) \<Longrightarrow> next_ptr s' b l = next_ptr s b l"
  shows "path s' l a xs"
  using assms by (induction xs arbitrary: a) auto

lemma path_insert:
  assumes "path s l a (A @ B)" and "distinct (a # A @ B)" and "x \<notin> set (a # A @ B)"
    and "next_ptr s' (last (a # A)) l = Some (Some x)" and "next_ptr s' x l = Some (ptr_of B)"
    and "\<And>b. b \<noteq> last (a # A) \<Longrightarrow> b \<noteq> x \<Longrightarrow> next_ptr s' b l = next_ptr s b l"
  shows "path s' l a (A @ x # B)"
  using assms
proof (induction A arbitrary: a)
  case Nil
  have "path s' l x B"
  proof (cases B)
    case (Cons b bs)
    have "path s' l b bs"
    proof (rule path_frame)
      show "path s l b bs" using Nil(1) Cons by simp
      fix c assume "c \<in> set (b # bs)"
      then have "c \<noteq> a" "c \<noteq> x" using Nil(2,3) Cons by auto
      then show "next_ptr s' c l = next_ptr s c l" using Nil(6) by simp
    qed
    then show ?thesis using Nil(5) Cons by simp
  qed (use Nil(5) in simp)
  then show ?case using Nil(4) by simp
next
  case (Cons y A)
  have "path s' l y (A @ x # B)"
  proof (rule Cons(1))
    show "path s l y (A @ B)" "distinct (y # A @ B)" "x \<notin> set (y # A @ B)" "next_ptr s' (last (y # A)) l = Some (Some x)"
      using Cons(2-5) by auto
    show "next_ptr s' b l = next_ptr s b l" if "b \<noteq> last (y # A)" "b \<noteq> x" for b using Cons(7) that by simp
  qed (rule Cons(6))
  moreover have "a \<noteq> last (y # A)" using Cons(3) last_in_set [of "y # A"] by auto
  then have "next_ptr s' a l = next_ptr s a l" using Cons(4,7) by auto
  ultimately show ?case using Cons(2) by simp
qed

lemma sorted_wrt_distinct: "sorted_wrt (\<lambda>a b. f a < f b) xs \<Longrightarrow> distinct xs" for f :: "'a \<Rightarrow> 'b::linorder"
  by (induction xs) auto

lemma sl_wf_distinct: "sl_wf s lv \<Longrightarrow> distinct (head # lv l)"
  using sorted_wrt_distinct [OF sl_wf_sorted, of s lv l] sl_wf_nodes [of s lv 0 l] by auto

lemma sl_wf_key_inj:
  assumes "sl_wf s lv" and "a \<in> set (lv 0)" and "b \<in> set (lv 0)" and "nkey s a = nkey s b"
  shows "a = b"
proof -
  from assms(2,3) obtain i j where ij: "i < length (lv 0)" "a = lv 0 ! i" "j < length (lv 0)" "b = lv 0 ! j"
    by (auto simp: in_set_conv_nth)
  have "nkey s (lv 0 ! i) < nkey s (lv 0 ! j)" if "i < j" "j < length (lv 0)" for i j
    using sl_wf_sorted [OF assms(1), of 0] that by (simp add: sorted_wrt_iff_nth_less)
  then show ?thesis using ij assms(4) by (cases i j rule: linorder_cases) force+
qed

lemma subseq_drop: "subseq xs (x # ys) \<Longrightarrow> x \<notin> set xs \<Longrightarrow> subseq xs ys"
  by (cases xs) (auto simp: subseq_Cons2_iff)

definition ins_at :: "skiplist \<Rightarrow> nat \<Rightarrow> nat list \<Rightarrow> nat list" where
  "ins_at s x xs = lo s (nkey s x) xs @ x # hi s (nkey s x) xs"

lemma set_ins_at: "set (ins_at s x xs) = insert x (set xs)"
  by (auto simp: ins_at_def)

text \<open>A node may be linked at a level when it is linked at the level below, or has a new key.\<close>

definition can_link :: "skiplist \<Rightarrow> (nat \<Rightarrow> nat list) \<Rightarrow> nat \<Rightarrow> nat \<Rightarrow> bool" where
  "can_link s lv x i \<longleftrightarrow> 0 < x \<and> x < length (sl_nodes s) \<and> i \<le> nd_height (sl_nodes s ! x) \<and> i \<le> sl_height s \<and>
     x \<notin> set (lv i) \<and>
     (if i = 0 then \<forall>a \<in> set (lv 0). nkey s a \<noteq> nkey s x else x \<in> set (lv (i - 1)))"

lemma can_link_key:
  assumes "sl_wf s lv" and "can_link s lv x i" and "a \<in> set (lv i)"
  shows "nkey s a \<noteq> nkey s x"
proof (cases "i = 0")
  case False
  then have "x \<in> set (lv 0)" "a \<in> set (lv 0)" "a \<noteq> x"
    using assms sl_wf_nodes [OF assms(1)] by (auto simp: can_link_def)
  then show ?thesis using sl_wf_key_inj [OF assms(1)] by blast
qed (use assms in \<open>simp add: can_link_def\<close>)

lemma ins_at_subseq_below:
  assumes "sl_wf s lv" and "can_link s lv x (Suc l)"
  shows "subseq (ins_at s x (lv (Suc l))) (lv l)"
proof -
  let ?k = "nkey s x"
  have x: "x \<in> set (lv l)" "x \<notin> set (lv (Suc l))" using assms(2) by (simp_all add: can_link_def)
  have sub: "subseq (lv (Suc l)) (lv l)" using assms(1) by (simp add: sl_wf_def)
  obtain t where t: "hi s ?k (lv l) = x # t" using hi_key [OF assms(1) x(1) refl] .
  have "subseq (hi s ?k (lv (Suc l))) (x # t)" unfolding t [symmetric] by (rule subseq_filter [OF sub])
  then have "subseq (hi s ?k (lv (Suc l))) t" using x by (intro subseq_drop [of _ x t]) auto
  then have "subseq (ins_at s x (lv (Suc l))) (lo s ?k (lv l) @ x # t)"
    unfolding ins_at_def by (intro list_emb_append_mono subseq_filter [OF sub] list_emb_Cons2) simp_all
  then show ?thesis using sl_wf_split [OF assms(1), of l ?k] t by simp
qed

lemma ins_at_subseq: "sl_wf s lv \<Longrightarrow> subseq (lv i) (ins_at s x (lv i))"
  unfolding ins_at_def
  by (subst sl_wf_split [of s lv i "nkey s x"]) (auto intro: list_emb_append_mono)

lemma ins_at_sorted:
  assumes "sl_wf s lv" and "can_link s lv x 0"
  shows "sorted_wrt (\<lambda>a b. nkey s a < nkey s b) (ins_at s x (lv 0))"
proof -
  have "sorted_wrt (\<lambda>a b. nkey s a < nkey s b) (filter P (lv 0))" for P
    using sl_wf_sorted [OF assms(1)] by (rule sorted_wrt_filter)
  moreover have "nkey s x < nkey s a" if "a \<in> set (lv 0)" "\<not> nkey s a < nkey s x" for a
    using can_link_key [OF assms] that by (meson linorder_neqE)
  ultimately show ?thesis unfolding ins_at_def sorted_wrt_append by (auto intro: less_trans)
qed

lemma link_wf:
  assumes "sl_wf s lv" and "can_link s lv x i" and "same_nodes s s'"
    and "next_ptr s' (before_at s lv i (nkey s x)) i = Some (Some x)"
    and "next_ptr s' x i = Some (ptr_of (hi s (nkey s x) (lv i)))"
    and "\<And>b m. m \<noteq> i \<or> b \<noteq> before_at s lv i (nkey s x) \<and> b \<noteq> x \<Longrightarrow> next_ptr s' b m = next_ptr s b m"
  shows "sl_wf s' (lv(i := ins_at s x (lv i)))"
proof -
  let ?lv = "lv(i := ins_at s x (lv i))" and ?k = "nkey s x"
  have x: "0 < x" "x < length (sl_nodes s)" "x \<notin> set (lv i)" "i \<le> sl_height s" using assms(2) by (simp_all add: can_link_def)
  have same: "length (sl_nodes s') = length (sl_nodes s)" "sl_height s' = sl_height s"
    "\<And>a. a < length (sl_nodes s) \<Longrightarrow> nkey s' a = nkey s a" using assms(3) by (simp_all add: same_nodes_def)
  have "\<forall>a < length (sl_nodes s'). length (nd_tower (sl_nodes s' ! a)) = nd_height (sl_nodes s' ! a) + 1 \<and>
      nd_height (sl_nodes s' ! a) < MAX_HEIGHT"
    using assms(1,3) by (simp add: sl_wf_def same_nodes_def)
  moreover have "nd_height (sl_nodes s' ! head) = MAX_HEIGHT - 1" "0 < length (sl_nodes s')"
    using assms(1,3) by (auto simp: sl_wf_def same_nodes_def)
  moreover have "path s' l head (?lv l)" if "l < MAX_HEIGHT" for l
  proof (cases "l = i")
    case True
    have "path s' i head (lo s ?k (lv i) @ x # hi s ?k (lv i))"
    proof (rule path_insert)
      show "path s i head (lo s ?k (lv i) @ hi s ?k (lv i))" "distinct (head # lo s ?k (lv i) @ hi s ?k (lv i))"
        "x \<notin> set (head # lo s ?k (lv i) @ hi s ?k (lv i))"
        using assms(1) that True x sl_wf_distinct [OF assms(1), of i]
        unfolding sl_wf_split [OF assms(1), of i ?k, symmetric] by (auto simp: sl_wf_def)
    qed (use assms(4-6) in \<open>simp_all add: before_at_def\<close>)
    then show ?thesis using True by (simp add: ins_at_def)
  next
    case False
    then show ?thesis using assms(1,6) that by (auto intro: path_frame [of s] simp: sl_wf_def)
  qed
  moreover have "subseq (?lv (Suc l)) (?lv l)" for l
    using ins_at_subseq_below [OF assms(1), of x l] assms(2) ins_at_subseq [OF assms(1), of i x] assms(1)
    by (auto simp: sl_wf_def intro: subseq_order.order_trans)
  moreover have set0: "set (?lv 0) \<subseteq> {0<..<length (sl_nodes s)}"
    using assms(1) x by (auto simp: set_ins_at sl_wf_def)
  moreover have "sorted_wrt (\<lambda>a b. nkey s a < nkey s b) (?lv 0)"
    using ins_at_sorted [OF assms(1)] assms(2) sl_wf_sorted [OF assms(1), of 0] by auto
  then have "sorted_wrt (\<lambda>a b. nkey s' a < nkey s' b) (?lv 0)"
  proof (rule sorted_wrt_mono_rel [rotated])
    fix a b assume "a \<in> set (?lv 0)" "b \<in> set (?lv 0)" and less: "nkey s a < nkey s b"
    then have "a < length (sl_nodes s)" "b < length (sl_nodes s)" using set0 by auto
    then show "nkey s' a < nkey s' b" using less same(3) by simp
  qed
  ultimately show ?thesis using assms(1) same x(4) unfolding sl_wf_def by simp
qed

text \<open>Searching for a splice at a level where the key is not yet linked.\<close>

lemma find_splice_link:
  assumes "sl_wf s lv" and "\<forall>a \<in> set (lv i). nkey s a \<noteq> k" and "i < MAX_HEIGHT" and "starts s lv i k a"
  shows "find_splice_for_level s k a i = Some (before_at s lv i k, ptr_of (hi s k (lv i)))"
    and "ptr_of (hi s k (lv i)) \<noteq> Some (before_at s lv i k)"
proof -
  note splice = find_splice_ok [OF assms(1,3,4)]
  have "find_splice_for_level s k a i = Some (before_at s lv i k, ptr_of (hi s k (lv i))) \<and>
      ptr_of (hi s k (lv i)) \<noteq> Some (before_at s lv i k)"
  proof (cases "hi s k (lv i)")
    case (Cons h t)
    have h: "\<not> nkey s h < k" "0 < h" "h \<in> set (lv i)" using hi_hd [OF assms(1) Cons] by simp_all
    moreover have "starts s lv i k (before_at s lv i k)" by (rule before_starts)
    ultimately have "h \<noteq> before_at s lv i k" by (auto simp: starts_def)
    then show ?thesis using splice h assms(2) unfolding Cons by simp
  qed (use splice in simp)
  then show "find_splice_for_level s k a i = Some (before_at s lv i k, ptr_of (hi s k (lv i)))"
    and "ptr_of (hi s k (lv i)) \<noteq> Some (before_at s lv i k)" by blast+
qed

definition splice_known :: "skiplist \<Rightarrow> (nat \<Rightarrow> nat list) \<Rightarrow> bytes \<Rightarrow> nat \<Rightarrow> node_ptr \<Rightarrow> node_ptr \<Rightarrow> bool" where
  "splice_known s lv k i prev next \<longleftrightarrow>
     prev = Some (before_at s lv i k) \<and> next = ptr_of (hi s k (lv i)) \<or> prev = None \<and> 1 < i"

lemma link_level_known:
  assumes "sl_wf s lv" and "can_link s lv x i"
  shows "\<exists>s'. link_level s x k i (Some (before_at s lv i (nkey s x))) (ptr_of (hi s (nkey s x) (lv i))) = Some (True, s') \<and>
    same_nodes s s' \<and> sl_wf s' (lv(i := ins_at s x (lv i)))"
proof -
  let ?k = "nkey s x"
  let ?p = "before_at s lv i ?k" and ?n = "ptr_of (hi s ?k (lv i))"
  have x: "x < length (sl_nodes s)" "i < MAX_HEIGHT" "i \<le> nd_height (sl_nodes s ! x)" "x \<notin> set (lv i)" "0 < x"
    using assms by (auto simp: can_link_def sl_wf_def)
  have nx: "next_ptr s x i \<noteq> None" using assms(1) x by (auto simp: next_ptr_def sl_wf_def)
  obtain s1 where s1: "set_next_ptr s x i ?n = Some s1" "same_nodes s s1"
    "\<forall>b m. next_ptr s1 b m = (if b = x \<and> m = i then Some ?n else next_ptr s b m)"
    using set_next_ptr_ok [OF nx, of ?n] .
  have "starts s lv i ?k ?p" by (rule before_starts)
  then have p: "?p \<noteq> x" using x by (auto simp: starts_def)
  have "path s i head (lo s ?k (lv i) @ hi s ?k (lv i))"
    using assms(1) x(2) unfolding sl_wf_split [OF assms(1), of i ?k, symmetric] by (simp add: sl_wf_def)
  then have n: "next_ptr s ?p i = Some ?n" unfolding before_at_def by (intro path_next path_last)
  then have cas: "next_ptr s1 ?p i = Some ?n" using s1(3) p by simp
  then have np: "next_ptr s1 ?p i \<noteq> None" by simp
  obtain s2 where s2: "set_next_ptr s1 ?p i (Some x) = Some s2" "same_nodes s1 s2"
    "\<forall>b m. next_ptr s2 b m = (if b = ?p \<and> m = i then Some (Some x) else next_ptr s1 b m)"
    using set_next_ptr_ok [OF np, of "Some x"] .
  from s1(1) cas s2(1) have "link_level s x k i (Some ?p) ?n = Some (True, s2)"
    by (subst link_level.simps) simp
  moreover have "same_nodes s s2" using s1(2) s2(2) by (rule same_nodes_trans)
  moreover from this have "sl_wf s2 (lv(i := ins_at s x (lv i)))"
    using s1(3) s2(3) p by (intro link_wf [OF assms]) auto
  ultimately show ?thesis by blast
qed

lemma link_level_ok:
  assumes "sl_wf s lv" and "can_link s lv x i" and "splice_known s lv (nkey s x) i prev next"
  shows "\<exists>s'. link_level s x (nkey s x) i prev next = Some (True, s') \<and>
    same_nodes s s' \<and> sl_wf s' (lv(i := ins_at s x (lv i)))"
proof (cases prev)
  case None
  have i: "i < MAX_HEIGHT" using assms(1,2) by (auto simp: can_link_def sl_wf_def)
  have keys: "\<forall>a \<in> set (lv i). nkey s a \<noteq> nkey s x" using can_link_key [OF assms(1,2)] by blast
  have "starts s lv i (nkey s x) head" by (simp add: starts_def)
  note splice = find_splice_link [OF assms(1) keys i this]
  have "link_level s x (nkey s x) i None next =
      link_level s x (nkey s x) i (Some (before_at s lv i (nkey s x))) (ptr_of (hi s (nkey s x) (lv i)))"
    using splice assms(3) None by (subst link_level.simps) (simp add: splice_known_def)
  then show ?thesis using link_level_known [OF assms(1,2), of "nkey s x"] None by simp
next
  case (Some p)
  then show ?thesis using assms(3) link_level_known [OF assms(1,2)] by (simp add: splice_known_def)
qed

text \<open>Linking all levels of a node, from the lowest up.\<close>

lemma splice_known_same:
  assumes "same_nodes s s'" and "\<forall>a \<in> set (lv j). a < length (sl_nodes s)" and "lv' j = lv j"
  shows "splice_known s' lv' k j = splice_known s lv k j"
proof -
  have "lo s' k (lv j) = lo s k (lv j)" "hi s' k (lv j) = hi s k (lv j)"
    using assms(1,2) by (auto simp: same_nodes_def intro!: filter_cong)
  then show ?thesis using assms(3) by (simp add: splice_known_def before_at_def fun_eq_iff)
qed

lemma link_levels_ok:
  assumes "sl_wf s lv" and "i \<le> Suc h" and "h \<le> nd_height (sl_nodes s ! x)" and "h \<le> sl_height s"
    and "0 < x" and "x < length (sl_nodes s)" and "nkey s x = k"
    and "i = 0 \<Longrightarrow> \<forall>a \<in> set (lv 0). nkey s a \<noteq> k" and "0 < i \<Longrightarrow> x \<in> set (lv (i - 1))"
    and "\<forall>j. i \<le> j \<longrightarrow> x \<notin> set (lv j)"
    and "\<forall>j. i \<le> j \<and> j \<le> h \<longrightarrow> splice_known s lv k j (prev ! j) (next ! j)"
  shows "\<exists>s' lv'. link_levels s x k [i..<Suc h] prev next = Some (True, s') \<and> sl_wf s' lv' \<and> same_nodes s s' \<and>
    lv' 0 = (if i = 0 then ins_at s x (lv 0) else lv 0)"
  using assms
proof (induction "Suc h - i" arbitrary: i s lv)
  case 0
  then have "[i..<Suc h] = []" "i \<noteq> 0" by simp_all
  then show ?case using 0(2) same_nodes_refl by auto
next
  case (Suc d)
  have i: "i \<le> h" using Suc(2) by linarith
  then have levels: "[i..<Suc h] = i # [Suc i..<Suc h]" by (simp add: upt_conv_Cons del: upt_Suc)
  have link: "can_link s lv x i" using Suc(4-13) i by (auto simp: can_link_def)
  have known: "splice_known s lv (nkey s x) i (prev ! i) (next ! i)" using Suc(9,13) i by simp
  obtain s1 where "link_level s x k i (prev ! i) (next ! i) = Some (True, s1)" "same_nodes s s1"
      "sl_wf s1 (lv(i := ins_at s x (lv i)))"
    using link_level_ok [OF Suc(3) link known] Suc(9) by blast
  moreover define lv1 where "lv1 = lv(i := ins_at s x (lv i))"
  ultimately have s1: "link_level s x k i (prev ! i) (next ! i) = Some (True, s1)" "same_nodes s s1" "sl_wf s1 lv1" by simp_all
  have lv1: "lv1 i = ins_at s x (lv i)" "\<And>j. j \<noteq> i \<Longrightarrow> lv1 j = lv j" by (simp_all add: lv1_def)
  have same: "length (sl_nodes s1) = length (sl_nodes s)" "nd_height (sl_nodes s1 ! x) = nd_height (sl_nodes s ! x)"
    "sl_height s1 = sl_height s" "nkey s1 x = nkey s x"
    using s1(2) Suc(8) by (simp_all add: same_nodes_def)
  have known': "\<forall>j. Suc i \<le> j \<and> j \<le> h \<longrightarrow> splice_known s1 lv1 k j (prev ! j) (next ! j)"
    using splice_known_same [OF s1(2), of lv] sl_wf_nodes [OF Suc(3)] Suc(13) lv1 by simp
  have "\<exists>s' lv'. link_levels s1 x k [Suc i..<Suc h] prev next = Some (True, s') \<and> sl_wf s' lv' \<and> same_nodes s1 s' \<and>
      lv' 0 = (if Suc i = 0 then ins_at s1 x (lv1 0) else lv1 0)"
    using Suc(2) i Suc(5-12) same s1(3) lv1 by (intro Suc(1) known') (auto simp: set_ins_at)
  then obtain s' lv' where "link_levels s1 x k [Suc i..<Suc h] prev next = Some (True, s')" "sl_wf s' lv'" "same_nodes s1 s'"
    "lv' 0 = lv1 0" by auto
  moreover have "lv1 0 = (if i = 0 then ins_at s x (lv 0) else lv 0)" by (simp add: lv1_def)
  ultimately show ?case using s1 same_nodes_trans [OF s1(2)] unfolding levels by auto
qed

lemma find_splices_absent:
  assumes "sl_wf s lv" and "\<forall>a \<in> set (lv 0). nkey s a \<noteq> k" and "i < MAX_HEIGHT"
    and "prev ! Suc i = Some a" and "starts s lv (Suc i) k a" and "Suc i < length prev" and "Suc i < length next"
  shows "\<exists>prev' next'. find_splices s k (rev [0..<Suc i]) (prev, next) = Some (Some (prev', next')) \<and>
    (\<forall>j \<le> i. prev' ! j = Some (before_at s lv j k) \<and> next' ! j = ptr_of (hi s k (lv j))) \<and>
    (\<forall>j > i. prev' ! j = prev ! j \<and> next' ! j = next ! j)"
  using assms(3-)
proof (induction i arbitrary: prev "next" a)
  case 0
  have "starts s lv 0 k a" using starts_down [OF assms(1) 0(3)] .
  moreover have "0 < length prev" "0 < length next" using 0 by linarith+
  ultimately show ?case using find_splice_link [OF assms(1,2), of a] 0 by auto
next
  case (Suc i)
  let ?p = "before_at s lv (Suc i) k" and ?n = "ptr_of (hi s k (lv (Suc i)))"
  have st: "starts s lv (Suc i) k a" using starts_down [OF assms(1) Suc(4)] .
  have "\<forall>a \<in> set (lv (Suc i)). nkey s a \<noteq> k" using assms(2) sl_wf_nodes [OF assms(1)] by blast
  from find_splice_link [OF assms(1) this Suc(2) st] Suc(3)
  have step: "find_splices s k (rev [0..<Suc (Suc i)]) (prev, next) =
      find_splices s k (rev [0..<Suc i]) (prev[Suc i := Some ?p], next[Suc i := ?n])" by simp
  have "\<exists>prev' next'. find_splices s k (rev [0..<Suc i]) (prev[Suc i := Some ?p], next[Suc i := ?n]) = Some (Some (prev', next')) \<and>
      (\<forall>j \<le> i. prev' ! j = Some (before_at s lv j k) \<and> next' ! j = ptr_of (hi s k (lv j))) \<and>
      (\<forall>j > i. prev' ! j = prev[Suc i := Some ?p] ! j \<and> next' ! j = next[Suc i := ?n] ! j)"
    using Suc(2-) before_starts by (intro Suc(1)) auto
  then obtain prev' next' where r: "find_splices s k (rev [0..<Suc i]) (prev[Suc i := Some ?p], next[Suc i := ?n]) = Some (Some (prev', next'))"
    "\<forall>j \<le> i. prev' ! j = Some (before_at s lv j k) \<and> next' ! j = ptr_of (hi s k (lv j))"
    "\<forall>j > i. prev' ! j = prev[Suc i := Some ?p] ! j \<and> next' ! j = next[Suc i := ?n] ! j" by blast
  have "prev' ! j = Some (before_at s lv j k) \<and> next' ! j = ptr_of (hi s k (lv j))" if "j \<le> Suc i" for j
    using r(2,3) Suc(5,6) that by (cases "j = Suc i") auto
  moreover have "prev' ! j = prev ! j \<and> next' ! j = next ! j" if "j > Suc i" for j using r(3) that by auto
  ultimately show ?case using r(1) unfolding step by blast
qed

lemma find_splices_present:
  assumes "sl_wf s lv" and "b \<in> set (lv 0)" and "nkey s b = k" and "i < MAX_HEIGHT"
    and "prev ! Suc i = Some a" and "starts s lv (Suc i) k a" and "Suc i < length prev"
  shows "find_splices s k (rev [0..<Suc i]) (prev, next) = Some None"
  using assms(4-)
proof (induction i arbitrary: prev "next" a)
  case 0
  obtain t where "hi s k (lv 0) = b # t" using hi_key [OF assms(1-3)] .
  then show ?case using find_splice_ok [OF assms(1) 0(1) starts_down [OF assms(1) 0(3)]] 0 assms(3) by simp
next
  case (Suc i)
  note splice = find_splice_ok [OF assms(1) Suc(2) starts_down [OF assms(1) Suc(4)]]
  show ?case
  proof (cases "\<exists>a \<in> set (lv (Suc i)). nkey s a = k")
    case True
    then obtain c t where "hi s k (lv (Suc i)) = c # t" "nkey s c = k" using hi_key [OF assms(1)] by metis
    then show ?thesis using splice Suc(3) by simp
  next
    case False
    then have "\<forall>a \<in> set (lv (Suc i)). nkey s a \<noteq> k" by blast
    from find_splice_link [OF assms(1) this Suc(2) starts_down [OF assms(1) Suc(4)]] Suc(3)
    have step: "find_splices s k (rev [0..<Suc (Suc i)]) (prev, next) = find_splices s k (rev [0..<Suc i])
        (prev[Suc i := Some (before_at s lv (Suc i) k)], next[Suc i := ptr_of (hi s k (lv (Suc i)))])" by simp
    show ?thesis unfolding step using Suc(2-) before_starts by (intro Suc(1)) auto
  qed
qed

section \<open>Refinement\<close>

text \<open>The contents of a list: the keys and values of its lowest level, in order.\<close>

definition sl_rep :: "skiplist \<Rightarrow> (bytes, bytes) btree \<Rightarrow> bool" where
  "sl_rep s m \<longleftrightarrow> (\<exists>lv. sl_wf s lv \<and> m = map (\<lambda>a. (nkey s a, nvalue s a)) (lv 0))"

lemma sl_rep_wf: "sl_rep s m \<Longrightarrow> bt_wf m"
  using sl_wf_sorted [of s _ 0] by (auto simp: sl_rep_def bt_wf_def sorted_wrt_map)

lemma skiplist_new_ok: "\<exists>s. skiplist_new = Some s \<and> sl_rep s []"
proof -
  let ?s = "\<lparr>sl_height = 0, sl_nodes = [\<lparr>nd_height = 19, nd_tower = replicate 20 None, nd_key = [], nd_value = []\<rparr>]\<rparr>"
  have "sl_wf ?s (\<lambda>_. [])" by (auto simp: sl_wf_def next_ptr_def)
  moreover have "skiplist_new = Some ?s" by (simp add: skiplist_new_def node_alloc_def)
  ultimately show ?thesis by (auto simp: sl_rep_def)
qed

text \<open>Appending a node to the store and raising the height keep the invariant.\<close>

lemma sl_wf_alloc:
  assumes "sl_wf s lv" and "node_alloc key v h = Some n" and "h < MAX_HEIGHT" and "sl_height s \<le> ht" and "ht < MAX_HEIGHT"
  shows "sl_wf (s\<lparr>sl_nodes := sl_nodes s @ [n], sl_height := ht\<rparr>) lv"
proof -
  let ?s = "s\<lparr>sl_nodes := sl_nodes s @ [n], sl_height := ht\<rparr>"
  have nodes: "sl_nodes ?s ! a = sl_nodes s ! a" if "a < length (sl_nodes s)" for a using that by (simp add: nth_append)
  have "path ?s l head (lv l)" if "l < MAX_HEIGHT" for l
  proof (rule path_frame)
    show "path s l head (lv l)" using assms(1) that by (simp add: sl_wf_def)
    fix b assume "b \<in> set (head # lv l)"
    then have "b < length (sl_nodes s)" using sl_wf_nodes [OF assms(1)] assms(1) by (auto simp: sl_wf_def)
    then show "next_ptr ?s b l = next_ptr s b l" using nodes by (simp add: next_ptr_def)
  qed
  moreover have "sorted_wrt (\<lambda>a b. nkey ?s a < nkey ?s b) (lv 0)"
    using sl_wf_sorted [OF assms(1), of 0]
  proof (rule sorted_wrt_mono_rel [rotated])
    fix a b assume "a \<in> set (lv 0)" "b \<in> set (lv 0)" and less: "nkey s a < nkey s b"
    then show "nkey ?s a < nkey ?s b" using nodes sl_wf_nodes [OF assms(1)] by simp
  qed
  moreover have "set (lv 0) \<subseteq> {0<..<length (sl_nodes ?s)}" using assms(1) by (auto simp: sl_wf_def)
  moreover have "length (nd_tower (sl_nodes ?s ! a)) = nd_height (sl_nodes ?s ! a) + 1 \<and> nd_height (sl_nodes ?s ! a) < MAX_HEIGHT"
    if "a < length (sl_nodes ?s)" for a
    using that assms(1-3) by (auto simp: sl_wf_def nth_append node_alloc_def less_Suc_eq split: if_splits)
  ultimately show ?thesis
    using assms(1,4,5) nodes [of 0] unfolding sl_wf_def by simp
qed

lemma sl_put_present:
  assumes "sl_rep s m" and "key \<in> set (bt_keys m)"
  shows "sl_put s key v coins = Some (False, s)"
proof -
  obtain lv where wf: "sl_wf s lv" and m: "m = map (\<lambda>a. (nkey s a, nvalue s a)) (lv 0)" using assms(1) by (auto simp: sl_rep_def)
  obtain b where b: "b \<in> set (lv 0)" "nkey s b = key" using assms(2) m by auto
  have h: "sl_height s < MAX_HEIGHT" using wf by (simp add: sl_wf_def)
  have "find_splices s key (rev [0..<Suc (sl_height s)])
      ((replicate (MAX_HEIGHT + 1) None)[sl_height s + 1 := Some head], replicate (MAX_HEIGHT + 1) None) = Some None"
    using h by (intro find_splices_present [OF wf b h, where a = head]) (simp_all add: starts_def)
  then show ?thesis unfolding sl_put_def Let_def by simp
qed

lemma random_height_less: "random_height coins < MAX_HEIGHT"
  by (simp add: random_height_def)

text \<open>The arrays of \<open>put\<close> know the splices at all levels of the new node.\<close>

lemma splices_known:
  assumes "sl_wf s lv" and "j < MAX_HEIGHT"
    and "\<forall>j \<le> sl_height s. prev ! j = Some (before_at s lv j k) \<and> next ! j = ptr_of (hi s k (lv j))"
    and "\<forall>j > sl_height s. prev ! j = (replicate (MAX_HEIGHT + 1) None)[sl_height s + 1 := Some head] ! j \<and>
      next ! j = replicate (MAX_HEIGHT + 1) None ! j"
  shows "splice_known s lv k j (prev ! j) (next ! j)"
proof (cases j "Suc (sl_height s)" rule: linorder_cases)
  case less
  then show ?thesis using assms(3) by (simp add: splice_known_def)
next
  case equal
  then have "lv j = []" using assms(1) by (simp add: sl_wf_def)
  then show ?thesis using assms(2,4) equal by (simp add: splice_known_def before_at_def)
next
  case greater
  then show ?thesis using assms(2,4) by (simp add: splice_known_def)
qed

lemma map_ins_at:
  assumes "\<forall>a \<in> set xs. nkey s a \<noteq> nkey s x" and "sorted_wrt (\<lambda>a b. nkey s a < nkey s b) xs"
  shows "map (\<lambda>a. (nkey s a, nvalue s a)) (ins_at s x xs) =
    bt_insert (nkey s x) (nvalue s x) (map (\<lambda>a. (nkey s a, nvalue s a)) xs)"
proof -
  let ?f = "\<lambda>a. (nkey s a, nvalue s a)"
  have "\<forall>e \<in> set (map ?f (hi s (nkey s x) xs)). nkey s x < fst e" using assms(1) by (auto simp: less_le)
  then have "bt_insert (nkey s x) (nvalue s x) (map ?f (lo s (nkey s x) xs) @ map ?f (hi s (nkey s x) xs)) =
      map ?f (ins_at s x xs)"
    by (subst bt_insert_append) (auto simp: ins_at_def)
  then show ?thesis unfolding map_append [symmetric] sorted_split [OF assms(2), of "nkey s x", symmetric] by simp
qed

lemma sl_put_absent:
  assumes "sl_rep s m" and "key \<notin> set (bt_keys m)" and "length key < 2 ^ 16" and "length v < 2 ^ 32"
  shows "\<exists>s'. sl_put s key v coins = Some (True, s') \<and> sl_rep s' (bt_insert key v m)"
proof -
  obtain lv where wf: "sl_wf s lv" and m: "m = map (\<lambda>a. (nkey s a, nvalue s a)) (lv 0)" using assms(1) by (auto simp: sl_rep_def)
  have new: "\<forall>a \<in> set (lv 0). nkey s a \<noteq> key" using assms(2) m by auto
  have h: "sl_height s < MAX_HEIGHT" using wf by (simp add: sl_wf_def)
  let ?prev = "(replicate (MAX_HEIGHT + 1) None)[sl_height s + 1 := Some head]" and ?next = "replicate (MAX_HEIGHT + 1) None"
  obtain prev "next" where splices: "find_splices s key (rev [0..<Suc (sl_height s)]) (?prev, ?next) = Some (Some (prev, next))"
    "\<forall>j \<le> sl_height s. prev ! j = Some (before_at s lv j key) \<and> next ! j = ptr_of (hi s key (lv j))"
    "\<forall>j > sl_height s. prev ! j = ?prev ! j \<and> next ! j = ?next ! j"
    using find_splices_absent [OF wf new h, of ?prev head ?next] h by (auto simp: starts_def)
  define ht where "ht = random_height coins"
  define n where "n = \<lparr>nd_height = ht, nd_tower = replicate (ht + 1) None, nd_key = key, nd_value = v\<rparr>"
  have alloc: "node_alloc key v ht = Some n" using assms(3,4) by (simp add: node_alloc_def n_def)
  have ht: "ht < MAX_HEIGHT" unfolding ht_def by (rule random_height_less)
  define s2 where "s2 = s\<lparr>sl_nodes := sl_nodes s @ [n], sl_height := max (sl_height s) ht\<rparr>"
  define x where "x = length (sl_nodes s)"
  have wf2: "sl_wf s2 lv" unfolding s2_def using h ht by (intro sl_wf_alloc [OF wf alloc]) simp_all
  have x: "0 < x" "x < length (sl_nodes s2)" "sl_nodes s2 ! x = n" using wf by (auto simp: s2_def x_def sl_wf_def)
  have old: "sl_nodes s2 ! a = sl_nodes s ! a \<and> a < x" if "a \<in> set (lv l)" for a l
    using sl_wf_nodes [OF wf that] by (simp add: s2_def x_def nth_append)
  have "lo s2 key (lv j) = lo s key (lv j)" "hi s2 key (lv j) = hi s key (lv j)" for j
    using old by (auto intro!: filter_cong)
  then have "splice_known s2 lv key j = splice_known s lv key j" for j by (simp add: splice_known_def before_at_def fun_eq_iff)
  then have known: "\<forall>j. 0 \<le> j \<and> j \<le> ht \<longrightarrow> splice_known s2 lv key j (prev ! j) (next ! j)"
    using splices_known [OF wf _ splices(2,3)] ht by simp
  have new2: "\<forall>a \<in> set (lv 0). nkey s2 a \<noteq> key" using new old by auto
  have "\<exists>s' lv'. link_levels s2 x key [0..<Suc ht] prev next = Some (True, s') \<and> sl_wf s' lv' \<and> same_nodes s2 s' \<and>
      lv' 0 = (if (0::nat) = 0 then ins_at s2 x (lv 0) else lv 0)"
    using x old new2 by (intro link_levels_ok [OF wf2] known) (auto simp: n_def s2_def)
  then obtain s' lv' where link: "link_levels s2 x key [0..<Suc ht] prev next = Some (True, s')" "sl_wf s' lv'"
    "same_nodes s2 s'" "lv' 0 = ins_at s2 x (lv 0)" by auto
  have "map (\<lambda>a. (nkey s' a, nvalue s' a)) (lv' 0) = map (\<lambda>a. (nkey s2 a, nvalue s2 a)) (ins_at s2 x (lv 0))"
    using link(3) x(2) sl_wf_nodes [OF wf2] unfolding link(4) by (auto simp: same_nodes_def set_ins_at)
  also have "\<dots> = bt_insert key v (map (\<lambda>a. (nkey s2 a, nvalue s2 a)) (lv 0))"
    using map_ins_at [of "lv 0" s2 x] new2 sl_wf_sorted [OF wf2] x(3) by (simp add: n_def)
  also have "map (\<lambda>a. (nkey s2 a, nvalue s2 a)) (lv 0) = m" using old unfolding m by auto
  finally have rep: "sl_rep s' (bt_insert key v m)"
    unfolding sl_rep_def by (intro exI [of _ lv'] conjI link(2)) (rule sym)
  have "(if sl_height s < ht then s\<lparr>sl_nodes := sl_nodes s @ [n]\<rparr>\<lparr>sl_height := ht\<rparr> else s\<lparr>sl_nodes := sl_nodes s @ [n]\<rparr>) = s2"
    by (simp add: s2_def max_def)
  then show ?thesis
    using rep splices(1) alloc link(1) unfolding sl_put_def Let_def ht_def [symmetric] x_def [symmetric] by simp
qed

lemma sl_put_too_long:
  assumes "sl_rep s m" and "key \<notin> set (bt_keys m)" and "2 ^ 16 \<le> length key \<or> 2 ^ 32 \<le> length v"
  shows "sl_put s key v coins = None"
proof -
  obtain lv where wf: "sl_wf s lv" and m: "m = map (\<lambda>a. (nkey s a, nvalue s a)) (lv 0)" using assms(1) by (auto simp: sl_rep_def)
  have new: "\<forall>a \<in> set (lv 0). nkey s a \<noteq> key" using assms(2) m by auto
  have h: "sl_height s < MAX_HEIGHT" using wf by (simp add: sl_wf_def)
  let ?prev = "(replicate (MAX_HEIGHT + 1) None)[sl_height s + 1 := Some head]" and ?next = "replicate (MAX_HEIGHT + 1) None"
  obtain prev "next" where "find_splices s key (rev [0..<Suc (sl_height s)]) (?prev, ?next) = Some (Some (prev, next))"
    using find_splices_absent [OF wf new h, of ?prev head ?next] h by (auto simp: starts_def)
  moreover have "node_alloc key v ht = None" for ht using assms(3) by (auto simp: node_alloc_def)
  ultimately show ?thesis unfolding sl_put_def Let_def by simp
qed

section \<open>Cursors\<close>

text \<open>
  What a client of the list relies on: a cursor stands before a rest of the contents, \<open>seek\<close> puts it
  before the first key that is not smaller, and moving it drops the first entry.
\<close>

locale cursor_store =
  fixes rep :: "'s \<Rightarrow> (bytes \<times> bytes) list \<Rightarrow> bool"
    and at :: "'s \<Rightarrow> 'c \<Rightarrow> (bytes \<times> bytes) list \<Rightarrow> bool"
    and valid :: "'c \<Rightarrow> bool"
    and key_of_cursor :: "'s \<Rightarrow> 'c \<Rightarrow> bytes option"
    and value_of_cursor :: "'s \<Rightarrow> 'c \<Rightarrow> bytes option"
    and move :: "'s \<Rightarrow> 'c \<Rightarrow> 'c option"
    and seek_key :: "'s \<Rightarrow> bytes \<Rightarrow> 'c option"
    and first :: "'s \<Rightarrow> 'c option"
  assumes rep_sorted: "rep s m \<Longrightarrow> bt_wf m"
    and at_valid: "at s c m \<Longrightarrow> valid c \<longleftrightarrow> m \<noteq> []"
    and at_key: "at s c ((k, v) # m) \<Longrightarrow> key_of_cursor s c = Some k"
    and at_value: "at s c ((k, v) # m) \<Longrightarrow> value_of_cursor s c = Some v"
    and at_move: "at s c ((k, v) # m) \<Longrightarrow> \<exists>c'. move s c = Some c' \<and> at s c' m"
    and seek_at: "rep s m \<Longrightarrow> \<exists>c. seek_key s k = Some c \<and> at s c (bt_range_from k m)"
    and first_at: "rep s m \<Longrightarrow> \<exists>c. first s = Some c \<and> at s c m"
begin

fun move_n :: "'s \<Rightarrow> nat \<Rightarrow> 'c \<Rightarrow> 'c option" where
  "move_n s 0 c = Some c"
| "move_n s (Suc n) c = Option.bind (move s c) (move_n s n)"

lemma move_n_at: "at s c m \<Longrightarrow> n \<le> length m \<Longrightarrow> \<exists>c'. move_n s n c = Some c' \<and> at s c' (drop n m)"
proof (induction n arbitrary: c m)
  case (Suc n)
  then obtain k v m' where m: "m = (k, v) # m'" by (cases m) auto
  then obtain c1 where "move s c = Some c1" "at s c1 m'" using Suc(2) at_move by blast
  then show ?case using Suc(1) [of c1 m'] Suc(3) m by simp
qed simp

text \<open>Every entry is reached from the first one.\<close>

lemma nth_reached:
  assumes "rep s m" and "n < length m"
  obtains c c' where "first s = Some c" and "move_n s n c = Some c'"
    and "key_of_cursor s c' = Some (fst (m ! n))" and "value_of_cursor s c' = Some (snd (m ! n))"
proof -
  obtain c where c: "first s = Some c" "at s c m" using first_at [OF assms(1)] by blast
  obtain c' where c': "move_n s n c = Some c'" "at s c' (drop n m)" 
    using move_n_at [OF c(2) less_imp_le [OF assms(2)]] by blast
  have "drop n m = (fst (m ! n), snd (m ! n)) # drop (Suc n) m" using assms(2) by (simp add: Cons_nth_drop_Suc)
  then show thesis using that c(1) c' at_key at_value by metis
qed

end

definition sl_at :: "skiplist \<Rightarrow> node_ptr \<Rightarrow> (bytes \<times> bytes) list \<Rightarrow> bool" where
  "sl_at s c m \<longleftrightarrow> (\<exists>lv pre suf. sl_wf s lv \<and> lv 0 = pre @ suf \<and> c = ptr_of suf \<and>
     m = map (\<lambda>a. (nkey s a, nvalue s a)) suf)"

lemma sl_at_Cons:
  assumes "sl_at s c ((k, v) # m)"
  shows "iter_key s c = Some k" and "iter_value s c = Some v" and "\<exists>c'. iter_next s c = Some c' \<and> sl_at s c' m"
proof -
  obtain lv pre a suf where a: "sl_wf s lv" "lv 0 = pre @ a # suf" "c = Some a" "k = nkey s a" "v = nvalue s a"
    "m = map (\<lambda>a. (nkey s a, nvalue s a)) suf"
    using assms unfolding sl_at_def by (auto simp: Cons_eq_map_conv)
  have len: "a < length (sl_nodes s)" using sl_wf_nodes [OF a(1), of a 0] a(2) by simp
  then show "iter_key s c = Some k" "iter_value s c = Some v"
    using a by (simp_all add: iter_key_def iter_value_def key_at_def value_at_def)
  have "path s 0 a suf" using path_suffix [of s 0 head pre a suf] sl_wf_path [OF a(1), of 0] a(2) by simp
  then have "iter_next s c = Some (ptr_of suf)" using a(3) path_next by (simp add: iter_next_def)
  moreover have "sl_at s (ptr_of suf) m"
    unfolding sl_at_def using a by (intro exI [of _ lv] exI [of _ "pre @ [a]"] exI [of _ suf]) simp
  ultimately show "\<exists>c'. iter_next s c = Some c' \<and> sl_at s c' m" by blast
qed

lemma find_near_rep:
  assumes "sl_wf s lv"
  shows "find_near s k below eq = Some (near_spec s k below eq (lv 0))"
proof -
  have "sl_height s < MAX_HEIGHT" "starts s lv (sl_height s) k head" using assms by (simp_all add: sl_wf_def starts_def)
  then show ?thesis unfolding find_near_def by (rule find_near_ok [OF assms])
qed

lemma near_seek: "near_spec s k False True xs = ptr_of (hi s k xs)"
  by (cases "hi s k xs") (auto simp: near_spec_def Let_def)

interpretation sl: cursor_store sl_rep sl_at "\<lambda>c. c \<noteq> None" iter_key iter_value iter_next seek seek_to_first
proof unfold_locales
  fix s m assume rep: "sl_rep s m"
  then obtain lv where lv: "sl_wf s lv" "m = map (\<lambda>a. (nkey s a, nvalue s a)) (lv 0)" by (auto simp: sl_rep_def)
  show "bt_wf m" using rep by (rule sl_rep_wf)
  show "\<exists>c. seek_to_first s = Some c \<and> sl_at s c m"
    using lv path_next [of s 0 head "lv 0"] unfolding sl_at_def seek_to_first_def
    by (intro exI [of _ "ptr_of (lv 0)"] conjI exI [of _ lv] exI [of _ "[]"] exI [of _ "lv 0"]) (simp_all add: sl_wf_def)
  fix k
  have "bt_range_from k m = map (\<lambda>a. (nkey s a, nvalue s a)) (hi s k (lv 0))"
    unfolding bt_range_from_def lv(2) filter_map by (simp add: comp_def not_less)
  then show "\<exists>c. seek s k = Some c \<and> sl_at s c (bt_range_from k m)"
    unfolding seek_def find_near_rep [OF lv(1)] near_seek sl_at_def using lv(1) sl_wf_split [OF lv(1), of 0 k]
    by (intro exI [of _ "ptr_of (hi s k (lv 0))"] conjI exI [of _ lv] exI [of _ "lo s k (lv 0)"] exI [of _ "hi s k (lv 0)"]) simp_all
next
  fix s c m assume "sl_at s c m"
  then obtain suf where "c = ptr_of suf" "m = map (\<lambda>a. (nkey s a, nvalue s a)) suf" by (auto simp: sl_at_def)
  then show "(c \<noteq> None) = (m \<noteq> [])" by (cases suf) simp_all
qed (rule sl_at_Cons; assumption)+

section \<open>Length, last element and lookup\<close>

lemma len_loop_path: "path s 0 a xs \<Longrightarrow> len_loop s a n = Some (n + length xs)"
proof (induction xs arbitrary: a n)
  case Nil
  then show ?case by (subst len_loop.simps) simp
next
  case (Cons x xs)
  then show ?case by (subst len_loop.simps) simp
qed

lemma find_last_path:
  "path s l a xs \<Longrightarrow> find_last_loop s a l = find_last_loop s (last (a # xs)) l"
proof (induction xs arbitrary: a)
  case (Cons x xs)
  then have "find_last_loop s a l = find_last_loop s x l" by (subst find_last_loop.simps) simp
  with Cons show ?case by simp
qed simp

lemma path_of_member:
  assumes "sl_wf s lv" and "l < MAX_HEIGHT" and "a = head \<or> a \<in> set (lv l)"
  obtains zs where "path s l a zs" and "last (a # zs) = last (head # lv l)"
proof (cases "a = head")
  case True
  then show ?thesis using that sl_wf_path [OF assms(1,2)] by blast
next
  case False
  then obtain ys zs where lv: "lv l = ys @ a # zs" using assms(3) by (auto dest: split_list)
  then have "path s l a zs" using path_suffix [of s l head ys a zs] sl_wf_path [OF assms(1,2)] by simp
  then show ?thesis using that lv by simp
qed

lemma find_last_ok:
  assumes "sl_wf s lv" and "l < MAX_HEIGHT" and "a = head \<or> a \<in> set (lv l)"
  shows "find_last_loop s a l = Some (if lv 0 = [] then None else Some (last (lv 0)))"
  using assms(2,3)
proof (induction l arbitrary: a)
  case 0
  obtain zs where z: "path s 0 a zs" "last (a # zs) = last (head # lv 0)" using path_of_member [OF assms(1) 0] .
  have "next_ptr s (last (a # zs)) 0 = Some None" using path_last [of s 0 a zs "[]"] z(1) by simp
  moreover have "last (head # lv 0) = head \<longleftrightarrow> lv 0 = []"
    using last_in_set [of "lv 0"] sl_wf_nodes [OF assms(1), of "last (lv 0)" 0] by auto
  ultimately show ?case unfolding find_last_path [OF z(1)] z(2) by (subst find_last_loop.simps) auto
next
  case (Suc l)
  obtain zs where z: "path s (Suc l) a zs" "last (a # zs) = last (head # lv (Suc l))"
    using path_of_member [OF assms(1) Suc(2,3)] .
  have "next_ptr s (last (a # zs)) (Suc l) = Some None" using path_last [of s "Suc l" a zs "[]"] z(1) by simp
  moreover have "last (head # lv (Suc l)) = head \<or> last (head # lv (Suc l)) \<in> set (lv l)"
    using last_in_set [of "lv (Suc l)"] sl_wf_down [OF assms(1), of _ l] by auto
  then have "find_last_loop s (last (head # lv (Suc l))) l = Some (if lv 0 = [] then None else Some (last (lv 0)))"
    using Suc(1,2) by simp
  ultimately show ?case unfolding find_last_path [OF z(1)] z(2) by (subst find_last_loop.simps) simp
qed

lemma sl_len_ok: "sl_rep s m \<Longrightarrow> sl_len s = Some (length m)"
  using len_loop_path [OF sl_wf_path, of s _ 0] by (auto simp: sl_rep_def sl_len_def)

lemma sl_is_empty_ok: "sl_rep s m \<Longrightarrow> sl_is_empty s = Some (m = [])"
  using path_next [OF sl_wf_path, of s _ 0] by (auto simp: sl_rep_def sl_is_empty_def ptr_of_def split: list.splits)

lemma seek_to_last_ok:
  assumes "sl_rep s m"
  shows "\<exists>c. seek_to_last s = Some c \<and> (c = None \<longleftrightarrow> m = []) \<and> (m \<noteq> [] \<longrightarrow> iter_key s c = Some (fst (last m)))"
proof -
  obtain lv where lv: "sl_wf s lv" "m = map (\<lambda>a. (nkey s a, nvalue s a)) (lv 0)" using assms by (auto simp: sl_rep_def)
  have "seek_to_last s = Some (if lv 0 = [] then None else Some (last (lv 0)))"
    unfolding seek_to_last_def find_last_def using lv(1) by (intro find_last_ok [OF lv(1)]) (simp_all add: sl_wf_def)
  moreover have "lv 0 \<noteq> [] \<Longrightarrow> last (lv 0) < length (sl_nodes s)" using sl_wf_nodes [OF lv(1), of "last (lv 0)" 0] by simp
  ultimately show ?thesis using lv(2) by (simp add: iter_key_def key_at_def last_map)
qed

lemma get_with_key_ok:
  assumes "sl_rep s m"
  shows "get_with_key s k = Some (map_option (\<lambda>v. (k, v)) (bt_get m k))"
proof -
  obtain c where c: "seek s k = Some c" "sl_at s c (bt_range_from k m)" using sl.seek_at [OF assms] by blast
  have wf: "bt_wf m" using assms by (rule sl.rep_sorted)
  show ?thesis
  proof (cases "bt_range_from k m")
    case Nil
    then have "bt_get m k = None"
      by (auto simp: bt_range_from_def bt_get_def filter_empty_conv map_of_eq_None_iff)
    moreover have "c = None" using sl.at_valid [OF c(2)] Nil by simp
    ultimately show ?thesis using c(1) by (simp add: get_with_key_def seek_def)
  next
    case (Cons e m')
    obtain j v where e: "e = (j, v)" by (cases e)
    have at: "sl_at s c ((j, v) # m')" using c(2) Cons e by simp
    obtain a where a: "c = Some a" using sl.at_valid [OF at] by auto
    have "bt_get (bt_range_from k m) k = bt_get m k" by (simp add: bt_get_range_from)
    moreover have "(j, v) \<in> set (bt_range_from k m)" unfolding Cons e by simp
    then have "k \<le> j" by (simp add: bt_range_from_def)
    moreover have "\<forall>e \<in> set m'. j < fst e"
      using bt_wf_range_from [OF wf, of k] unfolding Cons e by (simp add: bt_wf_def)
    moreover from calculation(2,3) have "bt_get ((j, v) # m') k = (if j = k then Some v else None)"
      by (force simp: bt_get_def map_of_eq_None_iff)
    ultimately have "bt_get m k = (if j = k then Some v else None)" unfolding Cons e by simp
    then show ?thesis
      using c(1) a sl.at_key [OF at] sl.at_value [OF at]
      by (simp add: get_with_key_def seek_def same_key_def iter_key_def iter_value_def)
  qed
qed

section \<open>Properties\<close>

text \<open>The lists a writer builds, with the ordered map they stand for.\<close>

inductive sl_run :: "skiplist \<Rightarrow> (bytes, bytes) btree \<Rightarrow> bool" where
  new: "skiplist_new = Some s \<Longrightarrow> sl_run s []"
| put: "sl_run s m \<Longrightarrow> sl_put s key v coins = Some (inserted, s') \<Longrightarrow>
    sl_run s' (if inserted then bt_insert key v m else m)"

lemma sl_run_rep: "sl_run s m \<Longrightarrow> sl_rep s m"
proof (induction rule: sl_run.induct)
  case (new s)
  obtain s0 where s0: "skiplist_new = Some s0" "sl_rep s0 []" using skiplist_new_ok by blast
  from trans [OF new [symmetric] s0(1)] s0(2) show ?case by simp
next
  case (put s m key v coins inserted s')
  show ?case
  proof (cases "key \<in> set (bt_keys m)")
    case True
    then show ?thesis using sl_put_present [OF put(3), of key v coins] put by simp
  next
    case False
    show ?thesis
    proof (cases "length key < 2 ^ 16 \<and> length v < 2 ^ 32")
      case True
      then show ?thesis using sl_put_absent [OF put(3) False, of v coins] put(2) by auto
    next
      case False
      then show ?thesis
        using sl_put_too_long [OF put(3) \<open>key \<notin> set (bt_keys m)\<close>, of v coins] put(2) by auto
    qed
  qed
qed

text \<open>
  The cursors of a list: one for every entry and the invalid one after the last, which reading and
  moving connect.
\<close>

definition sl_cursors :: "skiplist \<Rightarrow> (bytes, bytes) btree \<Rightarrow> (nat \<Rightarrow> node_ptr) \<Rightarrow> bool" where
  "sl_cursors s m c \<longleftrightarrow> c (length m) = None \<and>
     (\<forall>i < length m. c i \<noteq> None \<and> iter_key s (c i) = Some (fst (m ! i)) \<and> iter_value s (c i) = Some (snd (m ! i)) \<and>
        iter_next s (c i) = Some (c (i + 1)) \<and> iter_prev s (c i) = Some (if i = 0 then None else c (i - 1)))"

definition nth_ptr :: "nat list \<Rightarrow> nat \<Rightarrow> node_ptr" where
  "nth_ptr xs i = ptr_of (drop i xs)"

lemma nth_ptr_nth: "i < length xs \<Longrightarrow> nth_ptr xs i = Some (xs ! i)"
  by (simp add: nth_ptr_def Cons_nth_drop_Suc [symmetric])

lemma lo_take:
  assumes "sl_wf s lv" and "i < length (lv 0)"
  shows "lo s (nkey s (lv 0 ! i)) (lv 0) = take i (lv 0)"
proof -
  let ?k = "nkey s (lv 0 ! i)" and ?xs = "lv 0"
  have sorted: "sorted_wrt (\<lambda>a b. nkey s a < nkey s b) ?xs" using sl_wf_sorted [OF assms(1)] .
  have "nkey s (?xs ! j) < ?k" if "j < i" for j using sorted_wrt_nth_less [OF sorted that assms(2)] .
  then have "\<forall>a \<in> set (take i ?xs). nkey s a < ?k" using assms(2) by (auto simp: in_set_conv_nth)
  then have low: "lo s ?k (take i ?xs) = take i ?xs" by simp
  have "\<not> nkey s (?xs ! j) < ?k" if "i \<le> j" "j < length ?xs" for j
    using sorted_wrt_nth_less [OF sorted, of i j] that by (cases "i = j") auto
  then have "\<forall>a \<in> set (drop i ?xs). \<not> nkey s a < ?k" by (auto simp: in_set_conv_nth)
  then have "lo s ?k (drop i ?xs) = []" by simp
  with low have "lo s ?k (take i ?xs @ drop i ?xs) = take i ?xs" unfolding filter_append by simp
  then show ?thesis by simp
qed

lemma sl_cursors_nth:
  assumes "sl_wf s lv"
  shows "sl_cursors s (map (\<lambda>a. (nkey s a, nvalue s a)) (lv 0)) (nth_ptr (lv 0))"
  unfolding sl_cursors_def length_map
proof (intro conjI allI impI)
  show "nth_ptr (lv 0) (length (lv 0)) = None" by (simp add: nth_ptr_def)
  fix i assume i: "i < length (lv 0)"
  let ?a = "lv 0 ! i"
  have a: "?a < length (sl_nodes s)" using sl_wf_nodes [OF assms nth_mem [OF i]] by simp
  show "nth_ptr (lv 0) i \<noteq> None" using nth_ptr_nth [OF i] by simp
  show "iter_key s (nth_ptr (lv 0) i) = Some (fst (map (\<lambda>a. (nkey s a, nvalue s a)) (lv 0) ! i))"
    "iter_value s (nth_ptr (lv 0) i) = Some (snd (map (\<lambda>a. (nkey s a, nvalue s a)) (lv 0) ! i))"
    using a i by (simp_all add: nth_ptr_nth iter_key_def iter_value_def key_at_def value_at_def)
  have "path s 0 ?a (drop (Suc i) (lv 0))"
    using path_suffix [of s 0 head "take i (lv 0)" ?a "drop (Suc i) (lv 0)"] sl_wf_path [OF assms, of 0] id_take_nth_drop [OF i] by simp
  then show "iter_next s (nth_ptr (lv 0) i) = Some (nth_ptr (lv 0) (i + 1))"
    using path_next nth_ptr_nth [OF i] by (simp add: iter_next_def nth_ptr_def)
  have "near_spec s (nkey s ?a) True False (lv 0) = (if i = 0 then None else Some (lv 0 ! (i - 1)))"
    using i by (cases "lv 0 = []") (simp_all add: near_spec_def Let_def lo_take [OF assms i] last_conv_nth)
  then show "iter_prev s (nth_ptr (lv 0) i) = Some (if i = 0 then None else nth_ptr (lv 0) (i - 1))"
    using a i by (simp add: nth_ptr_nth iter_prev_def iter_key_def key_at_def find_near_rep [OF assms])
qed

lemma seek_for_prev_nth:
  fixes k :: bytes
  assumes "sl_wf s lv"
  defines "n \<equiv> length (filter (\<lambda>a. nkey s a \<le> k) (lv 0))"
  shows "seek_for_prev s k = Some (if n = 0 then None else nth_ptr (lv 0) (n - 1))"
proof -
  obtain l h where l: "lo s k (lv 0) = l" and h: "hi s k (lv 0) = h" by blast
  have split: "lv 0 = l @ h" using sl_wf_split [OF assms(1), of 0 k] unfolding l h .
  have low: "\<forall>a \<in> set l. nkey s a < k" using l by auto
  have near: "seek_for_prev s k = Some (if h \<noteq> [] \<and> nkey s (hd h) = k then Some (hd h) else if l = [] then None else Some (last l))"
    by (simp add: seek_for_prev_def find_near_rep [OF assms(1)] near_spec_def Let_def l h)
  have fl: "filter (\<lambda>a. nkey s a \<le> k) l = l" using low by (auto simp: filter_id_conv)
  have last: "l \<noteq> [] \<Longrightarrow> nth_ptr (lv 0) (length l - 1) = Some (last l)"
    by (cases l rule: rev_cases) (simp_all add: nth_ptr_def split)
  show ?thesis
  proof (cases h)
    case Nil
    then have "n = length l" unfolding n_def split using fl by simp
    then show ?thesis using near last Nil by simp
  next
    case (Cons x t)
    have "sorted_wrt (\<lambda>a b. nkey s a < nkey s b) (x # t)"
      using sl_wf_sorted [OF assms(1), of 0] unfolding split Cons sorted_wrt_append by blast
    moreover have x: "k \<le> nkey s x" using hi_hd [OF assms(1), of k 0 x t] h Cons by (simp add: not_less)
    ultimately have "\<forall>a \<in> set t. \<not> nkey s a \<le> k" by (meson le_less_trans not_le sorted_wrt.simps(2))
    then have "filter (\<lambda>a. nkey s a \<le> k) t = []" by (simp add: filter_empty_conv)
    then have n: "n = length l + (if nkey s x = k then 1 else 0)" unfolding n_def split Cons using fl x by auto
    moreover have "nth_ptr (lv 0) (length l) = Some x" by (simp add: nth_ptr_def split Cons)
    ultimately show ?thesis using near last Cons by auto
  qed
qed

text \<open>
  C9. The skip list implements an ordered map.  On every list built by insertions the operations
  that read it return: a lookup gives what the map gives, the length is the number of entries, and
  there is one cursor for every entry such that reading a cursor gives the entry, moving it forward
  or back gives the cursor of the neighbour or the invalid one, \<open>seek_to_first\<close> and
  \<open>seek_to_last\<close> give the outermost cursors, \<open>seek\<close> the first entry that is not smaller than the
  key and \<open>seek_for_prev\<close> the last one that is not greater.\<close>

theorem skiplist_refines:
  assumes "sl_run s m"
  shows "bt_wf m \<and> sl_get s k = Some (bt_get m k) \<and> sl_len s = Some (length m) \<and> sl_is_empty s = Some (m = []) \<and>
    (\<exists>c. sl_cursors s m c \<and> seek_to_first s = Some (c 0) \<and>
       seek_to_last s = Some (if m = [] then None else c (length m - 1)) \<and>
       seek s k = Some (c (length (filter (\<lambda>e. fst e < k) m))) \<and>
       seek_for_prev s k = Some (if filter (\<lambda>e. fst e \<le> k) m = [] then None else c (length (filter (\<lambda>e. fst e \<le> k) m) - 1)))"
proof -
  have rep: "sl_rep s m" by (rule sl_run_rep [OF assms])
  then obtain lv where lv: "sl_wf s lv" and m: "m = map (\<lambda>a. (nkey s a, nvalue s a)) (lv 0)" by (auto simp: sl_rep_def)
  have len: "length (filter (\<lambda>e. P (fst e)) m) = length (filter (\<lambda>a. P (nkey s a)) (lv 0))" for P
    unfolding m filter_map by (simp add: comp_def)
  have "seek_to_first s = Some (nth_ptr (lv 0) 0)"
    using path_next [OF sl_wf_path [OF lv, of 0]] by (simp add: seek_to_first_def nth_ptr_def)
  moreover have "seek_to_last s = Some (if m = [] then None else nth_ptr (lv 0) (length m - 1))"
    unfolding seek_to_last_def find_last_def using find_last_ok [OF lv, of "sl_height s" head] lv
    by (simp add: m sl_wf_def nth_ptr_nth last_conv_nth)
  moreover have "drop (length (lo s k (lv 0))) (lv 0) = hi s k (lv 0)"
    by (subst (2) sl_wf_split [OF lv, of 0 k]) simp
  then have "seek s k = Some (nth_ptr (lv 0) (length (filter (\<lambda>e. fst e < k) m)))"
    unfolding seek_def find_near_rep [OF lv] near_seek nth_ptr_def len [of "\<lambda>j. j < k"] by simp
  moreover have "seek_for_prev s k = Some (if filter (\<lambda>e. fst e \<le> k) m = [] then None
      else nth_ptr (lv 0) (length (filter (\<lambda>e. fst e \<le> k) m) - 1))"
    using seek_for_prev_nth [OF lv, of k] unfolding len [of "\<lambda>j. j \<le> k", symmetric] by simp
  moreover have "sl_cursors s m (nth_ptr (lv 0))" unfolding m by (rule sl_cursors_nth [OF lv])
  ultimately show ?thesis
    using rep get_with_key_ok [OF rep, of k] sl_len_ok sl_is_empty_ok sl.rep_sorted
    by (auto simp: sl_get_def option.map_comp comp_def option.map_ident)
qed

theorem skiplist_refines_witness:
  "\<exists>s s' c. skiplist_new = Some s \<and> sl_put s [7] [1, 2] [True, False] = Some (True, s') \<and>
     sl_get s' [7] = Some (Some [1, 2]) \<and> sl_len s' = Some 1 \<and> seek s' [3] = Some c \<and> iter_key s' c = Some [7] \<and>
     iter_next s' c = Some None"
proof -
  obtain s where s: "skiplist_new = Some s" "sl_rep s []" using skiplist_new_ok by blast
  obtain s' where s': "sl_put s [7] [1, 2] [True, False] = Some (True, s')"
    using sl_put_absent [OF s(2), of "[7]" "[1, 2]" "[True, False]"] by auto
  have run: "sl_run s' [([7], [1, 2])]" using sl_run.put [OF sl_run.new [OF s(1)] s'] by simp
  have less: "\<not> [7 :: u8] < [3]" by simp
  from skiplist_refines [OF run, of "[3]"] obtain c where "seek s' [3] = Some (c 0)" "sl_cursors s' [([7], [1, 2])] c"
    using less by auto
  then show ?thesis using skiplist_refines [OF run, of "[7]"] s(1) s' by (auto simp: bt_get_def sl_cursors_def)
qed

text \<open>
  C13. Inserting never loses or changes an entry: a key that is present is refused and the list is
  unchanged; a new key whose size fits 16 bits, with a value whose size fits 32 bits, is added for
  every outcome of the random height; an entry that is too large panics.\<close>

theorem skiplist_put_spec:
  assumes "sl_run s m"
  shows "(key \<in> set (bt_keys m) \<longrightarrow> sl_put s key v coins = Some (False, s)) \<and>
    (key \<notin> set (bt_keys m) \<and> length key < 2 ^ 16 \<and> length v < 2 ^ 32 \<longrightarrow>
       (\<exists>s'. sl_put s key v coins = Some (True, s') \<and> sl_run s' (bt_insert key v m))) \<and>
    (key \<notin> set (bt_keys m) \<and> \<not> (length key < 2 ^ 16 \<and> length v < 2 ^ 32) \<longrightarrow> sl_put s key v coins = None)"
proof (intro conjI impI)
  note rep = sl_run_rep [OF assms]
  show "sl_put s key v coins = Some (False, s)" if "key \<in> set (bt_keys m)" using sl_put_present [OF rep that] .
  assume new: "key \<notin> set (bt_keys m) \<and> length key < 2 ^ 16 \<and> length v < 2 ^ 32"
  then obtain s' where s': "sl_put s key v coins = Some (True, s')" using sl_put_absent [OF rep, of key v coins] by blast
  then show "\<exists>s'. sl_put s key v coins = Some (True, s') \<and> sl_run s' (bt_insert key v m)"
    using sl_run.put [OF assms s'] by auto
next
  assume "key \<notin> set (bt_keys m) \<and> \<not> (length key < 2 ^ 16 \<and> length v < 2 ^ 32)"
  then show "sl_put s key v coins = None" using sl_put_too_long [OF sl_run_rep [OF assms], of key v coins] by auto
qed

theorem skiplist_put_spec_witness:
  "\<exists>s s'. skiplist_new = Some s \<and> sl_put s [7] [] [] = Some (True, s') \<and> sl_put s' [7] [9] [] = Some (False, s')"
proof -
  obtain s where s: "skiplist_new = Some s" using skiplist_new_ok by blast
  obtain s' where s': "sl_put s [7] [] [] = Some (True, s')" "sl_run s' (bt_insert [7] [] [])"
    using skiplist_put_spec [OF sl_run.new [OF s], of "[7]" "[]" "[]"] by auto
  show ?thesis using skiplist_put_spec [OF s'(2), of "[7]" "[9]" "[]"] s s'(1) by auto
qed

text \<open>
  C14. The search of the list ends and finds the neighbour it is asked for: the greatest key below,
  or the least key above, and the key itself when equality is allowed.\<close>

theorem find_near_spec:
  assumes "sl_run s m"
  shows "\<exists>p. find_near s k below eq = Some p \<and>
    Option.bind p (key_at s) =
      (if eq \<and> k \<in> set (bt_keys m) then Some k
       else if below then (case filter (\<lambda>j. j < k) (bt_keys m) of [] \<Rightarrow> None | l \<Rightarrow> Some (last l))
       else (case filter (\<lambda>j. k < j) (bt_keys m) of [] \<Rightarrow> None | h # _ \<Rightarrow> Some h))"
proof -
  obtain lv where lv: "sl_wf s lv" "m = map (\<lambda>a. (nkey s a, nvalue s a)) (lv 0)"
    using sl_run_rep [OF assms] by (auto simp: sl_rep_def)
  let ?l = "lo s k (lv 0)" and ?h = "hi s k (lv 0)"
  have keys: "bt_keys m = map (nkey s) (lv 0)" using lv(2) by simp
  have l: "filter (\<lambda>j. j < k) (bt_keys m) = map (nkey s) ?l" unfolding keys by (simp add: filter_map comp_def)
  have key: "key_at s a = Some (nkey s a)" if "a \<in> set (lv 0)" for a
    using sl_wf_nodes [OF lv(1) that] by (simp add: key_at_def)
  have last_l: "?l \<noteq> [] \<Longrightarrow> key_at s (last ?l) = Some (last (map (nkey s) ?l))"
    using key [of "last ?l"] last_in_set [of ?l] by (simp add: last_map)
  show ?thesis
  proof (cases "k \<in> set (bt_keys m)")
    case True
    then obtain a where a: "a \<in> set (lv 0)" "nkey s a = k" unfolding keys by auto
    obtain t where t: "?h = a # t" using hi_key [OF lv(1) a] .
    have "sorted_wrt (\<lambda>a b. nkey s a < nkey s b) (a # t)"
      using sl_wf_sorted [OF lv(1), of 0] unfolding t [symmetric] by (rule sorted_wrt_filter)
    then have "filter (\<lambda>b. k < nkey s b) (a # t) = t" using a(2) by simp
    moreover have "filter (\<lambda>b. k < nkey s b) (lv 0) = filter (\<lambda>b. k < nkey s b) ?h"
      unfolding filter_filter by (rule filter_cong) auto
    ultimately have "filter (\<lambda>b. k < nkey s b) (lv 0) = t" unfolding t by simp
    then have h: "filter (\<lambda>j. k < j) (bt_keys m) = map (nkey s) t" unfolding keys by (simp add: filter_map comp_def)
    have "b \<in> set t \<Longrightarrow> b \<in> set (lv 0)" for b using arg_cong [OF t, of set] by auto
    then show ?thesis
      using find_near_rep [OF lv(1), of k below eq] t a True key last_l unfolding h l
      by (cases ?l; cases t) (auto simp: near_spec_def Let_def)
  next
    case False
    then have ne: "\<forall>a \<in> set (lv 0). nkey s a \<noteq> k" unfolding keys by auto
    then have "filter (\<lambda>b. k < nkey s b) (lv 0) = ?h" by (auto intro!: filter_cong simp: not_less less_le)
    then have h: "filter (\<lambda>j. k < j) (bt_keys m) = map (nkey s) ?h" unfolding keys by (simp add: filter_map comp_def)
    show ?thesis
    proof (cases ?h)
      case Nil
      then show ?thesis
        using find_near_rep [OF lv(1), of k below eq] False last_l unfolding h l
        by (cases ?l) (auto simp: near_spec_def Let_def)
    next
      case (Cons b t)
      then have "b \<in> set (lv 0)" using hi_hd [OF lv(1) Cons] by simp
      then show ?thesis
        using find_near_rep [OF lv(1), of k below eq] Cons False last_l key [of b] ne unfolding h l
        by (cases ?l) (auto simp: near_spec_def Let_def)
    qed
  qed
qed

theorem find_near_spec_witness:
  "\<exists>s s' p. skiplist_new = Some s \<and> sl_put s [7] [] [] = Some (True, s') \<and>
     find_near s' [9] True False = Some p \<and> Option.bind p (key_at s') = Some [7]"
proof -
  obtain s where s: "skiplist_new = Some s" "sl_rep s []" using skiplist_new_ok by blast
  obtain s' where s': "sl_put s [7] [] [] = Some (True, s')" using sl_put_absent [OF s(2), of "[7]" "[]" "[]"] by auto
  have "sl_run s' (if True then bt_insert [7] [] [] else [])" by (rule sl_run.put [OF sl_run.new [OF s(1)] s'])
  from find_near_spec [OF this, of "[9]" True False] s(1) s' show ?thesis by auto
qed

end
