(* ===== verification/Record_Batch.thy ===== *)
theory Record_Batch
  imports Contiguous_Row
begin

text \<open>
  Record batches and projections: \<^verbatim>\<open>common_types/src/column.rs\<close> (the column builders),
  \<^verbatim>\<open>record_batch.rs\<close>, \<^verbatim>\<open>projected_schema.rs\<close> and the record schemas of \<^verbatim>\<open>schema.rs\<close>.

  A column block is the list of its values.  Whether Arrow accepts a set of columns as a record
  batch is the argument \<open>arrow_ok\<close>; what is relied on is \<open>arrow_accepts\<close>: columns of the declared
  types and of one length, without nulls where the schema allows none, are accepted.
\<close>

section \<open>Columns\<close>

record column_block =
  cb_kind :: datum_kind
  cb_dict :: bool
  cb_data :: "datum list"

datatype column_error = ConflictType datum_kind datum_kind

definition column_builder_new :: "datum_kind \<Rightarrow> bool \<Rightarrow> column_block" where
  "column_builder_new k is_dictionary = \<lparr>cb_kind = k, cb_dict = (k = K_String \<and> is_dictionary), cb_data = []\<rparr>"

definition append_view :: "column_block \<Rightarrow> datum \<Rightarrow> (column_error, column_block) result" where
  "append_view b d =
     (if d = D_Null \<or> kind d = cb_kind b then Ok (b\<lparr>cb_data := cb_data b @ [d]\<rparr>)
      else Err (ConflictType (cb_kind b) (kind d)))"

definition append_block_range :: "column_block \<Rightarrow> column_block \<Rightarrow> nat \<Rightarrow> nat \<Rightarrow> (column_error, column_block) result" where
  "append_block_range b block start len =
     (let n = length (cb_data block); count = min (start + len) n - start
      in if cb_kind b = K_Null then
           (if n \<le> start + len \<and> n < start then Panic
            else Ok (b\<lparr>cb_data := cb_data b @ replicate count D_Null\<rparr>))
         else if cb_kind block = K_Null then Ok (b\<lparr>cb_data := cb_data b @ replicate count D_Null\<rparr>)
         else if cb_kind block = cb_kind b \<and> cb_dict block = cb_dict b
           then Ok (b\<lparr>cb_data := cb_data b @ take count (drop start (cb_data block))\<rparr>)
         else Err (ConflictType (cb_kind b) (cb_kind block)))"

definition column_new_null :: "nat \<Rightarrow> column_block" where
  "column_new_null rows = \<lparr>cb_kind = K_Null, cb_dict = False, cb_data = replicate rows D_Null\<rparr>"

section \<open>Record schemas\<close>

record record_schema_with_key =
  rs_columns :: column_schemas
  rs_primary_key_indexes :: "nat list"

abbreviation rs_cols :: "record_schema_with_key \<Rightarrow> column_schema list" where
  "rs_cols rs \<equiv> columns (rs_columns rs)"

definition to_record_schema_with_key :: "schema \<Rightarrow> record_schema_with_key" where
  "to_record_schema_with_key s = \<lparr>rs_columns = column_schemas_of s, rs_primary_key_indexes = primary_key_indexes s\<rparr>"

definition push_projected :: "schema \<Rightarrow> nat list \<Rightarrow> nat \<times> column_schema \<Rightarrow> nat list \<times> column_schema list \<Rightarrow> nat list \<times> column_schema list" where
  "push_projected s projection = (\<lambda>(idx, col) (pk, cols).
     if idx \<in> set (primary_key_indexes s) then (pk @ [length cols], cols @ [col])
     else if idx \<in> set projection then (pk, cols @ [col])
     else (pk, cols))"

definition project_record_schema_with_key :: "schema \<Rightarrow> nat list \<Rightarrow> record_schema_with_key" where
  "project_record_schema_with_key s projection =
     (let (pk, cols) = fold (push_projected s projection) (enumerate 0 (schema_columns s)) ([], [])
      in \<lparr>rs_columns = column_schemas_new cols, rs_primary_key_indexes = pk\<rparr>)"

definition project_record_schema :: "schema \<Rightarrow> nat list \<Rightarrow> ('e, column_schemas) result" where
  "project_record_schema s projection =
     res_bind (res_fold (\<lambda>p cols. res_bind (schema_column s p) (\<lambda>c. Ok (cols @ [c]))) projection [])
       (\<lambda>cols. Ok (column_schemas_new cols))"

section \<open>Projected schemas\<close>

datatype projection_error =
  InvalidProjectionIndex nat
| IncompatReadColumn column_compat_error
| MissingReadColumn string
| EmptyTableSchema
| ConvertTableSchema schema_error

record projected_schema =
  ps_original_schema :: schema
  ps_projection :: "nat list option"
  ps_schema_with_key :: record_schema_with_key
  ps_record_schema :: column_schemas

definition no_projection :: "schema \<Rightarrow> projected_schema" where
  "no_projection s =
     \<lparr>ps_original_schema = s, ps_projection = None, ps_schema_with_key = to_record_schema_with_key s,
      ps_record_schema = column_schemas_of s\<rparr>"

definition projected_schema_new :: "schema \<Rightarrow> nat list option \<Rightarrow> (projection_error, projected_schema) result" where
  "projected_schema_new s projection =
     (case projection of
        None \<Rightarrow> Ok (no_projection s)
      | Some p \<Rightarrow>
          if p \<noteq> [] \<and> num_columns s \<le> Max (set p) then Err (InvalidProjectionIndex (Max (set p)))
          else res_bind (project_record_schema s p) (\<lambda>rs.
            Ok \<lparr>ps_original_schema = s, ps_projection = projection,
                ps_schema_with_key = project_record_schema_with_key s p, ps_record_schema = rs\<rparr>))"

definition is_all_projection :: "projected_schema \<Rightarrow> bool" where
  "is_all_projection ps \<longleftrightarrow> ps_projection ps = None"

definition try_project_column ::
    "projected_schema \<Rightarrow> schema \<Rightarrow> column_schema \<Rightarrow> nat option list \<Rightarrow> (projection_error, nat option list) result" where
  "try_project_column ps source column acc =
     (case index_of source (cs_name column) of
        Some source_idx \<Rightarrow>
          if schema_version (ps_original_schema ps) = schema_version source then Ok (acc @ [Some source_idx])
          else res_bind (schema_column source source_idx) (\<lambda>source_column.
               res_bind (res_ctx IncompatReadColumn (compatible_for_read column source_column)) (\<lambda>op.
                 case op of Exact \<Rightarrow> Ok (acc @ [Some source_idx]) | FillNull \<Rightarrow> Ok (acc @ [None])))
      | None \<Rightarrow> if cs_is_nullable column then Ok (acc @ [None]) else Err (MissingReadColumn (cs_name column)))"

record row_projector =
  rp_schema_with_key :: record_schema_with_key
  rp_source_schema :: schema
  rp_source_projection :: "nat option list"

definition try_project_with_key :: "projected_schema \<Rightarrow> schema \<Rightarrow> (projection_error, row_projector) result" where
  "try_project_with_key ps source =
     res_bind (res_fold (try_project_column ps source) (rs_cols (ps_schema_with_key ps)) []) (\<lambda>projection.
       Ok \<lparr>rp_schema_with_key = ps_schema_with_key ps, rp_source_schema = source, rp_source_projection = projection\<rparr>)"

definition existed_source_projection :: "row_projector \<Rightarrow> nat list" where
  "existed_source_projection p = List.map_filter id (rp_source_projection p)"

definition project_row :: "row_projector \<Rightarrow> row \<Rightarrow> ('e, row) result" where
  "project_row p row =
     (if num_columns (rp_source_schema p) = length row
      then res_fold (\<lambda>i acc. case i of
             Some index_in_source \<Rightarrow> res_bind (index_res row index_in_source) (\<lambda>d. Ok (acc @ [d]))
           | None \<Rightarrow> Ok (acc @ [D_Null])) (rp_source_projection p) []
      else Panic)"

text \<open>The protobuf form: the table schema and the projected indexes.\<close>

record projected_schema_pb =
  psp_table_schema :: "table_schema_pb option"
  psp_projection :: "nat list option"

definition projected_schema_to_pb :: "pb_api \<Rightarrow> projected_schema \<Rightarrow> ('e, projected_schema_pb) result" where
  "projected_schema_to_pb api ps =
     res_bind (schema_to_pb api (ps_original_schema ps)) (\<lambda>ts.
       Ok \<lparr>psp_table_schema = Some ts, psp_projection = ps_projection ps\<rparr>)"

definition projected_schema_from_pb :: "pb_api \<Rightarrow> projected_schema_pb \<Rightarrow> (projection_error, projected_schema) result" where
  "projected_schema_from_pb api pb =
     (case psp_table_schema pb of
        None \<Rightarrow> Err EmptyTableSchema
      | Some ts \<Rightarrow> res_bind (res_ctx ConvertTableSchema (schema_from_pb api ts)) (\<lambda>s.
          projected_schema_new s (psp_projection pb)))"

section \<open>Record batches\<close>

datatype batch_error =
  CreateArrow
| AppendDatum column_error
| ColumnNotInSchemaWithKey string
| ReverseRecordBatchData
| SelectRecordBatchData

type_synonym arrow_check = "column_schema list \<Rightarrow> column_block list \<Rightarrow> bool"

record record_batch_with_key =
  rb_schema :: record_schema_with_key
  rb_columns :: "column_block list"

definition record_batch_data_new ::
    "arrow_check \<Rightarrow> column_schema list \<Rightarrow> column_block list \<Rightarrow> (batch_error, column_block list) result" where
  "record_batch_data_new arrow_ok cols blocks = (if arrow_ok cols blocks then Ok blocks else Err CreateArrow)"

definition data_num_rows :: "column_block list \<Rightarrow> nat" where
  "data_num_rows blocks = (case blocks of [] \<Rightarrow> 0 | c # _ \<Rightarrow> length (cb_data c))"

definition batch_num_rows :: "record_batch_with_key \<Rightarrow> nat" where
  "batch_num_rows b = data_num_rows (rb_columns b)"

definition clone_row_at :: "record_batch_with_key \<Rightarrow> nat \<Rightarrow> row" where
  "clone_row_at b i = map (\<lambda>c. cb_data c ! i) (rb_columns b)"

definition take_column_block :: "column_block list \<Rightarrow> nat \<Rightarrow> (batch_error, column_block \<times> column_block list) result" where
  "take_column_block blocks i =
     res_bind (index_res blocks i) (\<lambda>c. Ok (c, blocks[i := column_new_null (data_num_rows blocks)]))"

definition project_block ::
    "record_schema_with_key \<Rightarrow> column_schema \<Rightarrow> column_block list \<times> column_block list \<Rightarrow>
     (batch_error, column_block list \<times> column_block list) result" where
  "project_block rs column = (\<lambda>(blocks, acc).
     case name_to_index (rs_columns rs) (cs_name column) of
       None \<Rightarrow> Err (ColumnNotInSchemaWithKey (cs_name column))
     | Some i \<Rightarrow> res_bind (take_column_block blocks i) (\<lambda>(c, blocks). Ok (blocks, acc @ [c])))"

text \<open>The result of \<open>try_project\<close>: the columns of the record schema.\<close>

definition try_project ::
    "arrow_check \<Rightarrow> record_batch_with_key \<Rightarrow> projected_schema \<Rightarrow> (batch_error, column_block list) result" where
  "try_project arrow_ok b ps =
     res_bind (res_fold (project_block (rb_schema b)) (columns (ps_record_schema ps)) (rb_columns b, []))
       (\<lambda>(blocks, acc). record_batch_data_new arrow_ok (columns (ps_record_schema ps)) acc)"

definition reverse_data :: "record_batch_with_key \<Rightarrow> (batch_error, record_batch_with_key) result" where
  "reverse_data b =
     (if batch_num_rows b < 2 ^ 32
      then Ok (b\<lparr>rb_columns := map (\<lambda>c. c\<lparr>cb_data := rev (cb_data c)\<rparr>) (rb_columns b)\<rparr>)
      else Err ReverseRecordBatchData)"

definition batch_slice :: "record_batch_with_key \<Rightarrow> nat \<Rightarrow> nat \<Rightarrow> (batch_error, record_batch_with_key) result" where
  "batch_slice b offset len =
     (if \<forall>c \<in> set (rb_columns b). offset + len \<le> length (cb_data c)
      then Ok (b\<lparr>rb_columns := map (\<lambda>c. c\<lparr>cb_data := take len (drop offset (cb_data c))\<rparr>) (rb_columns b)\<rparr>)
      else Panic)"

definition select_data :: "record_batch_with_key \<Rightarrow> bool list \<Rightarrow> (batch_error, record_batch_with_key) result" where
  "select_data b keep =
     (if batch_num_rows b = length keep
      then Ok (b\<lparr>rb_columns := map (\<lambda>c. c\<lparr>cb_data := map fst (filter snd (zip (cb_data c) keep))\<rparr>) (rb_columns b)\<rparr>)
      else Panic)"

section \<open>Batch builders\<close>

record batch_builder =
  bb_schema :: record_schema_with_key
  bb_builders :: "column_block list"

definition batch_builder_new :: "record_schema_with_key \<Rightarrow> batch_builder" where
  "batch_builder_new rs =
     \<lparr>bb_schema = rs, bb_builders = map (\<lambda>c. column_builder_new (cs_data_type c) (cs_is_dictionary c)) (rs_cols rs)\<rparr>"

fun append_values :: "column_block list \<Rightarrow> datum list \<Rightarrow> (batch_error, column_block list) result" where
  "append_values (b # bs) (d # ds) =
     res_bind (res_ctx AppendDatum (append_view b d)) (\<lambda>b'. res_bind (append_values bs ds) (\<lambda>bs'. Ok (b' # bs')))"
| "append_values bs ds = Ok bs"

definition append_row :: "batch_builder \<Rightarrow> row \<Rightarrow> (batch_error, batch_builder) result" where
  "append_row bb row = res_bind (append_values (bb_builders bb) row) (\<lambda>bs. Ok (bb\<lparr>bb_builders := bs\<rparr>))"

text \<open>Reading a column of a row in memory panics rather than fails.\<close>

definition view_of :: "('d, 'a) result \<Rightarrow> ('e, 'a) result" where
  "view_of r = (case r of Ok d \<Rightarrow> Ok d | _ \<Rightarrow> Panic)"

fun append_views :: "row_reader \<Rightarrow> nat option list \<Rightarrow> nat \<Rightarrow> column_block list \<Rightarrow> (batch_error, column_block list) result" where
  "append_views r projection index [] = Ok []"
| "append_views r projection index (b # bs) =
     res_bind (view_of (projected_datum_view_at r projection index)) (\<lambda>d.
     res_bind (res_ctx AppendDatum (append_view b d)) (\<lambda>b'.
     res_bind (append_views r projection (index + 1) bs) (\<lambda>bs'. Ok (b' # bs'))))"

definition append_projected_contiguous_row ::
    "batch_builder \<Rightarrow> row_reader \<Rightarrow> nat option list \<Rightarrow> (batch_error, batch_builder) result" where
  "append_projected_contiguous_row bb r projection =
     (if length projection = length (bb_builders bb)
      then res_bind (append_views r projection 0 (bb_builders bb)) (\<lambda>bs. Ok (bb\<lparr>bb_builders := bs\<rparr>))
      else Panic)"

fun append_block_ranges :: "column_block list \<Rightarrow> column_block list \<Rightarrow> nat \<Rightarrow> nat \<Rightarrow> (batch_error, column_block list) result" where
  "append_block_ranges (b # bs) (c # cs) start len =
     res_bind (res_ctx AppendDatum (append_block_range b c start len)) (\<lambda>b'.
     res_bind (append_block_ranges bs cs start len) (\<lambda>bs'. Ok (b' # bs')))"
| "append_block_ranges bs cs start len = Ok bs"

definition append_batch_range ::
    "batch_builder \<Rightarrow> record_batch_with_key \<Rightarrow> nat \<Rightarrow> nat \<Rightarrow> (batch_error, nat \<times> batch_builder) result" where
  "append_batch_range bb b start len =
     (if batch_num_rows b \<le> start then Ok (0, bb)
      else let added = min (batch_num_rows b - start) len
           in res_bind (append_block_ranges (bb_builders bb) (rb_columns b) start added) (\<lambda>bs.
                Ok (added, bb\<lparr>bb_builders := bs\<rparr>)))"

definition batch_builder_len :: "batch_builder \<Rightarrow> nat" where
  "batch_builder_len bb = data_num_rows (bb_builders bb)"

definition batch_builder_clear :: "batch_builder \<Rightarrow> batch_builder" where
  "batch_builder_clear bb = bb\<lparr>bb_builders := map (\<lambda>c. c\<lparr>cb_data := []\<rparr>) (bb_builders bb)\<rparr>"

definition batch_build :: "arrow_check \<Rightarrow> batch_builder \<Rightarrow> (batch_error, record_batch_with_key \<times> batch_builder) result" where
  "batch_build arrow_ok bb =
     res_bind (record_batch_data_new arrow_ok (rs_cols (bb_schema bb)) (bb_builders bb)) (\<lambda>blocks.
       Ok (\<lparr>rb_schema = bb_schema bb, rb_columns = blocks\<rparr>, batch_builder_clear bb))"

section \<open>Rows of columns\<close>

text \<open>The columns hold the rows: column \<open>j\<close> has the \<open>j\<close>-th values.\<close>

definition holds_rows :: "column_block list \<Rightarrow> row list \<Rightarrow> bool" where
  "holds_rows cols rows \<longleftrightarrow>
     (\<forall>j < length cols. cb_data (cols ! j) = map (\<lambda>r. r ! j) rows) \<and> (\<forall>r \<in> set rows. length r = length cols)"

definition row_kinds_ok :: "column_block list \<Rightarrow> row \<Rightarrow> bool" where
  "row_kinds_ok cols row \<longleftrightarrow> list_all2 (\<lambda>c d. d = D_Null \<or> kind d = cb_kind c) cols row"

definition same_types :: "column_block list \<Rightarrow> column_block list \<Rightarrow> bool" where
  "same_types cols cols' \<longleftrightarrow> list_all2 (\<lambda>c c'. cb_kind c = cb_kind c' \<and> cb_dict c = cb_dict c') cols cols'"

lemma same_types_length: "same_types cols cols' \<Longrightarrow> length cols' = length cols"
  by (simp add: same_types_def list_all2_lengthD)

lemma same_types_refl: "same_types cols cols"
  by (simp add: same_types_def list_all2_refl)

lemma holds_rows_num: "holds_rows cols rows \<Longrightarrow> cols \<noteq> [] \<Longrightarrow> data_num_rows cols = length rows"
  by (cases cols) (auto simp: holds_rows_def data_num_rows_def)

lemma holds_rows_row:
  "holds_rows cols rows \<Longrightarrow> i < length rows \<Longrightarrow> map (\<lambda>c. cb_data c ! i) cols = rows ! i"
  by (auto simp: holds_rows_def intro!: nth_equalityI)

text \<open>Appending to every column.\<close>

definition extend_rows :: "column_block list \<Rightarrow> row list \<Rightarrow> column_block list" where
  "extend_rows cols rows = map (\<lambda>(j, c). c\<lparr>cb_data := cb_data c @ map (\<lambda>r. r ! j) rows\<rparr>) (enumerate 0 cols)"

lemma extend_rows_simps:
  "length (extend_rows cols rows) = length cols"
  "j < length cols \<Longrightarrow> extend_rows cols rows ! j = (cols ! j)\<lparr>cb_data := cb_data (cols ! j) @ map (\<lambda>r. r ! j) rows\<rparr>"
  by (simp_all add: extend_rows_def nth_enumerate_eq)

lemma extend_rows_types: "same_types cols (extend_rows cols rows)"
  by (simp add: same_types_def list_all2_conv_all_nth extend_rows_simps)

lemma extend_rows_holds:
  "holds_rows cols rows \<Longrightarrow> \<forall>r \<in> set rows'. length r = length cols \<Longrightarrow> holds_rows (extend_rows cols rows') (rows @ rows')"
  by (auto simp: holds_rows_def extend_rows_simps)

lemma append_values_ok:
  assumes "row_kinds_ok cols row"
  shows "append_values cols row = Ok (extend_rows cols [row])"
proof -
  have "append_values cols ds = Ok (map2 (\<lambda>c d. c\<lparr>cb_data := cb_data c @ [d]\<rparr>) cols ds)"
    if "list_all2 (\<lambda>c d. d = D_Null \<or> kind d = cb_kind c) cols ds" for cols ds
    using that by (induction rule: list_all2_induct) (auto simp: append_view_def)
  moreover have "map2 (\<lambda>c d. c\<lparr>cb_data := cb_data c @ [d]\<rparr>) cols row = extend_rows cols [row]"
    using assms by (intro nth_equalityI) (auto simp: row_kinds_ok_def extend_rows_simps dest: list_all2_lengthD)
  ultimately show ?thesis using assms by (simp add: row_kinds_ok_def)
qed

lemma append_views_ok:
  assumes "row_kinds_ok cols row" and "\<And>i. i < length row \<Longrightarrow> projected_datum_view_at r projection i = Ok (row ! i)"
  shows "append_views r projection 0 cols = Ok (extend_rows cols [row])"
proof -
  have "append_views r projection (length pre) cols = append_values cols ds"
    if "list_all2 (\<lambda>c d. d = D_Null \<or> kind d = cb_kind c) cols ds" "row = pre @ ds" for cols ds pre
    using that
  proof (induction arbitrary: pre rule: list_all2_induct)
    case (Cons c cols d ds)
    have "projected_datum_view_at r projection (length pre) = Ok d" using assms(2) [of "length pre"] Cons(4) by simp
    then show ?case using Cons(3) [of "pre @ [d]"] Cons(4) by (simp add: view_of_def)
  qed simp
  from this [of cols row "[]"] show ?thesis
    using assms(1) append_values_ok [OF assms(1)] by (simp add: row_kinds_ok_def)
qed

lemma append_block_ranges_ok:
  assumes "same_types cols src" and "holds_rows src rows" and "start + len \<le> length rows"
    and "\<forall>j < length cols. cb_kind (cols ! j) = K_Null \<longrightarrow> (\<forall>r \<in> set rows. r ! j = D_Null)"
  shows "append_block_ranges cols src start len = Ok (extend_rows cols (take len (drop start rows)))"
proof -
  have column: "append_block_range (cols ! j) (src ! j) start len =
      Ok ((cols ! j)\<lparr>cb_data := cb_data (cols ! j) @ map (\<lambda>r. r ! j) (take len (drop start rows))\<rparr>)" if j: "j < length cols" for j
  proof -
    have k: "cb_kind (src ! j) = cb_kind (cols ! j)" "cb_dict (src ! j) = cb_dict (cols ! j)"
      using assms(1) j by (auto simp: same_types_def list_all2_conv_all_nth)
    have d: "cb_data (src ! j) = map (\<lambda>r. r ! j) rows"
      using assms(1,2) j by (auto simp: holds_rows_def dest: same_types_length)
    have "map (\<lambda>r. r ! j) (take len (drop start rows)) = replicate len D_Null" if "cb_kind (cols ! j) = K_Null"
    proof (intro nth_equalityI)
      fix i assume "i < length (map (\<lambda>r. r ! j) (take len (drop start rows)))"
      then have "take len (drop start rows) ! i \<in> set rows" "i < len" using assms(3)
        by (auto intro: in_set_takeD in_set_dropD nth_mem)
      then show "map (\<lambda>r. r ! j) (take len (drop start rows)) ! i = replicate len D_Null ! i"
        using assms(3,4) j that by simp
    qed (use assms(3) in simp)
    then show ?thesis
      using k d assms(3) by (simp add: append_block_range_def Let_def min_def take_map drop_map)
  qed
  have "append_block_ranges cs ds start len = Ok es"
    if "length cs = length ds" "length es = length cs"
      "\<forall>j < length cs. append_block_range (cs ! j) (ds ! j) start len = Ok (es ! j)" for cs ds es
    using that
  proof (induction cs ds arbitrary: es rule: list_induct2)
    case (Cons c cs d ds)
    then obtain e es' where "es = e # es'" by (cases es) auto
    with Cons(2) [of es'] Cons(3,4) show ?case by (auto simp: All_less_Suc2)
  qed simp
  from this [of cols src "extend_rows cols (take len (drop start rows))"] column same_types_length [OF assms(1)]
  show ?thesis by (simp add: extend_rows_simps)
qed

section \<open>Projections\<close>

definition source_of :: "projected_schema \<Rightarrow> schema \<Rightarrow> column_schema \<Rightarrow> (projection_error, nat option) result" where
  "source_of ps source column =
     (case index_of source (cs_name column) of
        Some i \<Rightarrow>
          if schema_version (ps_original_schema ps) = schema_version source then Ok (Some i)
          else res_bind (schema_column source i) (\<lambda>c.
               res_bind (res_ctx IncompatReadColumn (compatible_for_read column c)) (\<lambda>op.
                 Ok (if op = Exact then Some i else None)))
      | None \<Rightarrow> if cs_is_nullable column then Ok None else Err (MissingReadColumn (cs_name column)))"

lemma try_project_column_source:
  "try_project_column ps source = (\<lambda>column acc. res_bind (source_of ps source column) (\<lambda>i. Ok (acc @ [i])))"
proof (intro ext)
  fix column acc
  show "try_project_column ps source column acc = res_bind (source_of ps source column) (\<lambda>i. Ok (acc @ [i]))"
    by (cases "index_of source (cs_name column)")
      (auto simp: try_project_column_def source_of_def schema_column_def index_res_def compatible_for_read_def)
qed

lemma project_fold:
  "\<forall>i \<in> set ixs. \<forall>j. i = Some j \<longrightarrow> j < length row \<Longrightarrow>
   res_fold (\<lambda>i acc. case i of Some j \<Rightarrow> res_bind (index_res row j) (\<lambda>d. Ok (acc @ [d])) | None \<Rightarrow> Ok (acc @ [D_Null])) ixs acc =
     Ok (acc @ map (\<lambda>i. case i of Some j \<Rightarrow> row ! j | None \<Rightarrow> D_Null) ixs)"
  by (induction ixs arbitrary: acc) (auto simp: index_res_def split: option.splits)

lemma project_row_ok:
  assumes "\<forall>i \<in> set (rp_source_projection p). \<forall>j. i = Some j \<longrightarrow> j < length row"
    and "num_columns (rp_source_schema p) = length row"
  shows "project_row p row = Ok (map (\<lambda>i. case i of Some j \<Rightarrow> row ! j | None \<Rightarrow> D_Null) (rp_source_projection p))"
  using assms by (simp add: project_row_def project_fold)

lemma projection_row_valid:
  assumes "schema_wf source" and "try_project_with_key ps source = Ok rp" and "check_row_schema row source = Ok ()"
    and "\<forall>c \<in> set (rs_cols (ps_schema_with_key ps)). \<forall>d \<in> set (schema_columns source).
      cs_name d = cs_name c \<and> (schema_version (ps_original_schema ps) = schema_version source \<or> cs_id d = cs_id c) \<longrightarrow>
      cs_data_type d = cs_data_type c"
    and "\<forall>c \<in> set (rs_cols (ps_schema_with_key ps)). \<forall>d \<in> set (schema_columns source).
      cs_name d = cs_name c \<and> schema_version (ps_original_schema ps) = schema_version source \<and> cs_is_nullable d \<longrightarrow>
      cs_is_nullable c"
  shows "\<exists>row'. project_row rp row = Ok row' \<and>
    list_all2 (\<lambda>c d. check_datum_type d c = Ok () \<and>
      (d = D_Null \<or> (\<exists>i < num_columns source. cs_name (schema_columns source ! i) = cs_name c \<and> d = row ! i)))
      (rs_cols (rp_schema_with_key rp)) row'"
proof -
  obtain ixs where rp: "rp = \<lparr>rp_schema_with_key = ps_schema_with_key ps, rp_source_schema = source, rp_source_projection = ixs\<rparr>"
    and ixs: "list_all2 (\<lambda>c i. source_of ps source c = Ok i) (rs_cols (ps_schema_with_key ps)) ixs"
    using assms(2) by (auto simp: try_project_with_key_def try_project_column_source res_bind_eq_Ok res_fold_collect)
  have len: "length row = num_columns source"
    using assms(3) by (simp add: check_row_schema_Ok num_columns_def list_all2_lengthD)
  have valid: "check_datum_type (row ! i) (schema_columns source ! i) = Ok ()" if "i < num_columns source" for i
    using assms(3) that by (simp add: check_row_schema_Ok list_all2_conv_all_nth num_columns_def len)
  have source: "j < num_columns source \<and> cs_name (schema_columns source ! j) = cs_name c \<and> check_datum_type (row ! j) c = Ok ()"
    if c: "c \<in> set (rs_cols (ps_schema_with_key ps))" and j: "source_of ps source c = Ok (Some j)" for c j
  proof -
    have ix: "index_of source (cs_name c) = Some j"
      using j by (auto simp: source_of_def result_simps split: option.splits if_splits)
    then have i: "j < num_columns source" "cs_name (schema_columns source ! j) = cs_name c"
      by (simp_all add: index_of_Some_iff [OF assms(1)])
    then have mem: "schema_columns source ! j \<in> set (schema_columns source)" by (simp add: num_columns_def)
    have "schema_version (ps_original_schema ps) = schema_version source \<or>
        cs_id (schema_columns source ! j) = cs_id c \<and> (cs_is_nullable c \<or> \<not> cs_is_nullable (schema_columns source ! j))"
      using j ix i(1) by (auto simp: source_of_def schema_column_def index_res_def num_columns_def compatible_for_read_def
          result_simps split: if_splits)
    then have "cs_data_type (schema_columns source ! j) = cs_data_type c"
      "cs_is_nullable (schema_columns source ! j) \<Longrightarrow> cs_is_nullable c"
      using assms(4,5) c mem i(2) by blast+
    then show ?thesis using i valid [OF i(1)] by (auto simp: check_datum_type_Ok split: if_splits)
  qed
  have none: "cs_is_nullable c" if "source_of ps source c = Ok None" for c
    using that by (auto simp: source_of_def schema_column_def index_res_def compatible_for_read_def result_simps
        split: option.splits if_splits)
  have "\<forall>i \<in> set ixs. \<forall>j. i = Some j \<longrightarrow> j < length row"
    using ixs source len by (auto simp: list_all2_conv_all_nth in_set_conv_nth) (metis nth_mem)
  then have "project_row rp row = Ok (map (\<lambda>i. case i of Some j \<Rightarrow> row ! j | None \<Rightarrow> D_Null) ixs)"
    using project_row_ok [of rp row] rp len by simp
  moreover have "list_all2 (\<lambda>c d. check_datum_type d c = Ok () \<and>
      (d = D_Null \<or> (\<exists>i < num_columns source. cs_name (schema_columns source ! i) = cs_name c \<and> d = row ! i)))
      (rs_cols (ps_schema_with_key ps)) (map (\<lambda>i. case i of Some j \<Rightarrow> row ! j | None \<Rightarrow> D_Null) ixs)"
    unfolding list_all2_map2
  proof (rule list_all2_all_nthI)
    fix k assume k: "k < length (rs_cols (ps_schema_with_key ps))"
    let ?c = "rs_cols (ps_schema_with_key ps) ! k"
    have "source_of ps source ?c = Ok (ixs ! k)" using ixs k by (rule list_all2_nthD)
    moreover have "?c \<in> set (rs_cols (ps_schema_with_key ps))" using k by simp
    ultimately show "check_datum_type (case ixs ! k of Some j \<Rightarrow> row ! j | None \<Rightarrow> D_Null) ?c = Ok () \<and>
      ((case ixs ! k of Some j \<Rightarrow> row ! j | None \<Rightarrow> D_Null) = D_Null \<or>
       (\<exists>i < num_columns source. cs_name (schema_columns source ! i) = cs_name ?c \<and>
         (case ixs ! k of Some j \<Rightarrow> row ! j | None \<Rightarrow> D_Null) = row ! i))"
      using source [of ?c] none [of ?c] by (cases "ixs ! k") (auto simp: check_datum_type_Ok)
  qed (rule list_all2_lengthD [OF ixs])
  ultimately show ?thesis using rp by auto
qed

section \<open>Batches of projected rows\<close>

text \<open>What Arrow accepts as a record batch.\<close>

definition arrow_accepts :: "arrow_check \<Rightarrow> bool" where
  "arrow_accepts arrow_ok \<longleftrightarrow> (\<forall>cols blocks n. cols \<noteq> [] \<and>
     list_all2 (\<lambda>c b. cb_kind b = cs_data_type c \<and> cb_dict b = (cs_data_type c = K_String \<and> cs_is_dictionary c) \<and>
       length (cb_data b) = n \<and> (\<forall>d \<in> set (cb_data b). check_datum_type d c = Ok ())) cols blocks \<longrightarrow>
     arrow_ok cols blocks)"

definition batch_rows :: "record_batch_with_key \<Rightarrow> row list" where
  "batch_rows b = map (clone_row_at b) [0..<batch_num_rows b]"

definition row_for :: "record_schema_with_key \<Rightarrow> row \<Rightarrow> bool" where
  "row_for rs row \<longleftrightarrow> list_all2 (\<lambda>c d. check_datum_type d c = Ok ()) (rs_cols rs) row"

text \<open>A builder of the record schema that holds the rows.\<close>

definition builder_with :: "record_schema_with_key \<Rightarrow> row list \<Rightarrow> batch_builder" where
  "builder_with rs rows = (batch_builder_new rs)\<lparr>bb_builders := extend_rows (bb_builders (batch_builder_new rs)) rows\<rparr>"

lemma builder_with_fields:
  "bb_schema (builder_with rs rows) = rs"
  "length (bb_builders (builder_with rs rows)) = length (rs_cols rs)"
  "j < length (rs_cols rs) \<Longrightarrow> bb_builders (builder_with rs rows) ! j =
     \<lparr>cb_kind = cs_data_type (rs_cols rs ! j), cb_dict = (cs_data_type (rs_cols rs ! j) = K_String \<and> cs_is_dictionary (rs_cols rs ! j)),
      cb_data = map (\<lambda>r. r ! j) rows\<rparr>"
  by (simp_all add: builder_with_def batch_builder_new_def extend_rows_simps column_builder_new_def)

lemma builder_with_Nil: "builder_with rs [] = batch_builder_new rs"
  by (simp add: builder_with_def extend_rows_def batch_builder_new_def)
    (intro nth_equalityI, simp_all add: nth_enumerate_eq)

lemma builder_with_holds: "\<forall>r \<in> set rows. row_for rs r \<Longrightarrow> holds_rows (bb_builders (builder_with rs rows)) rows"
  by (simp add: holds_rows_def builder_with_fields row_for_def list_all2_conv_all_nth)

lemma batch_rows_holds:
  assumes "holds_rows (rb_columns b) rows" and "rb_columns b \<noteq> []"
  shows "batch_rows b = rows"
  using assms by (intro nth_equalityI) (simp_all add: batch_rows_def batch_num_rows_def holds_rows_num clone_row_at_def holds_rows_row)

lemma batch_build_ok:
  assumes "arrow_accepts arrow_ok" and "rs_cols rs \<noteq> []" and "\<forall>r \<in> set rows. row_for rs r"
  shows "\<exists>b bb. batch_build arrow_ok (builder_with rs rows) = Ok (b, bb) \<and> rb_schema b = rs \<and> batch_rows b = rows"
proof -
  have "check_datum_type (r ! j) (rs_cols rs ! j) = Ok ()" if "r \<in> set rows" "j < length (rs_cols rs)" for r j
    using assms(3) that by (auto simp: row_for_def list_all2_conv_all_nth)
  then have "arrow_ok (rs_cols rs) (bb_builders (builder_with rs rows))"
    using assms(2) assms(1) [unfolded arrow_accepts_def]
    by (elim allE [of _ "rs_cols rs"] allE [of _ "bb_builders (builder_with rs rows)"] allE [of _ "length rows"])
      (auto simp: list_all2_conv_all_nth builder_with_fields)
  moreover have "bb_builders (builder_with rs rows) \<noteq> []" using assms(2) builder_with_fields(2) [of rs rows] by auto
  ultimately show ?thesis
    using batch_rows_holds [OF _ _, of "\<lparr>rb_schema = rs, rb_columns = bb_builders (builder_with rs rows)\<rparr>" rows]
      builder_with_holds [OF assms(3)]
    by (simp add: batch_build_def record_batch_data_new_def builder_with_fields)
qed

lemma project_row_nth:
  assumes "project_row p row = (Ok row' :: ('e, _) result)"
  shows "list_all2 (\<lambda>i d. case i of Some j \<Rightarrow> j < length row \<and> d = row ! j | None \<Rightarrow> d = D_Null) (rp_source_projection p) row'"
proof -
  have step: "(\<lambda>i acc. case i of Some j \<Rightarrow> res_bind (index_res row j) (\<lambda>d. Ok (acc @ [d])) | None \<Rightarrow> Ok (acc @ [D_Null])) =
      (\<lambda>i acc. res_bind (case i of Some j \<Rightarrow> index_res row j | None \<Rightarrow> (Ok D_Null :: ('e, _) result)) (\<lambda>d. Ok (acc @ [d])))"
    by (intro ext) (simp split: option.split)
  have "list_all2 (\<lambda>i d. (case i of Some j \<Rightarrow> index_res row j | None \<Rightarrow> (Ok D_Null :: ('e, _) result)) = Ok d)
      (rp_source_projection p) row'"
    using assms by (simp add: project_row_def step res_fold_collect split: if_splits)
  then show ?thesis by (rule list_all2_mono) (auto simp: index_res_def split: option.splits if_splits)
qed

lemma append_projected_ok:
  assumes "project_row p row = (Ok row' :: ('e, _) result)" and "row_for rs row'"
    and "\<forall>i < length row. datum_view_at r i = Ok (row ! i)"
  shows "append_projected_contiguous_row (builder_with rs rows) r (rp_source_projection p) = Ok (builder_with rs (rows @ [row']))"
proof -
  note proj = project_row_nth [OF assms(1)]
  have len: "length row' = length (rp_source_projection p)" "length row' = length (rs_cols rs)"
    using proj assms(2) by (simp_all add: row_for_def list_all2_lengthD)
  have "row_kinds_ok (bb_builders (builder_with rs rows)) row'"
    using assms(2) by (auto simp: row_kinds_ok_def row_for_def list_all2_conv_all_nth builder_with_fields check_datum_type_Ok
        is_null_def split: if_splits)
  moreover have "projected_datum_view_at r (rp_source_projection p) i = Ok (row' ! i)" if i: "i < length row'" for i
    using list_all2_nthD2 [OF proj i] assms(3) i len(1)
    by (simp add: projected_datum_view_at_def index_res_def split: option.splits)
  ultimately have "append_views r (rp_source_projection p) 0 (bb_builders (builder_with rs rows)) =
      Ok (extend_rows (bb_builders (builder_with rs rows)) [row'])" by (rule append_views_ok)
  moreover have "extend_rows (bb_builders (builder_with rs rows)) [row'] = bb_builders (builder_with rs (rows @ [row']))"
    by (intro nth_equalityI) (simp_all add: extend_rows_simps builder_with_fields)
  ultimately show ?thesis using len builder_with_fields(2) [of rs rows]
    by (simp add: append_projected_contiguous_row_def) (simp add: builder_with_def)
qed

section \<open>Properties\<close>

text \<open>
  C10. Copying a range of rows from a batch into a builder of the same column types appends exactly
  those rows, clipped at the end of the batch, and reports how many they were; the batch built from
  them gives the rows back.\<close>

theorem append_batch_range_rows:
  assumes "same_types (bb_builders bb) (rb_columns b)" and "bb_builders bb \<noteq> []"
    and "holds_rows (bb_builders bb) old" and "holds_rows (rb_columns b) rows"
    and "\<forall>c \<in> set (bb_builders bb). cb_kind c \<noteq> K_Null"
  shows "\<exists>bb'. append_batch_range bb b start len = Ok (min (length rows - start) len, bb') \<and>
    same_types (bb_builders bb) (bb_builders bb') \<and>
    holds_rows (bb_builders bb') (old @ take len (drop start rows)) \<and>
    (\<forall>arrow_ok batch bb''. batch_build arrow_ok bb' = Ok (batch, bb'') \<longrightarrow>
       batch_num_rows batch = length (old @ take len (drop start rows)) \<and>
       map (clone_row_at batch) [0..<batch_num_rows batch] = old @ take len (drop start rows) \<and>
       batch_builder_len bb'' = 0)"
proof -
  let ?new = "take len (drop start rows)" and ?n = "min (length rows - start) len"
  have cols: "rb_columns b \<noteq> []" using assms(1,2) same_types_length by fastforce
  have num: "batch_num_rows b = length rows" using holds_rows_num [OF assms(4) cols] by (simp add: batch_num_rows_def)
  have new: "take ?n (drop start rows) = ?new" by (simp add: min_def)
  have lens: "\<forall>r \<in> set ?new. length r = length (bb_builders bb)"
    using assms(4) same_types_length [OF assms(1)] by (auto simp: holds_rows_def dest: in_set_takeD in_set_dropD)
  define bb' where "bb' = bb\<lparr>bb_builders := extend_rows (bb_builders bb) ?new\<rparr>"
  have "append_batch_range bb b start len = Ok (?n, bb')"
  proof (cases "length rows \<le> start")
    case True
    have "extend_rows (bb_builders bb) [] = bb_builders bb" by (intro nth_equalityI) (simp_all add: extend_rows_simps)
    then show ?thesis using True num by (simp add: append_batch_range_def bb'_def)
  next
    case False
    then show ?thesis
      using append_block_ranges_ok [OF assms(1,4), of start ?n] assms(5) num new
      by (simp add: append_batch_range_def bb'_def)
  qed
  moreover have types: "same_types (bb_builders bb) (bb_builders bb')" by (simp add: bb'_def extend_rows_types)
  moreover have rows: "holds_rows (bb_builders bb') (old @ ?new)" using extend_rows_holds [OF assms(3) lens] by (simp add: bb'_def)
  moreover have "batch_num_rows batch = length (old @ ?new) \<and>
      map (clone_row_at batch) [0..<batch_num_rows batch] = old @ ?new \<and> batch_builder_len bb'' = 0"
    if "batch_build arrow_ok bb' = Ok (batch, bb'')" for arrow_ok batch bb''
  proof -
    have c: "rb_columns batch = bb_builders bb'" "bb'' = batch_builder_clear bb'"
      using that by (auto simp: batch_build_def record_batch_data_new_def split: if_splits)
    have "bb_builders bb' \<noteq> []" using types assms(2) same_types_length by fastforce
    then have "batch_num_rows batch = length (old @ ?new)" using holds_rows_num [OF rows] c by (simp add: batch_num_rows_def)
    moreover from this have "map (clone_row_at batch) [0..<batch_num_rows batch] = old @ ?new"
      using holds_rows_row [OF rows] c by (intro nth_equalityI) (simp_all add: clone_row_at_def)
    moreover have "batch_builder_len bb'' = 0"
      using c(2) by (cases "bb_builders bb'") (simp_all add: batch_builder_len_def batch_builder_clear_def data_num_rows_def)
    ultimately show ?thesis by blast
  qed
  ultimately show ?thesis by blast
qed

definition demo_int_column :: "u64 list \<Rightarrow> column_block" where
  "demo_int_column vs = \<lparr>cb_kind = K_Int64, cb_dict = False, cb_data = map D_Int64 vs\<rparr>"

definition demo_record_schema :: record_schema_with_key where
  "demo_record_schema = \<lparr>rs_columns = column_schemas_new [demo_column 1 ''a'' K_Int64 False], rs_primary_key_indexes = [0]\<rparr>"

theorem append_batch_range_rows_witness:
  "\<exists>bb'. append_batch_range \<lparr>bb_schema = demo_record_schema, bb_builders = [demo_int_column [1]]\<rparr>
       \<lparr>rb_schema = demo_record_schema, rb_columns = [demo_int_column [5, 6, 7]]\<rparr> 1 9 = Ok (2, bb') \<and>
     holds_rows (bb_builders bb') [[D_Int64 1], [D_Int64 6], [D_Int64 7]]"
  using append_batch_range_rows [of "\<lparr>bb_schema = demo_record_schema, bb_builders = [demo_int_column [1]]\<rparr>"
      "\<lparr>rb_schema = demo_record_schema, rb_columns = [demo_int_column [5, 6, 7]]\<rparr>"
      "[[D_Int64 1]]" "[[D_Int64 5], [D_Int64 6], [D_Int64 7]]" 1 9]
  by (auto simp: same_types_def holds_rows_def demo_int_column_def)

text \<open>
  C11. Reading rows written under another version of the schema: when a projection onto the read
  schema exists, every row that is valid for the source schema projects to a row that is valid for
  the columns read, and each of its values is the value of the source column of the same name, or
  null.  The code compares neither types nor, for equal versions, columns: that a column kept its
  type, and that one version means one schema, are hypotheses.\<close>

theorem projection_sound:
  assumes "schema_wf source" and "try_project_with_key ps source = Ok rp" and "check_row_schema row source = Ok ()"
    and "\<forall>c \<in> set (rs_cols (ps_schema_with_key ps)). \<forall>d \<in> set (schema_columns source).
      cs_name d = cs_name c \<and> (schema_version (ps_original_schema ps) = schema_version source \<or> cs_id d = cs_id c) \<longrightarrow>
      cs_data_type d = cs_data_type c"
    and "\<forall>c \<in> set (rs_cols (ps_schema_with_key ps)). \<forall>d \<in> set (schema_columns source).
      cs_name d = cs_name c \<and> schema_version (ps_original_schema ps) = schema_version source \<and> cs_is_nullable d \<longrightarrow>
      cs_is_nullable c"
  shows "\<exists>row'. project_row rp row = Ok row' \<and>
    list_all2 (\<lambda>c d. check_datum_type d c = Ok () \<and>
      (d = D_Null \<or> (\<exists>i < num_columns source. cs_name (schema_columns source ! i) = cs_name c \<and> d = row ! i)))
      (rs_cols (rp_schema_with_key rp)) row'"
  using assms by (rule projection_row_valid)

definition demo_old_schema :: schema where
  "demo_old_schema = demo_writer\<lparr>schema_version := 0\<rparr>"

theorem projection_sound_witness:
  "\<exists>ps rp row'. projected_schema_new demo_schema (Some [2, 3]) = Ok ps \<and> try_project_with_key ps demo_old_schema = Ok rp \<and>
     project_row rp [D_String [97], D_Timestamp 7, D_Double 3] = (Ok row' :: (unit, _) result) \<and>
     row' = [D_String [97], D_Timestamp 7, D_Null, D_Double 3] \<and>
     check_datum_type (row' ! 2) (demo_columns ! 2) = Ok ()"
proof -
  let ?row = "[D_String [97], D_Timestamp 7, D_Double 3]"
  have "case projected_schema_new demo_schema (Some [2, 3]) of
      Ok ps \<Rightarrow> rs_cols (ps_schema_with_key ps) = demo_columns \<and> schema_version (ps_original_schema ps) = 1 \<and>
        (case try_project_with_key ps demo_old_schema of
           Ok rp \<Rightarrow> rs_cols (rp_schema_with_key rp) = demo_columns \<and>
             project_row rp ?row = (Ok [D_String [97], D_Timestamp 7, D_Null, D_Double 3] :: (unit, _) result)
         | _ \<Rightarrow> False)
    | _ \<Rightarrow> False" by code_simp
  then obtain ps where ps: "projected_schema_new demo_schema (Some [2, 3]) = Ok ps" "rs_cols (ps_schema_with_key ps) = demo_columns"
      "schema_version (ps_original_schema ps) = 1"
    and "case try_project_with_key ps demo_old_schema of
           Ok rp \<Rightarrow> rs_cols (rp_schema_with_key rp) = demo_columns \<and>
             project_row rp ?row = (Ok [D_String [97], D_Timestamp 7, D_Null, D_Double 3] :: (unit, _) result)
         | _ \<Rightarrow> False"
    by (cases "projected_schema_new demo_schema (Some [2, 3])") auto
  then obtain rp where rp: "try_project_with_key ps demo_old_schema = Ok rp" "rs_cols (rp_schema_with_key rp) = demo_columns"
      "project_row rp ?row = (Ok [D_String [97], D_Timestamp 7, D_Null, D_Double 3] :: (unit, _) result)"
    by (cases "try_project_with_key ps demo_old_schema") auto
  have cols: "schema_columns demo_old_schema = [demo_columns ! 0, demo_columns ! 1, demo_columns ! 3]"
    by (simp add: demo_old_schema_def schema_columns_def) (simp add: demo_writer_def)
  have wf: "schema_wf demo_old_schema"
    using demo_schema_wf(2) unfolding schema_wf_def cols demo_columns_of by (simp add: demo_old_schema_def)
  have "check_row_schema ?row demo_old_schema = Ok ()"
    unfolding check_row_schema_Ok cols by (simp add: demo_defs check_datum_type_def)
  from projection_sound [OF wf rp(1) this, where 'a = unit] rp(2,3) ps(2,3)
  have "check_datum_type D_Null (demo_columns ! 2) = Ok ()"
    unfolding cols by (auto simp: demo_defs demo_old_schema_def list_all2_conv_all_nth All_less_Suc2)
  then show ?thesis using ps(1) rp(1,3) by auto
qed

text \<open>
  C20. A projected schema survives its protobuf form, in which a remote node receives it: writing it
  does not panic, and reading it back gives the same table schema, projection and projected columns.
\<close>

theorem projected_schema_pb_round_trip:
  assumes "pb_api_ok api" and "schema_wf s" and "projected_schema_new s projection = Ok ps"
  shows "\<exists>pb. projected_schema_to_pb api ps = (Ok pb :: (unit, _) result) \<and> projected_schema_from_pb api pb = Ok ps"
proof -
  have "ps_original_schema ps = s" "ps_projection ps = projection"
    using assms(3) by (auto simp: projected_schema_new_def no_projection_def res_bind_eq_Ok split: option.splits if_splits)
  moreover obtain pb where "schema_to_pb api s = (Ok pb :: (unit, _) result)" "schema_from_pb api pb = Ok s"
    using schema_pb_inverse [OF assms(1,2), where 'e = unit] by blast
  ultimately show ?thesis using assms(3) by (simp add: projected_schema_from_pb_def projected_schema_to_pb_def)
qed

theorem projected_schema_pb_round_trip_witness:
  "\<exists>ps pb. projected_schema_new demo_schema (Some [3, 0]) = Ok ps \<and>
     projected_schema_to_pb demo_api ps = (Ok pb :: (unit, _) result) \<and> projected_schema_from_pb demo_api pb = Ok ps"
proof -
  have "case projected_schema_new demo_schema (Some [3, 0]) of Ok ps \<Rightarrow> True | _ \<Rightarrow> False" by code_simp
  then obtain ps where "projected_schema_new demo_schema (Some [3, 0]) = Ok ps"
    by (cases "projected_schema_new demo_schema (Some [3, 0])") auto
  with projected_schema_pb_round_trip [OF demo_api_ok demo_schema_wf(1) this] show ?thesis by blast
qed

end
