(* ===== verification/Memtable.thy ===== *)
theory Memtable
  imports Skiplist Record_Batch Row_Codec
begin

text \<open>
  The memtable: internal keys (\<^verbatim>\<open>analytic_engine/src/memtable/key.rs\<close>), the memtable over the skip
  list (\<^verbatim>\<open>memtable/skiplist/mod.rs\<close>) and its iterators (\<^verbatim>\<open>memtable/skiplist/iter.rs\<close>).

  A call that may reach the skip list has the type \<open>'a run\<close>: \<open>None\<close> is a call of the list that does
  not return, otherwise a value, an error or a panic.  Deadlines are an argument of the call that
  checks them.
\<close>

section \<open>Internal keys\<close>

datatype key_error =
  EncodeKeyDatum mem_error
| EncodeSequence bytes_error
| EncodeIndex bytes_error
| DecodeSequence bytes_error
| DecodeIndex bytes_error
| InternalKeyLen nat

abbreviation (input) KEY_SEQUENCE_BYTES_LEN :: nat where "KEY_SEQUENCE_BYTES_LEN \<equiv> 12"

record key_sequence =
  ks_sequence :: u64
  ks_index :: u32

definition encode_sequence_number :: "buf_mut \<Rightarrow> u64 \<Rightarrow> (key_error, buf_mut) result" where
  "encode_sequence_number b sequence = res_ctx EncodeSequence (try_put_u64 b (- 1 - sequence))"

definition sequence_encode :: "buf_mut \<Rightarrow> key_sequence \<Rightarrow> (key_error, buf_mut) result" where
  "sequence_encode b ks =
     res_bind (encode_sequence_number b (ks_sequence ks)) (\<lambda>b.
       res_ctx EncodeIndex (try_put_u32 b (- 1 - ks_index ks)))"

definition sequence_decode :: "u8 list \<Rightarrow> (key_error, key_sequence \<times> u8 list) result" where
  "sequence_decode buf =
     res_bind (res_ctx DecodeSequence (try_get_u64 buf)) (\<lambda>(sequence, buf).
     res_bind (res_ctx DecodeIndex (try_get_u32 buf)) (\<lambda>(row_index, buf).
       Ok (\<lparr>ks_sequence = - 1 - sequence, ks_index = - 1 - row_index\<rparr>, buf)))"

definition encode_key_column :: "row \<Rightarrow> nat \<Rightarrow> buf_mut \<Rightarrow> (key_error, buf_mut) result" where
  "encode_key_column row idx b =
     res_bind (index_res row idx) (\<lambda>d. res_ctx EncodeKeyDatum (mem_encode b d))"

definition internal_key_encode :: "schema \<Rightarrow> key_sequence \<Rightarrow> buf_mut \<Rightarrow> row \<Rightarrow> (key_error, buf_mut) result" where
  "internal_key_encode s ks b row =
     res_bind (res_fold (encode_key_column row) (primary_key_indexes s) b) (\<lambda>b. sequence_encode b ks)"

definition internal_key_estimate :: "schema \<Rightarrow> row \<Rightarrow> (key_error, nat) result" where
  "internal_key_estimate s row =
     res_bind (res_fold (\<lambda>idx n. res_bind (index_res row idx) (\<lambda>d. Ok (n + mem_estimate d))) (primary_key_indexes s) 0)
       (\<lambda>n. Ok (n + KEY_SEQUENCE_BYTES_LEN))"

text \<open>A buffer of type \<open>BytesMut\<close> may grow up to the range of \<open>usize\<close>.\<close>

definition internal_key_for_seek :: "bytes \<Rightarrow> u64 \<Rightarrow> (key_error, bytes) result" where
  "internal_key_for_seek user_key sequence =
     res_bind (encode_sequence_number \<lparr>bm_data = user_key, bm_remaining = u64_max - length user_key\<rparr> sequence)
       (\<lambda>b. Ok (bm_data b))"

definition user_key_from_internal_key :: "bytes \<Rightarrow> (key_error, bytes \<times> key_sequence) result" where
  "user_key_from_internal_key internal_key =
     (if KEY_SEQUENCE_BYTES_LEN < length internal_key
      then let n = length internal_key - KEY_SEQUENCE_BYTES_LEN
           in res_bind (sequence_decode (drop n internal_key)) (\<lambda>(ks, _). Ok (take n internal_key, ks))
      else Err (InternalKeyLen (length internal_key)))"

section \<open>The memtable\<close>

datatype memtable_error =
  EncodeInternalKey key_error
| DecodeInternalKey key_error
| AppendRow batch_error
| BuildRecordBatch batch_error
| DecodeContinuousRow contiguous_error
| ProjectSchema projection_error
| InvalidPutSequence u64 u64
| InvalidRow contiguous_error
| IterReverse batch_error
| IterTimeout

type_synonym 'a run = "(memtable_error, 'a) result option"

definition run_bind :: "'a run \<Rightarrow> ('a \<Rightarrow> 'b run) \<Rightarrow> 'b run" where
  "run_bind m f =
     (case m of None \<Rightarrow> None | Some (Ok x) \<Rightarrow> f x | Some (Err e) \<Rightarrow> Some (Err e) | Some Panic \<Rightarrow> Some Panic)"

lemma run_bind_simps [simp]:
  "run_bind None f = None" "run_bind (Some (Ok x)) f = f x" "run_bind (Some (Err e)) f = Some (Err e)"
  "run_bind (Some Panic) f = Some Panic"
  by (simp_all add: run_bind_def)

record memtable =
  mt_schema :: schema
  mt_skiplist :: skiplist
  mt_last_sequence :: u64
  mt_row_raw_size :: u64
  mt_row_encoded_size :: u64
  mt_row_count :: u64

definition memtable_new :: "schema \<Rightarrow> u64 \<Rightarrow> memtable option" where
  "memtable_new s last_sequence = Option.bind skiplist_new (\<lambda>l.
     Some \<lparr>mt_schema = s, mt_skiplist = l, mt_last_sequence = last_sequence, mt_row_raw_size = 0,
           mt_row_encoded_size = 0, mt_row_count = 0\<rparr>)"

definition min_key :: "memtable \<Rightarrow> bytes option option" where
  "min_key m = Option.bind (seek_to_first (mt_skiplist m)) (\<lambda>c.
     if c = None then Some None else Option.bind (iter_key (mt_skiplist m) c) (\<lambda>k. Some (Some k)))"

definition max_key :: "memtable \<Rightarrow> bytes option option" where
  "max_key m = Option.bind (seek_to_last (mt_skiplist m)) (\<lambda>c.
     if c = None then Some None else Option.bind (iter_key (mt_skiplist m) c) (\<lambda>k. Some (Some k)))"

text \<open>
  \<open>put\<close>: the key and the value are encoded into the buffers of the context, then inserted; a key
  that is already there is kept without an error.  The counters wrap around.
\<close>

definition mt_put :: "memtable \<Rightarrow> index_in_writer \<Rightarrow> key_sequence \<Rightarrow> row \<Rightarrow> schema \<Rightarrow> bool list \<Rightarrow> memtable run" where
  "mt_put m index_in_writer ks row s coins =
     run_bind (Some (res_bind (res_ctx EncodeInternalKey (internal_key_estimate s row)) (\<lambda>_.
               res_bind (res_ctx EncodeInternalKey (internal_key_encode s ks vec_new row)) (\<lambda>key.
               res_bind (res_ctx InvalidRow (write_row s index_in_writer row)) (\<lambda>v. Ok (bm_data key, v))))))
       (\<lambda>(key, v). Option.bind (sl_put (mt_skiplist m) key v coins) (\<lambda>(_, l).
          Some (Ok (m\<lparr>mt_skiplist := l,
            mt_row_raw_size := mt_row_raw_size m + of_nat (row_size row),
            mt_row_count := mt_row_count m + 1,
            mt_row_encoded_size := mt_row_encoded_size m + of_nat (length key + length v)\<rparr>))))"

definition set_last_sequence :: "memtable \<Rightarrow> u64 \<Rightarrow> (memtable_error, memtable) result" where
  "set_last_sequence m sequence =
     (if mt_last_sequence m \<le> sequence then Ok (m\<lparr>mt_last_sequence := sequence\<rparr>)
      else Err (InvalidPutSequence sequence (mt_last_sequence m)))"

section \<open>Scanning\<close>

datatype bound = Included bytes | Excluded bytes | Unbounded

record scan_request =
  sr_start :: bound
  sr_end :: bound
  sr_sequence :: u64
  sr_projected :: projected_schema
  sr_need_dedup :: bool

datatype iter_state = Uninitialized | Initialized | Finished

record columnar_iter =
  ci_list :: skiplist
  ci_cursor :: node_ptr
  ci_schema :: schema
  ci_projected :: projected_schema
  ci_projector :: row_projector
  ci_batch_size :: nat
  ci_start :: bound
  ci_end :: bound
  ci_sequence :: u64
  ci_state :: iter_state
  ci_last_internal_key :: "bytes option"
  ci_need_dedup :: bool

definition iter_init :: "columnar_iter \<Rightarrow> columnar_iter run" where
  "iter_init it =
     (let seek_key = (\<lambda>user_key.
        run_bind (Some (res_ctx EncodeInternalKey (internal_key_for_seek user_key (ci_sequence it)))) (\<lambda>key.
          Option.bind (seek (ci_list it) key) (\<lambda>c. Some (Ok c))))
      in run_bind
           (case ci_start it of
              Included user_key \<Rightarrow> seek_key user_key
            | Excluded user_key \<Rightarrow> run_bind (Some (key_prefix_next user_key)) seek_key
            | Unbounded \<Rightarrow> Option.bind (seek_to_first (ci_list it)) (\<lambda>c. Some (Ok c)))
           (\<lambda>c. Some (Ok (it\<lparr>ci_cursor := c, ci_state := Initialized\<rparr>))))"

definition columnar_iter_new :: "memtable \<Rightarrow> nat \<Rightarrow> scan_request \<Rightarrow> columnar_iter run" where
  "columnar_iter_new m batch_size req =
     run_bind (Some (res_ctx ProjectSchema (try_project_with_key (sr_projected req) (mt_schema m)))) (\<lambda>projector.
       iter_init \<lparr>ci_list = mt_skiplist m, ci_cursor = None, ci_schema = mt_schema m, ci_projected = sr_projected req,
         ci_projector = projector, ci_batch_size = batch_size, ci_start = sr_start req, ci_end = sr_end req,
         ci_sequence = sr_sequence req, ci_state = Uninitialized, ci_last_internal_key = None,
         ci_need_dedup = sr_need_dedup req\<rparr>)"

definition is_after_end_bound :: "bound \<Rightarrow> bytes \<Rightarrow> bool" where
  "is_after_end_bound b key =
     (case b of Included e \<Rightarrow> compare_key key e = Greater | Excluded e \<Rightarrow> compare_key key e \<noteq> Less | Unbounded \<Rightarrow> False)"

definition is_visible :: "u64 \<Rightarrow> key_sequence \<Rightarrow> bool" where
  "is_visible sequence ks \<longleftrightarrow> ks_sequence ks \<le> sequence"

abbreviation iter_finish :: "columnar_iter \<Rightarrow> columnar_iter" where
  "iter_finish it \<equiv> it\<lparr>ci_state := Finished\<rparr>"

text \<open>Whether the user key is the one returned last.\<close>

definition same_as_last :: "columnar_iter \<Rightarrow> bytes \<Rightarrow> (memtable_error, bool) result" where
  "same_as_last it user_key =
     (if ci_need_dedup it
      then case ci_last_internal_key it of
             Some last_internal_key \<Rightarrow>
               res_bind (res_ctx DecodeInternalKey (user_key_from_internal_key last_internal_key)) (\<lambda>(last_user_key, _).
                 Ok (user_key = last_user_key))
           | None \<Rightarrow> Ok False
      else Ok False)"

partial_function (option) fetch_next_row :: "columnar_iter \<Rightarrow> (memtable_error, bytes option \<times> columnar_iter) result option" where
  "fetch_next_row it =
     (if ci_cursor it = None then Some (Ok (None, iter_finish it))
      else Option.bind (iter_key (ci_list it) (ci_cursor it)) (\<lambda>key.
        case res_ctx DecodeInternalKey (user_key_from_internal_key key) of
          Err e \<Rightarrow> Some (Err e)
        | Panic \<Rightarrow> Some Panic
        | Ok (user_key, ks) \<Rightarrow>
            if is_after_end_bound (ci_end it) user_key then Some (Ok (None, iter_finish it))
            else (case same_as_last it user_key of
                Err e \<Rightarrow> Some (Err e)
              | Panic \<Rightarrow> Some Panic
              | Ok same \<Rightarrow>
                  if same \<or> \<not> is_visible (ci_sequence it) ks
                  then Option.bind (iter_next (ci_list it) (ci_cursor it)) (\<lambda>c. fetch_next_row (it\<lparr>ci_cursor := c\<rparr>))
                  else Option.bind (iter_value (ci_list it) (ci_cursor it)) (\<lambda>row.
                       Option.bind (iter_next (ci_list it) (ci_cursor it)) (\<lambda>c.
                         Some (Ok (Some row, it\<lparr>ci_last_internal_key := Some key, ci_cursor := c\<rparr>)))))))"

fun fill_batch :: "nat \<Rightarrow> columnar_iter \<Rightarrow> batch_builder \<Rightarrow> nat \<Rightarrow> (columnar_iter \<times> batch_builder \<times> nat) run" where
  "fill_batch 0 it bb num_rows = Some (Ok (it, bb, num_rows))"
| "fill_batch (Suc n) it bb num_rows =
     (if ci_cursor it = None then Some (Ok (it, bb, num_rows))
      else run_bind (fetch_next_row it) (\<lambda>(r, it).
        case r of
          None \<Rightarrow> Some (Ok (iter_finish it, bb, num_rows))
        | Some row \<Rightarrow>
            run_bind (Some (res_ctx DecodeContinuousRow (reader_try_new row (ci_schema it)))) (\<lambda>reader.
            run_bind (Some (res_ctx AppendRow (append_projected_contiguous_row bb reader
                (rp_source_projection (ci_projector it))))) (\<lambda>bb.
              fill_batch n it bb (num_rows + 1)))))"

definition fetch_next_record_batch ::
    "arrow_check \<Rightarrow> bool \<Rightarrow> columnar_iter \<Rightarrow> (record_batch_with_key option \<times> columnar_iter) run" where
  "fetch_next_record_batch arrow_ok timeout it =
     (if ci_batch_size it = 0 then Some Panic
      else run_bind (fill_batch (ci_batch_size it) it (batch_builder_new (ps_schema_with_key (ci_projected it))) 0)
        (\<lambda>(it, bb, num_rows).
          if 0 < num_rows
          then if timeout then Some (Err IterTimeout)
               else run_bind (Some (res_ctx BuildRecordBatch (batch_build arrow_ok bb))) (\<lambda>(batch, _).
                      Some (Ok (Some batch, it)))
          else Some (Ok (None, iter_finish it))))"

text \<open>\<open>Iterator::next\<close>: a finished iterator has no next batch.\<close>

definition columnar_next ::
    "arrow_check \<Rightarrow> bool \<Rightarrow> columnar_iter \<Rightarrow> (record_batch_with_key option \<times> columnar_iter) run" where
  "columnar_next arrow_ok timeout it =
     (if ci_state it \<noteq> Initialized then Some (Ok (None, it)) else fetch_next_record_batch arrow_ok timeout it)"

text \<open>
  Draining an iterator, as its callers do; the bound on the number of
  batches is that of the entries of the list.
\<close>

fun drain :: "arrow_check \<Rightarrow> nat \<Rightarrow> columnar_iter \<Rightarrow> record_batch_with_key list run" where
  "drain arrow_ok 0 it = None"
| "drain arrow_ok (Suc n) it =
     run_bind (columnar_next arrow_ok False it) (\<lambda>(r, it).
       case r of
         None \<Rightarrow> Some (Ok [])
       | Some batch \<Rightarrow> run_bind (drain arrow_ok n it) (\<lambda>batches. Some (Ok (batch # batches))))"

text \<open>A forward scan; the reversed iterator, which reads all batches first, is not modelled.\<close>

definition mt_scan :: "arrow_check \<Rightarrow> memtable \<Rightarrow> nat \<Rightarrow> scan_request \<Rightarrow> record_batch_with_key list run" where
  "mt_scan arrow_ok m batch_size req =
     Option.bind (sl_len (mt_skiplist m)) (\<lambda>num_rows.
     run_bind (columnar_iter_new m batch_size req) (\<lambda>it.
       drain arrow_ok (num_rows + 1) it))"

section \<open>The order of internal keys\<close>

definition seq_repr :: "key_sequence \<Rightarrow> bytes" where
  "seq_repr ks = u64_to_be (- 1 - ks_sequence ks) @ u32_to_be (- 1 - ks_index ks)"

definition user_key :: "schema \<Rightarrow> row \<Rightarrow> bytes" where
  "user_key s row = concat (map (\<lambda>i. mem_repr (row ! i)) (primary_key_indexes s))"

definition internal_key :: "schema \<Rightarrow> key_sequence \<Rightarrow> row \<Rightarrow> bytes" where
  "internal_key s ks row = user_key s row @ seq_repr ks"

text \<open>Rows whose key columns have values of the column kinds.\<close>

definition key_row_ok :: "schema \<Rightarrow> row \<Rightarrow> bool" where
  "key_row_ok s row \<longleftrightarrow> primary_key_indexes s \<noteq> [] \<and>
     (\<forall>i \<in> set (primary_key_indexes s). i < length row \<and> is_key_kind (cs_data_type (schema_columns s ! i)) \<and>
        kind (row ! i) = cs_data_type (schema_columns s ! i))"

lemma checked_key_row_ok:
  assumes "schema_wf s" and "check_row_schema row s = Ok ()"
  shows "key_row_ok s row"
proof -
  have len: "length row = length (schema_columns s)" using assms(2) by (simp add: check_row_schema_Ok list_all2_lengthD)
  have pk: "primary_key_indexes s \<noteq> []" using assms(1) timestamp_ok_nonempty by (auto simp: schema_wf_def)
  have "i < length row \<and> is_key_kind (cs_data_type (schema_columns s ! i)) \<and> kind (row ! i) = cs_data_type (schema_columns s ! i)"
    if "i \<in> set (primary_key_indexes s)" for i
  proof -
    have i: "i < length (schema_columns s)" "is_key_kind (cs_data_type (schema_columns s ! i))" "\<not> cs_is_nullable (schema_columns s ! i)"
      using assms(1) that by (auto simp: schema_wf_def key_ok_def)
    then have "check_datum_type (row ! i) (schema_columns s ! i) = Ok ()"
      using assms(2) by (simp add: check_row_schema_Ok list_all2_conv_all_nth)
    then show ?thesis using i len by (simp add: check_datum_type_Ok split: if_splits)
  qed
  with pk show ?thesis by (simp add: key_row_ok_def)
qed

lemma length_seq_repr [simp]: "length (seq_repr ks) = 12"
  by (simp add: seq_repr_def)

lemma minus_one_less: "- 1 - x < - 1 - y \<longleftrightarrow> y < x" for x y :: "'a::len word"
proof -
  have le: "unat z \<le> unat (- 1 :: 'a word)" for z :: "'a word" using word_n1_ge [of z] by (simp add: word_le_nat_alt)
  have "unat (- 1 - z) = unat (- 1 :: 'a word) - unat z" for z :: "'a word" by (rule unat_sub) (rule word_n1_ge)
  then show ?thesis using le [of x] le [of y] by (simp add: word_less_nat_alt) linarith
qed

definition newer :: "key_sequence \<Rightarrow> key_sequence \<Rightarrow> bool" where
  "newer ks ks' \<longleftrightarrow> ks_sequence ks' < ks_sequence ks \<or>
     ks_sequence ks' = ks_sequence ks \<and> ks_index ks' < ks_index ks"

lemma seq_repr_less: "seq_repr ks < seq_repr ks' \<longleftrightarrow> newer ks ks'"
proof -
  have "u32_to_be x < u32_to_be y \<longleftrightarrow> x < y" for x y
    using u32_to_be_less [of x y] u32_to_be_less [of y x] by (cases x y rule: linorder_cases) auto
  then show ?thesis
    unfolding seq_repr_def newer_def by (simp add: mem_u64.repr_append_less_iff minus_one_less) auto
qed

lemma seq_repr_inject: "seq_repr ks = seq_repr ks' \<longleftrightarrow> ks = ks'"
proof
  assume "seq_repr ks = seq_repr ks'"
  then have "u64_from_be (take 8 (seq_repr ks)) = u64_from_be (take 8 (seq_repr ks'))"
    "u32_from_be (drop 8 (seq_repr ks)) = u32_from_be (drop 8 (seq_repr ks'))" by simp_all
  then show "ks = ks'" by (simp add: seq_repr_def)
qed simp

lemma sequence_encode_ok:
  "12 \<le> bm_remaining b \<Longrightarrow> sequence_encode b ks = Ok (bm_append b (seq_repr ks))"
  by (simp add: sequence_encode_def encode_sequence_number_def seq_repr_def)

lemma sequence_decode_ok: "sequence_decode (seq_repr ks @ rest) = Ok (ks, rest)"
  by (simp add: sequence_decode_def seq_repr_def)

lemma user_key_from_ok:
  assumes "u \<noteq> []"
  shows "user_key_from_internal_key (u @ seq_repr ks) = Ok (u, ks)"
  using assms sequence_decode_ok [of ks "[]"] by (simp add: user_key_from_internal_key_def Let_def)

lemma key_columns_encode:
  assumes "\<forall>i \<in> set is. i < length row \<and> key_valid (kind (row ! i)) (row ! i)"
    and "length (concat (map (\<lambda>i. mem_repr (row ! i)) is)) \<le> bm_remaining b"
  shows "res_fold (encode_key_column row) is b = Ok (bm_append b (concat (map (\<lambda>i. mem_repr (row ! i)) is)))"
  using assms
proof (induction "is" arbitrary: b)
  case (Cons i ixs)
  have "mem_encode b (row ! i) = Ok (bm_append b (mem_repr (row ! i)))"
    using Cons(2,3) by (intro mem.enc_ok [OF key_valid_mem_valid]) auto
  then have "encode_key_column row i b = Ok (bm_append b (mem_repr (row ! i)))"
    using Cons(2) by (simp add: encode_key_column_def index_res_def)
  then show ?case using Cons by simp
qed simp

lemma key_row_valid:
  assumes "key_row_ok s row" and "i \<in> set (primary_key_indexes s)"
  shows "i < length row" and "key_valid (cs_data_type (schema_columns s ! i)) (row ! i)" and "key_valid (kind (row ! i)) (row ! i)"
  using assms by (auto simp: key_row_ok_def key_valid_def)

lemma internal_key_encode_ok:
  assumes "key_row_ok s row" and "length (internal_key s ks row) \<le> bm_remaining b"
  shows "internal_key_encode s ks b row = Ok (bm_append b (internal_key s ks row))"
proof -
  have "res_fold (encode_key_column row) (primary_key_indexes s) b = Ok (bm_append b (user_key s row))"
    unfolding user_key_def
    using key_row_valid [OF assms(1)] assms(2) by (intro key_columns_encode) (auto simp: internal_key_def user_key_def)
  then show ?thesis using assms(2) by (simp add: internal_key_encode_def sequence_encode_ok internal_key_def)
qed

lemma internal_key_estimate_ok:
  assumes "key_row_ok s row"
  shows "\<exists>n. internal_key_estimate s row = Ok n"
proof -
  have "\<exists>n. res_fold (\<lambda>idx n. res_bind (index_res row idx) (\<lambda>d. Ok (n + mem_estimate d))) (primary_key_indexes s) 0 =
      (Ok n :: (key_error, nat) result)"
    using key_row_valid(1) [OF assms] by (intro res_fold_total) (auto simp: index_res_def)
  then show ?thesis by (auto simp: internal_key_estimate_def)
qed

text \<open>User keys compare as rows compare by their key columns, whatever follows them.\<close>

lemma key_order:
  assumes "\<forall>i \<in> set ixs. i < length r \<and> i < length r' \<and> is_key_kind (kind (r ! i)) \<and> kind (r' ! i) = kind (r ! i)"
  shows "\<exists>c. compare_row ixs r r' = (Ok c :: ('e, _) result) \<and>
    (c = Equal \<longleftrightarrow> concat (map (\<lambda>i. mem_repr (r ! i)) ixs) = concat (map (\<lambda>i. mem_repr (r' ! i)) ixs)) \<and>
    (\<forall>x y. concat (map (\<lambda>i. mem_repr (r ! i)) ixs) @ x < concat (map (\<lambda>i. mem_repr (r' ! i)) ixs) @ y \<longleftrightarrow>
       c = Less \<or> c = Equal \<and> x < y)"
  using assms
proof (induction ixs)
  case (Cons i ixs)
  let ?d = "r ! i" and ?e = "r' ! i"
  let ?u = "\<lambda>r. concat (map (\<lambda>i. mem_repr (r ! i)) ixs)"
  have k: "kind ?d = kind ?e" "is_key_kind (kind ?d)" using Cons(2) by auto
  note pc = partial_cmp_key_kind [OF k]
  have kv: "key_valid (kind ?d) ?d" "key_valid (kind ?d) ?e" using k by (auto simp: key_valid_def)
  note less = mem_repr_append_less_iff [OF kv]
  have inj: "mem_repr ?d @ x = mem_repr ?e @ y \<longleftrightarrow> ?d = ?e \<and> x = y" for x y
    using mem.append_inject [of "kind ?d" ?d ?e x y] key_valid_mem_valid [OF kv(1)] key_valid_mem_valid [OF kv(2)] k by auto
  obtain c where c: "compare_row ixs r r' = (Ok c :: ('e, _) result)" "c = Equal \<longleftrightarrow> ?u r = ?u r'"
    "\<forall>x y. ?u r @ x < ?u r' @ y \<longleftrightarrow> c = Less \<or> c = Equal \<and> x < y" using Cons by auto
  obtain o' where o': "partial_cmp ?d ?e = Some o'" using pc(1) by auto
  have step: "compare_row (i # ixs) r r' = (case o' of Equal \<Rightarrow> compare_row ixs r r' | v \<Rightarrow> Ok v)"
    using Cons(2) o' by (cases o') (simp_all add: index_res_def)
  show ?case
  proof (cases o')
    case Equal
    then have "?d = ?e" using pc(2) o' by simp
    then show ?thesis unfolding step using Equal c by (intro exI [of _ c]) (simp add: less datum_lt_def)
  next
    case Less
    then have lt: "datum_lt ?d ?e" using o' by (simp add: datum_lt_def)
    have ne: "?d \<noteq> ?e" using o' pc(2) Less by simp
    show ?thesis unfolding step using Less lt ne by (intro exI [of _ Less]) (simp add: less inj)
  next
    case Greater
    then have lt: "\<not> datum_lt ?d ?e" using o' by (simp add: datum_lt_def)
    have ne: "?d \<noteq> ?e" using o' pc(2) Greater by simp
    show ?thesis unfolding step using Greater lt ne by (intro exI [of _ Greater]) (simp add: less inj)
  qed
qed simp

lemma user_key_order:
  assumes "key_row_ok s r" and "key_row_ok s r'"
  obtains c where "compare_row (primary_key_indexes s) r r' = (Ok c :: ('e, _) result)"
    and "c = Equal \<longleftrightarrow> user_key s r = user_key s r'"
    and "\<forall>x y. user_key s r @ x < user_key s r' @ y \<longleftrightarrow> c = Less \<or> c = Equal \<and> x < y"
  using key_order [of "primary_key_indexes s" r r', where 'e = 'e] assms unfolding user_key_def key_row_ok_def by auto

text \<open>No user key is a proper prefix of another one, so the order of internal keys is that of user keys.\<close>

lemma internal_key_mono:
  assumes "key_row_ok s r" and "key_row_ok s r'"
  shows "internal_key s ks r < internal_key s ks' r' \<longleftrightarrow>
    user_key s r < user_key s r' \<or> user_key s r = user_key s r' \<and> newer ks ks'"
proof -
  obtain c where c: "c = Equal \<longleftrightarrow> user_key s r = user_key s r'"
    "\<forall>x y. user_key s r @ x < user_key s r' @ y \<longleftrightarrow> c = Less \<or> c = Equal \<and> x < y"
    using user_key_order [OF assms, where 'e = unit] by metis
  show ?thesis
    using c(1) c(2) [rule_format, of "seq_repr ks" "seq_repr ks'"] c(2) [rule_format, of "[]" "[]"]
    unfolding internal_key_def seq_repr_less by (cases c) simp_all
qed

lemma user_key_non_empty: "key_row_ok s r \<Longrightarrow> user_key s r \<noteq> []"
proof -
  assume "key_row_ok s r"
  then obtain i ixs where "primary_key_indexes s = i # ixs" "is_key_kind (kind (r ! i))"
    by (cases "primary_key_indexes s") (auto simp: key_row_ok_def)
  then show ?thesis by (cases "r ! i") (auto simp: user_key_def)
qed

section \<open>What a scan returns\<close>

text \<open>
  The entries of the list as user key, key sequence and value, and the entries that a scan returns:
  up to the end bound, the visible ones, with deduplication the first one of each user key.
\<close>

type_synonym entry = "bytes \<times> key_sequence \<times> bytes"

definition enc_entries :: "entry list \<Rightarrow> (bytes \<times> bytes) list" where
  "enc_entries es = map (\<lambda>(u, ks, v). (u @ seq_repr ks, v)) es"

lemma enc_entries_simps [simp]:
  "enc_entries [] = []" "enc_entries ((u, ks, v) # es) = (u @ seq_repr ks, v) # enc_entries es"
  by (simp_all add: enc_entries_def)

fun scan_next :: "bound \<Rightarrow> u64 \<Rightarrow> bool \<Rightarrow> bytes option \<Rightarrow> entry list \<Rightarrow> (entry \<times> entry list) option" where
  "scan_next e n dedup prev [] = None"
| "scan_next e n dedup prev ((u, ks, v) # es) =
     (if is_after_end_bound e u then None
      else if (dedup \<and> prev = Some u) \<or> \<not> is_visible n ks then scan_next e n dedup prev es
      else Some ((u, ks, v), es))"

fun scan_all :: "bound \<Rightarrow> u64 \<Rightarrow> bool \<Rightarrow> bytes option \<Rightarrow> entry list \<Rightarrow> entry list" where
  "scan_all e n dedup prev [] = []"
| "scan_all e n dedup prev ((u, ks, v) # es) =
     (if is_after_end_bound e u then []
      else if (dedup \<and> prev = Some u) \<or> \<not> is_visible n ks then scan_all e n dedup prev es
      else (u, ks, v) # scan_all e n dedup (Some u) es)"

lemma scan_all_next:
  "scan_all e n dedup prev es =
     (case scan_next e n dedup prev es of None \<Rightarrow> [] | Some ((u, ks, v), es') \<Rightarrow> (u, ks, v) # scan_all e n dedup (Some u) es')"
  by (induction es) auto

lemma scan_next_subset: "scan_next e n dedup prev es = Some (x, es') \<Longrightarrow> x \<in> set es \<and> set es' \<subseteq> set es"
  by (induction es) (auto split: if_splits)

text \<open>The key returned last, as the iterator keeps it.\<close>

definition last_is :: "bytes option \<Rightarrow> bytes option \<Rightarrow> bool" where
  "last_is internal prev \<longleftrightarrow>
     (case prev of None \<Rightarrow> internal = None | Some u \<Rightarrow> u \<noteq> [] \<and> (\<exists>ks. internal = Some (u @ seq_repr ks)))"

lemma same_as_last_ok: "last_is (ci_last_internal_key it) prev \<Longrightarrow> same_as_last it u = Ok (ci_need_dedup it \<and> prev = Some u)"
  by (auto simp: last_is_def same_as_last_def user_key_from_ok split: option.splits)

lemma fetch_next_row_ok:
  assumes "sl_at (ci_list it) (ci_cursor it) (enc_entries es)" and "\<forall>e \<in> set es. fst e \<noteq> []"
    and "last_is (ci_last_internal_key it) prev"
  shows "case scan_next (ci_end it) (ci_sequence it) (ci_need_dedup it) prev es of
      None \<Rightarrow> \<exists>c. fetch_next_row it = Some (Ok (None, iter_finish (it\<lparr>ci_cursor := c\<rparr>)))
    | Some ((u, ks, v), es') \<Rightarrow> \<exists>c. sl_at (ci_list it) c (enc_entries es') \<and>
        fetch_next_row it = Some (Ok (Some v, it\<lparr>ci_last_internal_key := Some (u @ seq_repr ks), ci_cursor := c\<rparr>))"
  using assms
proof (induction es arbitrary: it)
  case Nil
  then have "ci_cursor it = None" using sl.at_valid by fastforce
  then show ?case by (auto simp: fetch_next_row.simps intro!: exI [of _ None])
next
  case (Cons x es)
  obtain u ks v where x: "x = (u, ks, v)" by (metis prod_cases3)
  have at: "sl_at (ci_list it) (ci_cursor it) ((u @ seq_repr ks, v) # enc_entries es)" using Cons(2) x by simp
  obtain p where valid: "ci_cursor it = Some p" using sl.at_valid [OF at] by auto
  obtain c where c: "iter_next (ci_list it) (ci_cursor it) = Some c" "sl_at (ci_list it) c (enc_entries es)"
    using sl.at_move [OF at] by auto
  have u: "user_key_from_internal_key (u @ seq_repr ks) = Ok (u, ks)" using Cons(3) x by (intro user_key_from_ok) simp
  note unf = fetch_next_row.simps [of it] valid sl.at_key [OF at] sl.at_value [OF at] c(1) u same_as_last_ok [OF Cons(4)]
  consider "is_after_end_bound (ci_end it) u"
    | "\<not> is_after_end_bound (ci_end it) u" "(ci_need_dedup it \<and> prev = Some u) \<or> \<not> is_visible (ci_sequence it) ks"
    | "\<not> is_after_end_bound (ci_end it) u" "\<not> (ci_need_dedup it \<and> prev = Some u)" "is_visible (ci_sequence it) ks" by blast
  then show ?case
  proof cases
    case 1
    have "fetch_next_row it = Some (Ok (None, iter_finish (it\<lparr>ci_cursor := ci_cursor it\<rparr>)))" unfolding unf(1) using 1 unf(2-) by simp
    then show ?thesis using 1 x by (auto intro!: exI [of _ "ci_cursor it"])
  next
    case 2
    then have "fetch_next_row it = fetch_next_row (it\<lparr>ci_cursor := c\<rparr>)" unfolding unf(1) using unf(2-) by simp
    then show ?thesis using Cons(1) [of "it\<lparr>ci_cursor := c\<rparr>"] Cons(3,4) c(2) 2 x by (simp split: option.splits prod.splits)
  next
    case 3
    have "fetch_next_row it = Some (Ok (Some v, it\<lparr>ci_last_internal_key := Some (u @ seq_repr ks), ci_cursor := c\<rparr>))"
      unfolding unf(1) using 3 unf(2-) by simp blast
    then show ?thesis using 3 x c(2) by auto
  qed
qed

text \<open>
  A scan in progress: the entries that are left to return, their values decodable and projected by
  \<open>f\<close> to rows of the record schema.
\<close>

definition value_ok :: "columnar_iter \<Rightarrow> (bytes \<Rightarrow> row) \<Rightarrow> bytes \<Rightarrow> bool" where
  "value_ok it f v \<longleftrightarrow> (\<exists>r row. reader_try_new v (ci_schema it) = Ok r \<and>
     (\<forall>i < length row. datum_view_at r i = Ok (row ! i)) \<and> project_row (ci_projector it) row = (Ok (f v) :: (unit, _) result) \<and>
     row_for (ps_schema_with_key (ci_projected it)) (f v))"

definition iter_left :: "(bytes \<Rightarrow> row) \<Rightarrow> columnar_iter \<Rightarrow> entry list \<Rightarrow> bool" where
  "iter_left f it xs \<longleftrightarrow>
     ci_state it = Finished \<and> xs = [] \<or>
     ci_state it = Initialized \<and> (\<exists>prev es. xs = scan_all (ci_end it) (ci_sequence it) (ci_need_dedup it) prev es \<and>
       sl_at (ci_list it) (ci_cursor it) (enc_entries es) \<and> last_is (ci_last_internal_key it) prev \<and>
       (\<forall>e \<in> set es. fst e \<noteq> [] \<and> value_ok it f (snd (snd e))))"

definition same_scan :: "columnar_iter \<Rightarrow> columnar_iter \<Rightarrow> bool" where
  "same_scan it it' \<longleftrightarrow>
     it'\<lparr>ci_cursor := None, ci_last_internal_key := None, ci_state := Finished\<rparr> =
     it\<lparr>ci_cursor := None, ci_last_internal_key := None, ci_state := Finished\<rparr>"

lemma same_scan_simps [simp]:
  "same_scan it it" "same_scan it (it'\<lparr>ci_cursor := c\<rparr>) = same_scan it it'"
  "same_scan it (it'\<lparr>ci_last_internal_key := l\<rparr>) = same_scan it it'" "same_scan it (it'\<lparr>ci_state := st\<rparr>) = same_scan it it'"
  by (simp_all add: same_scan_def)

lemma same_scan_trans: "same_scan it it' \<Longrightarrow> same_scan it' it'' \<Longrightarrow> same_scan it it''"
  by (simp add: same_scan_def)

lemma same_scan_fields:
  assumes "same_scan it it'"
  shows "ci_projector it' = ci_projector it" and "ci_projected it' = ci_projected it" and "ci_batch_size it' = ci_batch_size it"
    and "ci_schema it' = ci_schema it"
  using assms by (cases it; cases it'; simp add: same_scan_def)+

lemma fetch_step:
  assumes "iter_left f it xs" and "ci_state it = Initialized"
  shows "xs = [] \<and> (\<exists>it'. fetch_next_row it = Some (Ok (None, it')) \<and> iter_left f (iter_finish it') [] \<and> same_scan it it') \<or>
    (\<exists>u ks v xs' it'. xs = (u, ks, v) # xs' \<and> fetch_next_row it = Some (Ok (Some v, it')) \<and> value_ok it f v \<and>
       iter_left f it' xs' \<and> ci_state it' = Initialized \<and> same_scan it it')"
proof -
  obtain prev es where es: "xs = scan_all (ci_end it) (ci_sequence it) (ci_need_dedup it) prev es"
    "sl_at (ci_list it) (ci_cursor it) (enc_entries es)" "last_is (ci_last_internal_key it) prev"
    "\<forall>e \<in> set es. fst e \<noteq> [] \<and> value_ok it f (snd (snd e))" using assms by (auto simp: iter_left_def)
  have ne: "\<forall>e \<in> set es. fst e \<noteq> []" using es(4) by blast
  note fetch = fetch_next_row_ok [OF es(2) ne es(3)]
  show ?thesis
  proof (cases "scan_next (ci_end it) (ci_sequence it) (ci_need_dedup it) prev es")
    case None
    then obtain c where "fetch_next_row it = Some (Ok (None, iter_finish (it\<lparr>ci_cursor := c\<rparr>)))" using fetch by auto
    then show ?thesis using None es(1) scan_all_next [of _ _ _ prev es]
      by (intro disjI1 conjI exI [of _ "iter_finish (it\<lparr>ci_cursor := c\<rparr>)"]) (auto simp: iter_left_def)
  next
    case (Some y)
    then obtain u ks v es' where y: "y = ((u, ks, v), es')" by (metis prod.collapse)
    let ?it = "\<lambda>c. it\<lparr>ci_last_internal_key := Some (u @ seq_repr ks), ci_cursor := c\<rparr>"
    obtain c where c: "sl_at (ci_list it) c (enc_entries es')" "fetch_next_row it = Some (Ok (Some v, ?it c))"
      using fetch Some y by auto
    have sub: "(u, ks, v) \<in> set es" "set es' \<subseteq> set es" using scan_next_subset Some y by auto
    have u: "u \<noteq> []" "value_ok it f v" using sub(1) es(4) by force+
    have "iter_left f (?it c) (scan_all (ci_end it) (ci_sequence it) (ci_need_dedup it) (Some u) es')"
      unfolding iter_left_def using c(1) assms(2) es(4) sub(2) u
      by (intro disjI2 conjI exI [of _ "Some u"] exI [of _ es']) (auto simp: last_is_def value_ok_def)
    then show ?thesis using c(2) es(1) scan_all_next [of _ _ _ prev es] Some y u(2) assms(2)
      by (intro disjI2 exI [of _ u] exI [of _ ks] exI [of _ v] exI [of _ "?it c"]) auto
  qed
qed

lemma iter_left_None: "iter_left f it xs \<Longrightarrow> ci_cursor it = None \<Longrightarrow> xs = []"
proof -
  assume a: "iter_left f it xs" "ci_cursor it = None"
  have "es = []" if "sl_at (ci_list it) None (enc_entries es)" for es
    using sl.at_valid [OF that] by (cases es) auto
  with a show "xs = []" unfolding iter_left_def by (metis scan_all.simps(1))
qed

lemma fill_batch_ok:
  assumes "iter_left f it xs" and "ci_state it = Initialized" and "rs = ps_schema_with_key (ci_projected it)"
  shows "\<exists>it'. fill_batch n it (builder_with rs rows) (length rows) =
      Some (Ok (it', builder_with rs (rows @ map (\<lambda>e. f (snd (snd e))) (take n xs)), length rows + min n (length xs))) \<and>
    iter_left f it' (drop n xs) \<and> same_scan it it'"
  using assms
proof (induction n arbitrary: it xs rows)
  case 0
  then show ?case by auto
next
  case (Suc n)
  show ?case
  proof (cases "ci_cursor it = None")
    case True
    then show ?thesis using Suc(2) iter_left_None [OF Suc(2) True] by auto
  next
    case False
    consider (stop) it' where "xs = []" "fetch_next_row it = Some (Ok (None, it'))" "iter_left f (iter_finish it') []" "same_scan it it'"
      | (row) u ks v xs' it' where "xs = (u, ks, v) # xs'" "fetch_next_row it = Some (Ok (Some v, it'))" "value_ok it f v"
          "iter_left f it' xs'" "ci_state it' = Initialized" "same_scan it it'"
      using fetch_step [OF Suc(2,3)] by blast
    then show ?thesis
    proof cases
      case stop
      then show ?thesis using False by auto
    next
      case row
      obtain r data where r: "reader_try_new v (ci_schema it) = Ok r" "\<forall>i < length data. datum_view_at r i = Ok (data ! i)"
        "project_row (ci_projector it) data = (Ok (f v) :: (unit, _) result)" "row_for rs (f v)"
        using row(3) Suc(4) by (auto simp: value_ok_def)
      note same = same_scan_fields [OF row(6)]
      have "fill_batch (Suc n) it (builder_with rs rows) (length rows) =
          fill_batch n it' (builder_with rs (rows @ [f v])) (length (rows @ [f v]))"
        using False row(2) r(1) append_projected_ok [OF r(3,4,2)] same by (cases "ci_cursor it") simp_all
      with Suc(1) [OF row(4,5), of "rows @ [f v]"] Suc(4) same row(1,6) show ?thesis
        by (auto intro: same_scan_trans)
    qed
  qed
qed

lemma columnar_next_ok:
  assumes "iter_left f it xs" and "arrow_accepts arrow_ok" and "0 < ci_batch_size it"
    and "rs = ps_schema_with_key (ci_projected it)" and "rs_cols rs \<noteq> []" and "\<forall>e \<in> set xs. row_for rs (f (snd (snd e)))"
  shows "if xs = [] then \<exists>it'. columnar_next arrow_ok False it = Some (Ok (None, it'))
    else \<exists>b it'. columnar_next arrow_ok False it = Some (Ok (Some b, it')) \<and> rb_schema b = rs \<and>
      batch_rows b = map (\<lambda>e. f (snd (snd e))) (take (ci_batch_size it) xs) \<and>
      iter_left f it' (drop (ci_batch_size it) xs) \<and> same_scan it it'"
proof (cases "ci_state it = Initialized")
  case False
  then show ?thesis using assms(1) by (auto simp: columnar_next_def iter_left_def)
next
  case True
  let ?rows = "map (\<lambda>e. f (snd (snd e))) (take (ci_batch_size it) xs)"
  obtain it' where it': "fill_batch (ci_batch_size it) it (batch_builder_new rs) 0 =
      Some (Ok (it', builder_with rs ?rows, min (ci_batch_size it) (length xs)))"
    "iter_left f it' (drop (ci_batch_size it) xs)" "same_scan it it'"
    using fill_batch_ok [OF assms(1) True assms(4), of "ci_batch_size it" "[]"] by (auto simp: builder_with_Nil)
  have "\<forall>r \<in> set ?rows. row_for rs r" using assms(6) by (auto dest: in_set_takeD)
  from batch_build_ok [OF assms(2,5) this] obtain b bb where
    b: "batch_build arrow_ok (builder_with rs ?rows) = Ok (b, bb)" "rb_schema b = rs" "batch_rows b = ?rows" by blast
  show ?thesis
    using True it' b assms(3,4) by (cases "xs = []") (auto simp: columnar_next_def fetch_next_record_batch_def)
qed

lemma drain_ok:
  assumes "iter_left f it xs" and "arrow_accepts arrow_ok" and "0 < ci_batch_size it"
    and "rs = ps_schema_with_key (ci_projected it)" and "rs_cols rs \<noteq> []" and "\<forall>e \<in> set xs. row_for rs (f (snd (snd e)))"
    and "length xs < fuel"
  shows "\<exists>bs. drain arrow_ok fuel it = Some (Ok bs) \<and> concat (map batch_rows bs) = map (\<lambda>e. f (snd (snd e))) xs \<and>
    (\<forall>b \<in> set bs. rb_schema b = rs \<and> batch_rows b \<noteq> [] \<and> length (batch_rows b) \<le> ci_batch_size it)"
  using assms
proof (induction fuel arbitrary: it xs)
  case (Suc fuel)
  note step = columnar_next_ok [OF Suc(2-7)]
  show ?case
  proof (cases "xs = []")
    case True
    then show ?thesis using step by auto
  next
    case False
    then obtain b it' where b: "columnar_next arrow_ok False it = Some (Ok (Some b, it'))" "rb_schema b = rs"
      "batch_rows b = map (\<lambda>e. f (snd (snd e))) (take (ci_batch_size it) xs)"
      "iter_left f it' (drop (ci_batch_size it) xs)" "same_scan it it'" using step by auto
    note same = same_scan_fields [OF b(5)]
    have fuel: "length (drop (ci_batch_size it) xs) < fuel" using Suc(4,8) False by (cases xs) auto
    have "\<exists>bs. drain arrow_ok fuel it' = Some (Ok bs) \<and>
        concat (map batch_rows bs) = map (\<lambda>e. f (snd (snd e))) (drop (ci_batch_size it) xs) \<and>
        (\<forall>b \<in> set bs. rb_schema b = rs \<and> batch_rows b \<noteq> [] \<and> length (batch_rows b) \<le> ci_batch_size it')"
      using Suc(4-7) b(4) same fuel by (intro Suc(1)) (auto simp: assms(2) dest: in_set_dropD)
    then obtain bs where bs: "drain arrow_ok fuel it' = Some (Ok bs)"
      "concat (map batch_rows bs) = map (\<lambda>e. f (snd (snd e))) (drop (ci_batch_size it) xs)"
      "\<forall>b \<in> set bs. rb_schema b = rs \<and> batch_rows b \<noteq> [] \<and> length (batch_rows b) \<le> ci_batch_size it" using same(3) by auto
    have "map (\<lambda>e. f (snd (snd e))) (take (ci_batch_size it) xs) @ map (\<lambda>e. f (snd (snd e))) (drop (ci_batch_size it) xs) =
        map (\<lambda>e. f (snd (snd e))) xs" unfolding map_append [symmetric] by simp
    then show ?thesis using b bs False Suc(4) by (intro exI [of _ "b # bs"]) simp
  qed
qed simp

text \<open>With deduplication, a scan of sorted entries returns the newest visible entry of each user key.\<close>

definition entry_less :: "entry \<Rightarrow> entry \<Rightarrow> bool" where
  "entry_less = (\<lambda>(u, ks, _) (u', ks', _). u < u' \<or> u = u' \<and> newer ks ks')"

definition newest_visible :: "u64 \<Rightarrow> entry list \<Rightarrow> entry \<Rightarrow> bool" where
  "newest_visible n es = (\<lambda>(u, ks, _). is_visible n ks \<and>
     (\<forall>(u', ks', _) \<in> set es. u' = u \<and> is_visible n ks' \<longrightarrow> \<not> newer ks' ks))"

lemma is_after_end_bound_mono: "is_after_end_bound e u \<Longrightarrow> u \<le> u' \<Longrightarrow> is_after_end_bound e u'"
  by (cases e) (auto simp: is_after_end_bound_def compare_key_def lin_cmp_def split: if_splits)

lemma newer_asym: "newer ks ks' \<Longrightarrow> \<not> newer ks' ks"
  by (auto simp: newer_def)

lemma scan_all_subset: "set (scan_all e n dedup prev es) \<subseteq> set es"
  by (induction e n dedup prev es rule: scan_all.induct) auto

lemma scan_all_mem:
  assumes "sorted_wrt entry_less es" and "\<forall>p. prev = Some p \<longrightarrow> (\<forall>z \<in> set es. p \<le> fst z)"
  shows "x \<in> set (scan_all e n True prev es) \<longleftrightarrow>
    x \<in> set es \<and> \<not> is_after_end_bound e (fst x) \<and> prev \<noteq> Some (fst x) \<and> newest_visible n es x"
  using assms
proof (induction es arbitrary: prev)
  case (Cons y es)
  obtain u ks v where y: "y = (u, ks, v)" by (metis prod_cases3)
  have le: "\<forall>z \<in> set es. u < fst z \<or> u = fst z \<and> newer ks (fst (snd z))" using Cons(2) y by (auto simp: entry_less_def)
  have sorted: "sorted_wrt entry_less es" using Cons(2) by simp
  have nv: "newest_visible n (y # es) z \<longleftrightarrow> newest_visible n es z \<and> (u = fst z \<and> is_visible n ks \<longrightarrow> \<not> newer ks (fst (snd z)))" for z
    using y by (auto simp: newest_visible_def)
  consider (after) "is_after_end_bound e u" | (skip) "\<not> is_after_end_bound e u" "prev = Some u \<or> \<not> is_visible n ks"
    | (keep) "\<not> is_after_end_bound e u" "prev \<noteq> Some u" "is_visible n ks" by blast
  then show ?case
  proof cases
    case after
    have "is_after_end_bound e (fst z)" if "z \<in> set (y # es)" for z
    proof -
      have "u \<le> fst z" using that le y by auto
      with after show ?thesis by (rule is_after_end_bound_mono)
    qed
    then show ?thesis using after y by simp blast
  next
    case skip
    have "x \<in> set (scan_all e n True prev (y # es)) \<longleftrightarrow>
        x \<in> set es \<and> \<not> is_after_end_bound e (fst x) \<and> prev \<noteq> Some (fst x) \<and> newest_visible n es x"
      using skip y Cons(1) [OF sorted, of prev] Cons(3) by simp
    moreover have "\<not> (x = y \<and> prev \<noteq> Some (fst x) \<and> newest_visible n (y # es) x)"
      using skip y by (auto simp: newest_visible_def)
    moreover have "u = fst x \<and> is_visible n ks \<Longrightarrow> prev = Some (fst x)" using skip by auto
    ultimately show ?thesis using nv [of x] by auto
  next
    case keep
    have "\<not> newer ks' ks" if "(u, ks', v') \<in> set es" for ks' v'
      using bspec [OF le that] newer_asym [of ks ks'] by auto
    moreover have "\<not> newer ks ks" by (simp add: newer_def)
    ultimately have new: "newest_visible n (y # es) y" unfolding newest_visible_def y using keep(3) by fastforce
    have le': "\<forall>z \<in> set es. u \<le> fst z" using le by auto
    have rest: "x \<in> set (scan_all e n True (Some u) es) \<longleftrightarrow>
        x \<in> set es \<and> \<not> is_after_end_bound e (fst x) \<and> u \<noteq> fst x \<and> newest_visible n es x"
      using Cons(1) [OF sorted, of "Some u"] le' by simp
    have "prev \<noteq> Some (fst x)" if "u < fst x"
    proof
      assume "prev = Some (fst x)"
      then have "fst x \<le> u" using Cons(3) y by auto
      with that show False by simp
    qed
    moreover have "u < fst x \<or> u = fst x \<and> newer ks (fst (snd x))" if "x \<in> set es" using le that by blast
    ultimately have "x \<in> set es \<Longrightarrow> prev \<noteq> Some (fst x) \<and> newest_visible n (y # es) x \<longleftrightarrow> u \<noteq> fst x \<and> newest_visible n es x"
      using nv [of x] keep(2,3) by auto
    then show ?thesis using keep y new rest by auto
  qed
qed simp

lemma scan_all_sorted:
  assumes "sorted_wrt entry_less es"
  shows "sorted_wrt (\<lambda>x y. fst x < fst y) (scan_all e n True prev es)"
  using assms
proof (induction es arbitrary: prev)
  case (Cons y es)
  obtain u ks v where y: "y = (u, ks, v)" by (metis prod_cases3)
  have le: "\<forall>z \<in> set es. u \<le> fst z" using Cons(2) y by (auto simp: entry_less_def)
  have "\<forall>z \<in> set (scan_all e n True (Some u) es). u < fst z"
  proof
    fix z assume "z \<in> set (scan_all e n True (Some u) es)"
    then have "z \<in> set es" "u \<noteq> fst z" using scan_all_mem [of es "Some u" z e n] Cons(2) le by auto
    then show "u < fst z" using le by (auto simp: order_less_le)
  qed
  then show ?case using Cons y by simp
qed simp

section \<open>The rows of a memtable\<close>

text \<open>
  Rows as they are put: every key column stands at its table index in the row of the writer, since
  the key is taken there.
\<close>

definition put_ok :: "schema \<Rightarrow> index_in_writer \<Rightarrow> row \<Rightarrow> bool" where
  "put_ok s idx row \<longleftrightarrow> row_writable s idx row \<and> nulls_in_place idx (table_row idx row) \<and>
     (\<forall>i \<in> set (primary_key_indexes s). i < length row \<and> row ! i = table_row idx row ! i) \<and>
     length (user_key s row) + 12 < 2 ^ 16"

text \<open>Memtables reached by puts, with the table rows put into them.\<close>

inductive mt_run :: "schema \<Rightarrow> memtable \<Rightarrow> (key_sequence \<times> row) list \<Rightarrow> bool" for s where
  new: "memtable_new s n = Some m \<Longrightarrow> mt_run s m []"
| put: "mt_run s m ps \<Longrightarrow> put_ok s idx row \<Longrightarrow> mt_put m idx ks row s coins = Some (Ok m') \<Longrightarrow>
    mt_run s m' (ps @ [(ks, table_row idx row)])"
| set_sequence: "mt_run s m ps \<Longrightarrow> set_last_sequence m n = Ok m' \<Longrightarrow> mt_run s m' ps"

text \<open>A value of the list that decodes to the row.\<close>

definition row_value :: "schema \<Rightarrow> row \<Rightarrow> bytes \<Rightarrow> bool" where
  "row_value s row v \<longleftrightarrow> check_row_schema row s = Ok () \<and> length row = num_columns s \<and> key_row_ok s row \<and>
     (\<exists>r. reader_try_new v s = Ok r \<and> (\<forall>i < num_columns s. datum_view_at r i = Ok (row ! i)))"

definition mt_rep :: "schema \<Rightarrow> memtable \<Rightarrow> (key_sequence \<times> row) list \<Rightarrow> bool" where
  "mt_rep s m ps \<longleftrightarrow> mt_schema m = s \<and> (\<exists>l es. sl_rep (mt_skiplist m) l \<and> ps = map (\<lambda>(ks, r, v). (ks, r)) es \<and>
     set l = (\<lambda>(ks, r, v). (internal_key s ks r, v)) ` set es \<and> (\<forall>(ks, r, v) \<in> set es. row_value s r v))"

lemma internal_key_inject: "internal_key s ks r = internal_key s ks' r' \<longleftrightarrow> user_key s r = user_key s r' \<and> ks = ks'"
  by (simp add: internal_key_def append_eq_append_conv seq_repr_inject)

lemma user_key_cong:
  "(\<And>i. i \<in> set (primary_key_indexes s) \<Longrightarrow> r ! i = r' ! i) \<Longrightarrow> user_key s r = user_key s r'"
  unfolding user_key_def by (rule arg_cong [of _ _ concat]) simp

lemma mt_put_ok:
  assumes "put_ok s idx row" and "mt_put m idx ks row s coins = Some (Ok m')"
  shows "\<exists>v b l. row_value s (table_row idx row) v \<and>
    sl_put (mt_skiplist m) (internal_key s ks (table_row idx row)) v coins = Some (b, l) \<and>
    mt_skiplist m' = l \<and> mt_schema m' = mt_schema m"
proof -
  note ok = assms(1) [unfolded put_ok_def]
  have w: "schema_wf s" "check_row_schema (table_row idx row) s = Ok ()" "length idx = num_columns s"
    using ok by (simp_all add: row_writable_def)
  have key: "key_row_ok s (table_row idx row)" using w by (intro checked_key_row_ok)
  have key': "key_row_ok s row" using key ok by (auto simp: key_row_ok_def)
  obtain v r where v: "write_row s idx row = Ok v" "reader_try_new v s = Ok r"
    "\<forall>i < num_columns s. datum_view_at r i = Ok (table_row idx row ! i)" using row_round_trip ok by blast
  have same: "user_key s row = user_key s (table_row idx row)" using ok by (intro user_key_cong) simp
  have k: "internal_key_encode s ks vec_new row = Ok (bm_append vec_new (internal_key s ks (table_row idx row)))"
    using internal_key_encode_ok [OF key', of ks vec_new] ok same by (simp add: internal_key_def vec_new_def)
  obtain n where n: "internal_key_estimate s row = Ok n" using internal_key_estimate_ok [OF key'] by blast
  have "row_value s (table_row idx row) v" using w key v by (auto simp: row_value_def)
  moreover obtain b l where "sl_put (mt_skiplist m) (internal_key s ks (table_row idx row)) v coins = Some (b, l)"
    "mt_skiplist m' = l" "mt_schema m' = mt_schema m"
    using assms(2) n k v(1) by (auto simp: mt_put_def vec_new_def split: bind_splits)
  ultimately show ?thesis by blast
qed

lemma mt_run_rep:
  assumes "mt_run s m ps" and "distinct (map fst ps)"
  shows "mt_rep s m ps"
  using assms
proof induction
  case (new n m)
  obtain l where l: "skiplist_new = Some l" "sl_rep l []" using skiplist_new_ok by blast
  have "mt_schema m = s" "mt_skiplist m = l" using new(1) unfolding memtable_new_def l(1) by auto
  then show ?case using l(2) by (auto simp: mt_rep_def)
next
  case (put m ps idx row ks coins m')
  let ?r = "table_row idx row"
  obtain l es where l: "sl_rep (mt_skiplist m) l" "ps = map (\<lambda>(ks, r, v). (ks, r)) es" "mt_schema m = s"
    "set l = (\<lambda>(ks, r, v). (internal_key s ks r, v)) ` set es" "\<forall>(ks, r, v) \<in> set es. row_value s r v"
    using put(4,5) by (auto simp: mt_rep_def)
  obtain v b l' where v: "row_value s ?r v" "sl_put (mt_skiplist m) (internal_key s ks ?r) v coins = Some (b, l')"
    "mt_skiplist m' = l'" "mt_schema m' = mt_schema m" using mt_put_ok [OF put(2,3)] by blast
  have ne: "(ks, r, v) \<notin> set es" for r v using put(5) l(2) by force
  have new: "internal_key s ks ?r \<notin> set (bt_keys l)" using l(4) ne by (auto simp: internal_key_inject)
  have "\<not> (2 ^ 16 \<le> length (internal_key s ks ?r) \<or> 2 ^ 32 \<le> length v)"
    using sl_put_too_long [OF l(1) new, of v coins] v(2) by auto
  then have "sl_rep l' (bt_insert (internal_key s ks ?r) v l)" using sl_put_absent [OF l(1) new, of v coins] v(2) by auto
  moreover have "set (bt_insert (internal_key s ks ?r) v l) = Set.insert (internal_key s ks ?r, v) (set l)"
    unfolding set_bt_insert [OF sl.rep_sorted [OF l(1)]] using new by force
  ultimately show ?case using l v unfolding mt_rep_def
    by (intro conjI exI [of _ "bt_insert (internal_key s ks ?r) v l"] exI [of _ "es @ [(ks, ?r, v)]"]) auto
next
  case (set_sequence m ps n m')
  then show ?case by (auto simp: set_last_sequence_def mt_rep_def split: if_splits)
qed

text \<open>The entries of a memtable in key order.\<close>

definition mt_entries :: "schema \<Rightarrow> (key_sequence \<times> row) list \<Rightarrow> entry list \<Rightarrow> bool" where
  "mt_entries s ps es \<longleftrightarrow> sorted_wrt entry_less es \<and>
     (\<forall>(u, ks, v) \<in> set es. \<exists>r. map_of ps ks = Some r \<and> u = user_key s r \<and> row_value s r v) \<and>
     (\<forall>(ks, r) \<in> set ps. \<exists>v. (user_key s r, ks, v) \<in> set es)"

lemma mt_rep_entries:
  assumes "mt_rep s m ps" and "distinct (map fst ps)"
  shows "\<exists>es. sl_rep (mt_skiplist m) (enc_entries es) \<and> mt_entries s ps es"
proof -
  obtain l xs where l: "sl_rep (mt_skiplist m) l" "ps = map (\<lambda>(ks, r, v). (ks, r)) xs"
    "set l = (\<lambda>(ks, r, v). (internal_key s ks r, v)) ` set xs" "\<forall>(ks, r, v) \<in> set xs. row_value s r v"
    using assms(1) by (auto simp: mt_rep_def)
  define dec where "dec = (\<lambda>(k, v). case user_key_from_internal_key k of Ok (u, ks) \<Rightarrow> (u, ks, v) | _ \<Rightarrow> ([], undefined, v :: bytes))"
  have dec: "dec (internal_key s ks r, v) = (user_key s r, ks, v)" if "key_row_ok s r" for ks r v
    using user_key_from_ok [OF user_key_non_empty [OF that], of ks] by (simp add: dec_def internal_key_def)
  have entry: "\<exists>ks r. (k, v) = (internal_key s ks r, v) \<and> dec (k, v) = (user_key s r, ks, v) \<and> key_row_ok s r \<and> row_value s r v \<and>
      map_of ps ks = Some r" if kv: "(k, v) \<in> set l" for k v
  proof -
    obtain ks r where x: "(ks, r, v) \<in> set xs" "k = internal_key s ks r" using kv unfolding l(3) by auto
    then have "(ks, r) \<in> set ps" using l(2) by force
    then have "map_of ps ks = Some r" using assms(2) by simp
    moreover have "row_value s r v" "key_row_ok s r" using l(4) x(1) by (auto simp: row_value_def)
    ultimately show ?thesis using x(2) dec by blast
  qed
  have enc: "enc_entries (map dec l) = l"
    unfolding enc_entries_def map_map comp_def
  proof (rule map_idI)
    fix x assume x: "x \<in> set l"
    obtain k v where kv: "x = (k, v)" by (cases x)
    obtain ks r where "k = internal_key s ks r" "dec (k, v) = (user_key s r, ks, v)" using entry [of k v] x kv by auto
    then show "(case dec x of (u, ks, v) \<Rightarrow> (u @ seq_repr ks, v)) = x" using kv by (simp add: internal_key_def)
  qed
  have "sorted_wrt (\<lambda>x y. fst x < fst y) l" using sl.rep_sorted [OF l(1)] by (simp add: bt_wf_def sorted_wrt_map)
  then have "sorted_wrt (\<lambda>x y. entry_less (dec x) (dec y)) l"
  proof (rule sorted_wrt_mono_rel [rotated])
    fix x y assume xy: "x \<in> set l" "y \<in> set l" "fst x < fst y"
    obtain k v k' v' where [simp]: "x = (k, v)" "y = (k', v')" by (cases x; cases y)
    obtain ks r ks' r' where "k = internal_key s ks r" "dec x = (user_key s r, ks, v)" "key_row_ok s r"
      "k' = internal_key s ks' r'" "dec y = (user_key s r', ks', v')" "key_row_ok s r'"
      using entry [of k v] entry [of k' v'] xy by auto
    then show "entry_less (dec x) (dec y)" using xy(3) internal_key_mono by (simp add: entry_less_def)
  qed
  moreover have "\<exists>r. map_of ps ks = Some r \<and> u = user_key s r \<and> row_value s r v" if e: "(u, ks, v) \<in> set (map dec l)" for u ks v
  proof -
    obtain k v' where "(k, v') \<in> set l" "dec (k, v') = (u, ks, v)" using e by auto
    then show ?thesis using entry [of k v'] by auto
  qed
  moreover have "\<exists>v. (user_key s r, ks, v) \<in> set (map dec l)" if p: "(ks, r) \<in> set ps" for ks r
  proof -
    obtain v where x: "(ks, r, v) \<in> set xs" using p l(2) by auto
    then have "(internal_key s ks r, v) \<in> set l" unfolding l(3) by force
    moreover have "dec (internal_key s ks r, v) = (user_key s r, ks, v)" using l(4) x by (intro dec) (auto simp: row_value_def)
    ultimately show ?thesis by (metis image_eqI set_map)
  qed
  ultimately have "mt_entries s ps (map dec l)" by (auto simp: mt_entries_def sorted_wrt_map simp del: set_map)
  with enc l(1) show ?thesis by (intro exI [of _ "map dec l"]) simp
qed

section \<open>Where a scan starts\<close>

definition from_start :: "scan_request \<Rightarrow> entry \<Rightarrow> bool" where
  "from_start req = (\<lambda>(u, ks, _). case sr_start req of
     Included b \<Rightarrow> b < u \<or> b = u \<and> is_visible (sr_sequence req) ks | Excluded b \<Rightarrow> b < u | Unbounded \<Rightarrow> True)"

text \<open>
  The start keys of the scans below: none, or the encoded key of a row, included. An excluded start
  (which \<open>iter_init\<close> handles as well) is not covered.
\<close>

definition start_ok :: "schema \<Rightarrow> scan_request \<Rightarrow> bool" where
  "start_ok s req \<longleftrightarrow> sr_start req = Unbounded \<or>
     (\<exists>r. sr_start req = Included (user_key s r) \<and> key_row_ok s r \<and> length (user_key s r) < 2 ^ 32)"

lemma internal_key_for_seek_ok: "length u < 2 ^ 32 \<Longrightarrow> internal_key_for_seek u n = Ok (u @ u64_to_be (- 1 - n))"
  by (simp add: internal_key_for_seek_def encode_sequence_number_def)

lemma seek_key_le:
  assumes "key_row_ok s r" and "key_row_ok s r0"
  shows "user_key s r0 @ u64_to_be (- 1 - n) \<le> user_key s r @ seq_repr ks \<longleftrightarrow>
    user_key s r0 < user_key s r \<or> user_key s r0 = user_key s r \<and> is_visible n ks"
proof -
  obtain c where c: "c = Equal \<longleftrightarrow> user_key s r = user_key s r0"
    "\<forall>x y. user_key s r @ x < user_key s r0 @ y \<longleftrightarrow> c = Less \<or> c = Equal \<and> x < y"
    using user_key_order [OF assms, where 'e = unit] by metis
  have "seq_repr ks < u64_to_be (- 1 - n) \<longleftrightarrow> \<not> is_visible n ks"
    using mem_u64.repr_append_less_iff [of "- 1 - ks_sequence ks" "u32_to_be (- 1 - ks_index ks)" "- 1 - n" "[]"]
    by (auto simp: seq_repr_def is_visible_def minus_one_less)
  then show ?thesis
    using c(1) c(2) [rule_format, of "seq_repr ks" "u64_to_be (- 1 - n)"] c(2) [rule_format, of "[]" "[]"]
    by (cases c) (auto simp: linorder_not_less [symmetric])
qed

lemma range_from_entries:
  "bt_range_from key (enc_entries es) = enc_entries (filter (\<lambda>(u, ks, v). key \<le> u @ seq_repr ks) es)"
  by (induction es) (auto simp: bt_range_from_def)

lemma columnar_iter_new_ok:
  assumes "mt_schema m = s" and "sl_rep (mt_skiplist m) (enc_entries es)" and "mt_entries s ps es" and "start_ok s req"
    and "try_project_with_key (sr_projected req) s = Ok rp"
  shows "\<exists>c. sl_at (mt_skiplist m) c (enc_entries (filter (from_start req) es)) \<and>
    columnar_iter_new m n req = Some (Ok \<lparr>ci_list = mt_skiplist m, ci_cursor = c, ci_schema = s, ci_projected = sr_projected req,
         ci_projector = rp, ci_batch_size = n, ci_start = sr_start req, ci_end = sr_end req,
         ci_sequence = sr_sequence req, ci_state = Initialized, ci_last_internal_key = None,
         ci_need_dedup = sr_need_dedup req\<rparr>)"
proof (cases "sr_start req = Unbounded")
  case True
  then have "filter (from_start req) es = es" by (intro filter_True) (auto simp: from_start_def)
  then show ?thesis using True assms(1,5) sl.first_at [OF assms(2)] by (auto simp: columnar_iter_new_def iter_init_def)
next
  case False
  then obtain r where r: "sr_start req = Included (user_key s r)" "key_row_ok s r" "length (user_key s r) < 2 ^ 32"
    using assms(4) by (auto simp: start_ok_def)
  let ?k = "user_key s r @ u64_to_be (- 1 - sr_sequence req)"
  have "filter (\<lambda>(u, ks, v). ?k \<le> u @ seq_repr ks) es = filter (from_start req) es"
  proof (rule filter_cong [OF refl])
    fix x assume x: "x \<in> set es"
    obtain u ks v where e: "x = (u, ks, v)" by (metis prod_cases3)
    obtain r' where "u = user_key s r'" "key_row_ok s r'" using assms(3) x e by (fastforce simp: mt_entries_def row_value_def)
    then show "(case x of (u, ks, v) \<Rightarrow> ?k \<le> u @ seq_repr ks) = from_start req x"
      using seek_key_le r e by (simp add: from_start_def)
  qed
  then obtain c where "seek (mt_skiplist m) ?k = Some c" "sl_at (mt_skiplist m) c (enc_entries (filter (from_start req) es))"
    using sl.seek_at [OF assms(2), of ?k] by (auto simp: range_from_entries)
  then show ?thesis using r assms(1,5) internal_key_for_seek_ok [OF r(3)] by (auto simp: columnar_iter_new_def iter_init_def)
qed

section \<open>What is returned\<close>

definition in_range :: "scan_request \<Rightarrow> bytes \<Rightarrow> bool" where
  "in_range req u \<longleftrightarrow> (case sr_start req of Included b \<Rightarrow> b \<le> u | Excluded b \<Rightarrow> b < u | Unbounded \<Rightarrow> True) \<and>
     \<not> is_after_end_bound (sr_end req) u"

lemma scan_from_start_mem:
  assumes "sorted_wrt entry_less es"
  shows "x \<in> set (scan_all (sr_end req) (sr_sequence req) True None (filter (from_start req) es)) \<longleftrightarrow>
    x \<in> set es \<and> in_range req (fst x) \<and> newest_visible (sr_sequence req) es x"
proof -
  obtain u ks v where x: "x = (u, ks, v)" by (metis prod_cases3)
  have start: "from_start req (u, ks', v') \<longleftrightarrow> (case sr_start req of Included b \<Rightarrow> b \<le> u | Excluded b \<Rightarrow> b < u | Unbounded \<Rightarrow> True)"
    if "is_visible (sr_sequence req) ks'" for ks' v'
    using that by (auto simp: from_start_def order.order_iff_strict split: bound.split)
  have "newest_visible (sr_sequence req) (filter (from_start req) es) x \<longleftrightarrow> newest_visible (sr_sequence req) es x"
    if "from_start req x" "is_visible (sr_sequence req) ks"
    using that start unfolding newest_visible_def x by auto
  then show ?thesis
    using scan_all_mem [of "filter (from_start req) es" None x "sr_end req" "sr_sequence req"] assms x start [of ks v]
    by (auto simp: sorted_wrt_filter in_range_def newest_visible_def)
qed

text \<open>The row that a value of the list stands for, projected.\<close>

definition projected_value :: "schema \<Rightarrow> row_projector \<Rightarrow> bytes \<Rightarrow> row" where
  "projected_value s rp v =
     (case reader_try_new v s of
        Ok r \<Rightarrow> (case project_row rp (map (\<lambda>i. case datum_view_at r i of Ok d \<Rightarrow> d | _ \<Rightarrow> D_Null) [0..<num_columns s]) of
                 (Ok row :: (unit, _) result) \<Rightarrow> row | _ \<Rightarrow> [])
      | _ \<Rightarrow> [])"

lemma projected_value_ok:
  assumes "row_value s row v" and "project_row rp row = (Ok row' :: (unit, _) result)"
  shows "projected_value s rp v = row'"
proof -
  obtain r where r: "reader_try_new v s = Ok r" "\<forall>i < num_columns s. datum_view_at r i = Ok (row ! i)" "length row = num_columns s"
    using assms(1) by (auto simp: row_value_def)
  have "map (\<lambda>i. case datum_view_at r i of Ok d \<Rightarrow> d | _ \<Rightarrow> D_Null) [0..<num_columns s] = row"
    using r(2,3) by (intro nth_equalityI) auto
  then show ?thesis using r(1) assms(2) by (simp add: projected_value_def)
qed

text \<open>
  Columns of the read schema and of the memtable that have the same name have the same type: what
  reading rows of an older schema relies on.
\<close>

definition columns_agree :: "projected_schema \<Rightarrow> schema \<Rightarrow> bool" where
  "columns_agree ps source \<longleftrightarrow> (\<forall>c \<in> set (rs_cols (ps_schema_with_key ps)). \<forall>d \<in> set (schema_columns source). cs_name d = cs_name c \<longrightarrow>
     (schema_version (ps_original_schema ps) = schema_version source \<or> cs_id d = cs_id c \<longrightarrow> cs_data_type d = cs_data_type c) \<and>
     (schema_version (ps_original_schema ps) = schema_version source \<and> cs_is_nullable d \<longrightarrow> cs_is_nullable c))"

lemma project_row_value:
  assumes "schema_wf s" and "try_project_with_key ps s = Ok rp" and "columns_agree ps s" and "row_value s row v"
  shows "\<exists>row'. project_row rp row = (Ok row' :: (unit, _) result) \<and> row_for (ps_schema_with_key ps) row'"
proof -
  have "\<exists>row'. project_row rp row = (Ok row' :: (unit, _) result) \<and>
    list_all2 (\<lambda>c d. check_datum_type d c = Ok () \<and>
      (d = D_Null \<or> (\<exists>i < num_columns s. cs_name (schema_columns s ! i) = cs_name c \<and> d = row ! i)))
      (rs_cols (rp_schema_with_key rp)) row'"
    using assms by (intro projection_row_valid [of s ps rp row]) (auto simp: row_value_def columns_agree_def)
  moreover have "rp_schema_with_key rp = ps_schema_with_key ps" using assms(2) by (auto simp: try_project_with_key_def res_bind_eq_Ok)
  ultimately show ?thesis unfolding row_for_def by (auto elim!: list_all2_mono)
qed

lemma length_scan_all: "length (scan_all e n dedup prev es) \<le> length es"
  by (induction e n dedup prev es rule: scan_all.induct) auto

lemma mt_scan_entries:
  assumes "mt_run s m ps" and "distinct (map fst ps)" and "schema_wf s" and "arrow_accepts arrow_ok" and "0 < n"
    and "start_ok s req" and "try_project_with_key (sr_projected req) s = Ok rp" and "columns_agree (sr_projected req) s"
    and "rs_cols (ps_schema_with_key (sr_projected req)) \<noteq> []"
  shows "\<exists>es batches. mt_entries s ps es \<and> mt_scan arrow_ok m n req = Some (Ok batches) \<and>
    concat (map batch_rows batches) = map (\<lambda>e. projected_value s rp (snd (snd e)))
      (scan_all (sr_end req) (sr_sequence req) (sr_need_dedup req) None (filter (from_start req) es)) \<and>
    (\<forall>b \<in> set batches. rb_schema b = ps_schema_with_key (sr_projected req) \<and> batch_rows b \<noteq> [] \<and> length (batch_rows b) \<le> n)"
proof -
  note rep = mt_run_rep [OF assms(1,2)]
  obtain es where es: "sl_rep (mt_skiplist m) (enc_entries es)" "mt_entries s ps es" using mt_rep_entries [OF rep assms(2)] by blast
  have sch: "mt_schema m = s" using rep by (simp add: mt_rep_def)
  let ?f = "projected_value s rp" and ?es = "filter (from_start req) es"
  let ?xs = "scan_all (sr_end req) (sr_sequence req) (sr_need_dedup req) None ?es"
  obtain c where at: "sl_at (mt_skiplist m) c (enc_entries ?es)"
    and new: "columnar_iter_new m n req = Some (Ok \<lparr>ci_list = mt_skiplist m, ci_cursor = c, ci_schema = s,
         ci_projected = sr_projected req, ci_projector = rp, ci_batch_size = n, ci_start = sr_start req, ci_end = sr_end req,
         ci_sequence = sr_sequence req, ci_state = Initialized, ci_last_internal_key = None,
         ci_need_dedup = sr_need_dedup req\<rparr>)" (is "_ = Some (Ok ?it)")
    using columnar_iter_new_ok [OF sch es assms(6,7)] by blast
  have ok: "fst e \<noteq> [] \<and> value_ok ?it ?f (snd (snd e)) \<and> row_for (ps_schema_with_key (sr_projected req)) (?f (snd (snd e)))"
    if e: "e \<in> set es" for e
  proof -
    obtain r where r: "fst e = user_key s r" "row_value s r (snd (snd e))" using es(2) e by (force simp: mt_entries_def)
    obtain r' where r': "project_row rp r = (Ok r' :: (unit, _) result)" "row_for (ps_schema_with_key (sr_projected req)) r'"
      using project_row_value [OF assms(3,7,8) r(2)] by blast
    have "?f (snd (snd e)) = r'" using projected_value_ok [OF r(2) r'(1)] .
    then show ?thesis using r r' user_key_non_empty by (auto simp: value_ok_def row_value_def intro!: exI [of _ r])
  qed
  have left: "iter_left ?f ?it ?xs"
    unfolding iter_left_def using at ok by (intro disjI2 conjI exI [of _ None] exI [of _ ?es]) (auto simp: last_is_def)
  have rows: "\<forall>e \<in> set ?xs. row_for (ps_schema_with_key (sr_projected req)) (?f (snd (snd e)))"
    using ok scan_all_subset [of "sr_end req" "sr_sequence req" "sr_need_dedup req" None ?es] by auto
  have "length ?xs \<le> length es" using length_scan_all [of "sr_end req" "sr_sequence req" "sr_need_dedup req" None ?es]
      length_filter_le [of "from_start req" es] by linarith
  then have fuel: "length ?xs < length es + 1" by simp
  obtain bs where bs: "drain arrow_ok (length es + 1) ?it = Some (Ok bs)" "concat (map batch_rows bs) = map (\<lambda>e. ?f (snd (snd e))) ?xs"
    "\<forall>b \<in> set bs. rb_schema b = ps_schema_with_key (sr_projected req) \<and> batch_rows b \<noteq> [] \<and> length (batch_rows b) \<le> n"
    using drain_ok [OF left assms(4), of "ps_schema_with_key (sr_projected req)" "length es + 1"] assms(5,9) rows fuel by auto
  have "sl_len (mt_skiplist m) = Some (length es)" using sl_len_ok [OF es(1)] by (simp add: enc_entries_def)
  then have "mt_scan arrow_ok m n req = Some (Ok bs)" using new bs(1) by (simp add: mt_scan_def)
  with es(2) bs(2,3) show ?thesis by blast
qed

text \<open>The row of an entry.\<close>

definition entry_row :: "(key_sequence \<times> row) list \<Rightarrow> entry \<Rightarrow> row" where
  "entry_row ps e = the (map_of ps (fst (snd e)))"

lemma entry_row_ok:
  assumes "mt_entries s ps es" and "e \<in> set es"
  shows "fst e = user_key s (entry_row ps e)" and "row_value s (entry_row ps e) (snd (snd e))"
    and "(fst (snd e), entry_row ps e) \<in> set ps"
proof -
  obtain u ks v where e: "e = (u, ks, v)" by (metis prod_cases3)
  obtain r where r: "map_of ps ks = Some r" "u = user_key s r" "row_value s r v"
    using assms e by (force simp: mt_entries_def)
  then show "fst e = user_key s (entry_row ps e)" "row_value s (entry_row ps e) (snd (snd e))"
    "(fst (snd e), entry_row ps e) \<in> set ps"
    using map_of_SomeD [OF r(1)] e by (simp_all add: entry_row_def)
qed

lemma user_key_less_compare:
  assumes "key_row_ok s r" and "key_row_ok s r'" and "user_key s r < user_key s r'"
  shows "compare_row (primary_key_indexes s) r r' = (Ok Less :: ('e, _) result)"
proof -
  obtain c where "compare_row (primary_key_indexes s) r r' = (Ok c :: ('e, _) result)"
    "\<forall>x y. user_key s r @ x < user_key s r' @ y \<longleftrightarrow> c = Less \<or> c = Equal \<and> x < y"
    using user_key_order [OF assms(1,2), where 'e = 'e] by metis
  then show ?thesis using assms(3) by (metis append_Nil2 less_irrefl)
qed

lemma newest_visible_row:
  assumes "mt_entries s ps es" and "distinct (map fst ps)" and "e \<in> set es"
  shows "newest_visible n es e \<longleftrightarrow> is_visible n (fst (snd e)) \<and>
    (\<forall>(ks', r') \<in> set ps. user_key s r' = fst e \<and> is_visible n ks' \<longrightarrow> \<not> newer ks' (fst (snd e)))"
proof -
  have "\<exists>v. (user_key s r', ks', v) \<in> set es" if "(ks', r') \<in> set ps" for ks' r' using assms(1) that by (auto simp: mt_entries_def)
  moreover have "\<exists>r'. (ks', r') \<in> set ps \<and> user_key s r' = u" if "(u, ks', v) \<in> set es" for u ks' v
    using entry_row_ok [OF assms(1) that] by auto
  ultimately show ?thesis by (cases e) (fastforce simp: newest_visible_def)
qed

definition newest_rows :: "schema \<Rightarrow> (key_sequence \<times> row) list \<Rightarrow> scan_request \<Rightarrow> row set" where
  "newest_rows s ps req = {r. \<exists>ks. (ks, r) \<in> set ps \<and> in_range req (user_key s r) \<and> is_visible (sr_sequence req) ks \<and>
      (\<forall>(ks', r') \<in> set ps. user_key s r' = user_key s r \<and> is_visible (sr_sequence req) ks' \<longrightarrow> \<not> newer ks' ks)}"

lemma scan_rows_set:
  assumes "mt_entries s ps es" and "distinct (map fst ps)"
  shows "entry_row ps ` {e \<in> set es. in_range req (fst e) \<and> newest_visible (sr_sequence req) es e} = newest_rows s ps req"
proof (intro set_eqI iffI)
  fix r assume "r \<in> entry_row ps ` {e \<in> set es. in_range req (fst e) \<and> newest_visible (sr_sequence req) es e}"
  then obtain e where e: "e \<in> set es" "r = entry_row ps e" "in_range req (fst e)" "newest_visible (sr_sequence req) es e" by auto
  then show "r \<in> newest_rows s ps req"
    using entry_row_ok [OF assms(1) e(1)] newest_visible_row [OF assms e(1), of "sr_sequence req"]
    unfolding newest_rows_def by auto
next
  fix r assume "r \<in> newest_rows s ps req"
  then obtain ks where ks: "(ks, r) \<in> set ps" "in_range req (user_key s r)" "is_visible (sr_sequence req) ks"
    "\<forall>(ks', r') \<in> set ps. user_key s r' = user_key s r \<and> is_visible (sr_sequence req) ks' \<longrightarrow> \<not> newer ks' ks"
    by (auto simp: newest_rows_def)
  then obtain v where v: "(user_key s r, ks, v) \<in> set es" using assms(1) by (auto simp: mt_entries_def)
  have "entry_row ps (user_key s r, ks, v) = r" using ks(1) assms(2) by (simp add: entry_row_def)
  moreover have "newest_visible (sr_sequence req) es (user_key s r, ks, v)"
    using newest_visible_row [OF assms v] ks(3,4) by simp
  ultimately show "r \<in> entry_row ps ` {e \<in> set es. in_range req (fst e) \<and> newest_visible (sr_sequence req) es e}"
    using v ks(2) by force
qed

section \<open>Puts do not fail\<close>

lemma put_key_value:
  assumes "put_ok s idx row"
  shows "\<exists>n v. internal_key_estimate s row = Ok n \<and> write_row s idx row = Ok v \<and> length v < 2 ^ 32 \<and>
    internal_key_encode s ks vec_new row = Ok (bm_append vec_new (internal_key s ks row)) \<and> length (internal_key s ks row) < 2 ^ 16"
proof -
  note ok = assms [unfolded put_ok_def]
  have w: "schema_wf s" "check_row_schema (table_row idx row) s = Ok ()" using ok by (simp_all add: row_writable_def)
  have "key_row_ok s row" using checked_key_row_ok [OF w] ok by (auto simp: key_row_ok_def)
  then show ?thesis
    using internal_key_estimate_ok [of s row] internal_key_encode_ok [of s row ks vec_new] write_row_length [of s idx row] ok
    by (fastforce simp: internal_key_def vec_new_def)
qed

lemma mt_run_sl:
  assumes "mt_run s m ps"
  shows "\<exists>l. sl_rep (mt_skiplist m) l"
  using assms
proof induction
  case (new n m)
  obtain l where l: "skiplist_new = Some l" "sl_rep l []" using skiplist_new_ok by blast
  have "mt_skiplist m = l" using new(1) unfolding memtable_new_def l(1) by auto
  then show ?case using l(2) by blast
next
  case (put m ps idx row ks coins m')
  obtain v b l' where v: "sl_put (mt_skiplist m) (internal_key s ks (table_row idx row)) v coins = Some (b, l')"
    "mt_skiplist m' = l'" using mt_put_ok [OF put(2,3)] by blast
  obtain l where l: "sl_rep (mt_skiplist m) l" using put(4) by blast
  let ?k = "internal_key s ks (table_row idx row)"
  show ?case
  proof (cases "?k \<in> set (bt_keys l)")
    case True
    then show ?thesis using sl_put_present [OF l True, of v coins] v l by auto
  next
    case False
    have "\<not> (2 ^ 16 \<le> length ?k \<or> 2 ^ 32 \<le> length v)" using sl_put_too_long [OF l False, of v coins] v(1) by auto
    then show ?thesis using sl_put_absent [OF l False, of v coins] v by auto
  qed
next
  case (set_sequence m ps n m')
  then show ?case by (auto simp: set_last_sequence_def split: if_splits)
qed

lemma mt_put_total:
  assumes "mt_run s m ps" and "put_ok s idx row"
  shows "\<exists>m'. mt_put m idx ks row s coins = Some (Ok m') \<and> mt_row_count m' = mt_row_count m + 1"
proof -
  obtain l where l: "sl_rep (mt_skiplist m) l" using mt_run_sl [OF assms(1)] by blast
  obtain n v where v: "internal_key_estimate s row = Ok n" "write_row s idx row = Ok v" "length v < 2 ^ 32"
    "internal_key_encode s ks vec_new row = Ok (bm_append vec_new (internal_key s ks row))" "length (internal_key s ks row) < 2 ^ 16"
    using put_key_value [OF assms(2)] by blast
  obtain b l' where "sl_put (mt_skiplist m) (internal_key s ks row) v coins = Some (b, l')"
    using sl_put_present [OF l, of "internal_key s ks row" v coins] sl_put_absent [OF l, of "internal_key s ks row" v coins] v(3,5)
    by blast
  then show ?thesis using v by (simp add: mt_put_def vec_new_def)
qed

section \<open>Properties\<close>

text \<open>
  C3. A scan of a memtable returns, and with deduplication it returns for each key in the scanned
  range exactly one row: the newest one that the read sequence allows to see, in key order,
  projected to the columns that are read, in batches that are not empty and not larger than the
  batch size.  This holds for memtables filled by any puts of rows with distinct sequences, whatever
  the heights of their nodes, and for scans without a start key or from an included one.  The rows
  put have their key columns at the table's indexes, as \<open>put\<close> requires.\<close>

theorem memtable_scan_newest:
  assumes "mt_run s m ps" and "distinct (map fst ps)" and "schema_wf s" and "arrow_accepts arrow_ok" and "0 < n"
    and "start_ok s req" and "try_project_with_key (sr_projected req) s = Ok rp" and "columns_agree (sr_projected req) s"
    and "rs_cols (ps_schema_with_key (sr_projected req)) \<noteq> []" and "sr_need_dedup req"
  shows "\<exists>batches rows. mt_scan arrow_ok m n req = Some (Ok batches) \<and>
    map (project_row rp) rows = (map Ok (concat (map batch_rows batches)) :: (unit, _) result list) \<and>
    sorted_wrt (\<lambda>r r'. compare_row (primary_key_indexes s) r r' = (Ok Less :: (unit, _) result)) rows \<and>
    set rows = newest_rows s ps req \<and>
    (\<forall>b \<in> set batches. rb_schema b = ps_schema_with_key (sr_projected req) \<and> batch_rows b \<noteq> [] \<and> length (batch_rows b) \<le> n)"
proof -
  obtain es batches where es: "mt_entries s ps es" "mt_scan arrow_ok m n req = Some (Ok batches)"
    "concat (map batch_rows batches) = map (\<lambda>e. projected_value s rp (snd (snd e)))
      (scan_all (sr_end req) (sr_sequence req) True None (filter (from_start req) es))" (is "_ = map _ ?xs")
    "\<forall>b \<in> set batches. rb_schema b = ps_schema_with_key (sr_projected req) \<and> batch_rows b \<noteq> [] \<and> length (batch_rows b) \<le> n"
    using mt_scan_entries [OF assms(1-9)] assms(10) by auto
  note row = entry_row_ok [OF es(1)]
  have sorted: "sorted_wrt entry_less es" using es(1) by (simp add: mt_entries_def)
  note mem = scan_from_start_mem [OF sorted, of _ req]
  have "map (project_row rp) (map (entry_row ps) ?xs) = (map Ok (concat (map batch_rows batches)) :: (unit, _) result list)"
    unfolding es(3) map_map comp_def
  proof (rule map_cong [OF refl])
    fix e assume "e \<in> set ?xs"
    then have v: "row_value s (entry_row ps e) (snd (snd e))" using mem row(2) by blast
    then obtain r' where "project_row rp (entry_row ps e) = (Ok r' :: (unit, _) result)"
      using project_row_value [OF assms(3,7,8)] by blast
    then show "project_row rp (entry_row ps e) = (Ok (projected_value s rp (snd (snd e))) :: (unit, _) result)"
      using projected_value_ok [OF v] by simp
  qed
  moreover have "sorted_wrt (\<lambda>r r'. compare_row (primary_key_indexes s) r r' = (Ok Less :: (unit, _) result)) (map (entry_row ps) ?xs)"
    unfolding sorted_wrt_map
  proof (rule sorted_wrt_mono_rel [OF _ scan_all_sorted [OF sorted_wrt_filter [OF sorted]]])
    fix x y assume "x \<in> set ?xs" "y \<in> set ?xs" "fst x < fst y"
    then show "compare_row (primary_key_indexes s) (entry_row ps x) (entry_row ps y) = (Ok Less :: (unit, _) result)"
      using mem row(1,2) by (intro user_key_less_compare) (auto simp: row_value_def)
  qed
  moreover have "set ?xs = {e \<in> set es. in_range req (fst e) \<and> newest_visible (sr_sequence req) es e}" using mem by blast
  then have "set (map (entry_row ps) ?xs) = newest_rows s ps req" using scan_rows_set [OF es(1) assms(2)] by simp
  ultimately show ?thesis using es(2,4) by blast
qed

definition demo_rows :: "(key_sequence \<times> row) list" where
  "demo_rows = [(\<lparr>ks_sequence = 1, ks_index = 0\<rparr>, [D_String [97, 98], D_Timestamp 7, D_Double 1, D_Double 2]),
     (\<lparr>ks_sequence = 2, ks_index = 0\<rparr>, [D_String [97, 98], D_Timestamp 7, D_Double 5, D_Double 6])]"

definition demo_request :: scan_request where
  "demo_request = \<lparr>sr_start = Unbounded, sr_end = Unbounded, sr_sequence = 2, sr_projected = no_projection demo_schema,
     sr_need_dedup = True\<rparr>"

lemma demo_put_ok: "put_ok demo_schema [Some 0, Some 1, Some 2, Some 3] [D_String [97, 98], D_Timestamp 7, D_Double x, D_Double y]"
proof -
  have tr: "table_row [Some 0, Some 1, Some 2, Some 3] [D_String [97, 98], D_Timestamp 7, D_Double x, D_Double y] =
      [D_String [97, 98], D_Timestamp 7, D_Double x, D_Double y]"
    by (simp add: table_row_def)
  have k: "primary_key_indexes demo_schema = [0, 1]" by (simp add: demo_schema_def)
  have "row_writable demo_schema [Some 0, Some 1, Some 2, Some 3] [D_String [97, 98], D_Timestamp 7, D_Double x, D_Double y]"
    unfolding row_writable_def tr
    by (simp add: demo_schema_wf num_columns_def demo_defs fits_writer_def check_row_schema_Ok check_datum_type_Ok
        strings_fit_def bit_set_num_bytes_def var_block_def var_enc_def is_null_def)
  moreover have "length (user_key demo_schema [D_String [97, 98], D_Timestamp 7, D_Double x, D_Double y]) = 19"
    unfolding user_key_def k by code_simp
  ultimately show ?thesis
    unfolding put_ok_def tr k by (simp add: nulls_in_place_def All_less_Suc2 is_null_def)
qed

lemma demo_run: "\<exists>m. mt_run demo_schema m demo_rows"
proof -
  obtain l where l: "skiplist_new = Some l" using skiplist_new_ok by blast
  let ?idx = "[Some 0, Some 1, Some 2, Some 3]"
  have tr: "table_row ?idx [D_String [97, 98], D_Timestamp 7, D_Double x, D_Double y] =
      [D_String [97, 98], D_Timestamp 7, D_Double x, D_Double y]" for x y
    by (simp add: table_row_def)
  obtain m where "memtable_new demo_schema 0 = Some m" unfolding memtable_new_def l by auto
  then have r0: "mt_run demo_schema m []" by (rule mt_run.new)
  obtain m1 where "mt_put m ?idx \<lparr>ks_sequence = 1, ks_index = 0\<rparr> [D_String [97, 98], D_Timestamp 7, D_Double 1, D_Double 2] demo_schema [] = Some (Ok m1)"
    using mt_put_total [OF r0 demo_put_ok] by blast
  note r1 = mt_run.put [OF r0 demo_put_ok this]
  obtain m2 where "mt_put m1 ?idx \<lparr>ks_sequence = 2, ks_index = 0\<rparr> [D_String [97, 98], D_Timestamp 7, D_Double 5, D_Double 6] demo_schema [] = Some (Ok m2)"
    using mt_put_total [OF r1 demo_put_ok] by blast
  note r2 = mt_run.put [OF r1 demo_put_ok this]
  then show ?thesis unfolding tr by (auto simp: demo_rows_def)
qed

lemma newest_rows_filter:
  "newest_rows s ps req = set (map snd (filter (\<lambda>(ks, r). in_range req (user_key s r) \<and> is_visible (sr_sequence req) ks \<and>
     list_all (\<lambda>(ks', r'). user_key s r' = user_key s r \<and> is_visible (sr_sequence req) ks' \<longrightarrow> \<not> newer ks' ks) ps) ps))"
  by (force simp: newest_rows_def list_all_iff)

lemma demo_newest: "newest_rows demo_schema demo_rows demo_request = {[D_String [97, 98], D_Timestamp 7, D_Double 5, D_Double 6]}"
proof -
  have "user_key demo_schema [D_String [97, 98], D_Timestamp 7, x, y] = mem_repr (D_String [97, 98]) @ mem_repr (D_Timestamp 7)" for x y
    unfolding user_key_def demo_schema_def by (simp del: mem_repr.simps)
  then obtain u where u: "user_key demo_schema [D_String [97, 98], D_Timestamp 7, x, y] = u" for x y by metis
  show ?thesis
    by (simp add: newest_rows_filter demo_rows_def demo_request_def in_range_def is_after_end_bound_def is_visible_def newer_def u)
qed

theorem memtable_scan_newest_witness:
  "\<exists>m batches. mt_run demo_schema m demo_rows \<and> mt_scan (\<lambda>_ _. True) m 16 demo_request = Some (Ok batches) \<and>
     concat (map batch_rows batches) = [[D_String [97, 98], D_Timestamp 7, D_Double 5, D_Double 6]]"
proof -
  let ?r = "[D_String [97, 98], D_Timestamp 7, D_Double 5, D_Double 6]" and ?ps = "no_projection demo_schema"
  obtain m where m: "mt_run demo_schema m demo_rows" using demo_run by blast
  have "case try_project_with_key ?ps demo_schema of
      Ok rp \<Rightarrow> project_row rp ?r = (Ok ?r :: (unit, _) result) \<and> compare_row (primary_key_indexes demo_schema) ?r ?r = (Ok Equal :: (unit, _) result)
    | _ \<Rightarrow> False" by code_simp
  then obtain rp where rp: "try_project_with_key ?ps demo_schema = Ok rp" "project_row rp ?r = (Ok ?r :: (unit, _) result)"
    "compare_row (primary_key_indexes demo_schema) ?r ?r = (Ok Equal :: (unit, _) result)"
    by (cases "try_project_with_key ?ps demo_schema") auto
  have cols: "rs_cols (ps_schema_with_key ?ps) = demo_columns" by code_simp
  have "columns_agree ?ps demo_schema"
    unfolding columns_agree_def cols by (auto simp: demo_defs)
  then obtain batches rows where b: "mt_scan (\<lambda>_ _. True) m 16 demo_request = Some (Ok batches)"
    "map (project_row rp) rows = (map Ok (concat (map batch_rows batches)) :: (unit, _) result list)"
    "sorted_wrt (\<lambda>r r'. compare_row (primary_key_indexes demo_schema) r r' = (Ok Less :: (unit, _) result)) rows" "set rows = {?r}"
    using memtable_scan_newest [OF m _ demo_schema_wf(1), of "\<lambda>_ _. True" 16 demo_request rp] rp(1) cols
    unfolding demo_newest by (auto simp: demo_rows_def demo_request_def arrow_accepts_def start_ok_def demo_columns_def)
  have "rows = [?r]"
  proof (cases rows)
    case (Cons a as)
    then have "a = ?r" "as = []" using b(3,4) rp(3) by (cases as; auto)+
    with Cons show ?thesis by simp
  qed (use b(4) in simp)
  then have "map Ok (concat (map batch_rows batches)) = (map Ok [?r] :: (unit, _) result list)" using b(2) rp(2) by simp
  then have "concat (map batch_rows batches) = [?r]" by (rule map_injective) (simp add: inj_def)
  with m b(1) show ?thesis by blast
qed

text \<open>
  C12. Putting a row that fits the table never fails: for every memtable reached by puts and every
  outcome of the random height, the put returns without an error and counts the row.\<close>

theorem memtable_put_succeeds:
  assumes "mt_run s m ps" and "put_ok s idx row"
  shows "\<exists>m'. mt_put m idx ks row s coins = Some (Ok m') \<and> mt_run s m' (ps @ [(ks, table_row idx row)]) \<and>
    mt_row_count m' = mt_row_count m + 1"
  using mt_put_total [OF assms, of ks coins] mt_run.put [OF assms] by blast

theorem memtable_put_succeeds_witness:
  "\<exists>m m'. mt_run demo_schema m demo_rows \<and>
     mt_put m [Some 0, Some 1, Some 2, Some 3] \<lparr>ks_sequence = 3, ks_index = 0\<rparr>
       [D_String [97, 98], D_Timestamp 7, D_Double 0, D_Double 0] demo_schema [True, True, False] = Some (Ok m')"
proof -
  obtain m where m: "mt_run demo_schema m demo_rows" using demo_run by blast
  then show ?thesis using memtable_put_succeeds [OF m demo_put_ok [of 0 0]] by blast
qed

text \<open>
  C4. The internal keys of a memtable: they encode for every row with valid key columns, decode to the
  user key and the sequence, and compare byte-wise as the rows compare by their key columns, the newer
  one of two equal keys first.\<close>

theorem internal_key_order:
  assumes "key_row_ok s r" and "key_row_ok s r'" and "length (user_key s r) + 12 < 2 ^ 63" and "length (user_key s r') + 12 < 2 ^ 63"
  shows "\<exists>k k' c. internal_key_encode s ks vec_new r = Ok k \<and> internal_key_encode s ks' vec_new r' = Ok k' \<and>
    user_key_from_internal_key (bm_data k) = Ok (user_key s r, ks) \<and>
    compare_row (primary_key_indexes s) r r' = (Ok c :: (unit, _) result) \<and>
    (bm_data k < bm_data k' \<longleftrightarrow> c = Less \<or> c = Equal \<and> newer ks ks')"
proof -
  obtain c where c: "compare_row (primary_key_indexes s) r r' = (Ok c :: (unit, _) result)"
    "\<forall>x y. user_key s r @ x < user_key s r' @ y \<longleftrightarrow> c = Less \<or> c = Equal \<and> x < y"
    using user_key_order [OF assms(1,2), where 'e = unit] by metis
  have "internal_key_encode s ks vec_new r = Ok (bm_append vec_new (internal_key s ks r))"
    "internal_key_encode s ks' vec_new r' = Ok (bm_append vec_new (internal_key s ks' r'))"
    using assms(3,4) internal_key_encode_ok [OF assms(1), of ks vec_new] internal_key_encode_ok [OF assms(2), of ks' vec_new]
    by (simp_all add: internal_key_def vec_new_def)
  moreover have "user_key_from_internal_key (internal_key s ks r) = Ok (user_key s r, ks)"
    unfolding internal_key_def using user_key_from_ok [OF user_key_non_empty [OF assms(1)]] .
  moreover have "internal_key s ks r < internal_key s ks' r' \<longleftrightarrow> c = Less \<or> c = Equal \<and> newer ks ks'"
    unfolding internal_key_def using c(2) seq_repr_less by blast
  ultimately show ?thesis using c(1) by (simp add: vec_new_def)
qed

theorem internal_key_order_witness:
  "\<exists>k k'. internal_key_encode demo_schema \<lparr>ks_sequence = 2, ks_index = 0\<rparr> vec_new [D_String [97], D_Timestamp 7, D_Null, D_Null] = Ok k \<and>
     internal_key_encode demo_schema \<lparr>ks_sequence = 1, ks_index = 5\<rparr> vec_new [D_String [97], D_Timestamp 7, D_Null, D_Null] = Ok k' \<and>
     bm_data k < bm_data k'"
proof -
  let ?r = "[D_String [97], D_Timestamp 7, D_Null, D_Null]"
  have k: "key_row_ok demo_schema ?r" by code_simp
  have "length (user_key demo_schema ?r) = 19" by code_simp
  then have l: "length (user_key demo_schema ?r) + 12 < 2 ^ 63" by simp
  have "compare_row (primary_key_indexes demo_schema) ?r ?r = (Ok Equal :: (unit, _) result)" by code_simp
  with internal_key_order [OF k k l l, of "\<lparr>ks_sequence = 2, ks_index = 0\<rparr>" "\<lparr>ks_sequence = 1, ks_index = 5\<rparr>"]
  show ?thesis by (auto simp: newer_def)
qed

text \<open>A table whose nullable column stands before the key columns, and a writer without that column.\<close>

definition demo_late_schema :: schema where
  "demo_late_schema =
     \<lparr>primary_key_indexes = [1, 2], timestamp_index = 2, tsid_index = None,
      column_schemas_of = column_schemas_new [demo_column 1 ''cpu'' K_Double True, demo_column 2 ''host'' K_String False,
        demo_column 3 ''ts'' K_Timestamp False], schema_version = 1\<rparr>"

definition demo_late_writer :: schema where
  "demo_late_writer = demo_late_schema\<lparr>primary_key_indexes := [0, 1], timestamp_index := 1,
     column_schemas_of := column_schemas_new [demo_column 2 ''host'' K_String False, demo_column 3 ''ts'' K_Timestamp False]\<rparr>"

text \<open>An index that a row does not have makes the estimate of the size of the key panic.\<close>

lemma estimate_out_of_range:
  assumes "i \<in> set idxs" and "length row \<le> i"
  shows "res_fold (\<lambda>idx n. res_bind (index_res row idx) (\<lambda>d. Ok (n + mem_estimate d))) idxs n = (Panic :: ('e, _) result)"
  using assms
proof (induction idxs arbitrary: n)
  case (Cons j idxs)
  then show ?case by (cases "j < length row") (auto simp: index_res_def)
qed simp

text \<open>
  C30. The key of a row is taken at the indexes of the table schema although the row has the columns of
  the writer.  Whenever the table has a key column at an index that the writer's schema does not
  reach, every put of a row of the writer panics, into every memtable, for every sequence and every
  outcome of the random height, although the write-compatibility check has accepted the writer.
\<close>

theorem memtable_put_key_panic:
  assumes "compatible_for_write s writer [] = Ok idx" and "check_row_schema row writer = Ok ()"
    and "i \<in> set (primary_key_indexes s)" and "num_columns writer \<le> i"
  shows "mt_put m idx ks row s coins = Some Panic"
proof -
  have "length row = num_columns writer"
    using assms(2) by (auto simp: check_row_schema_Ok num_columns_def dest: list_all2_lengthD)
  then have "internal_key_estimate s row = Panic"
    using assms(4) by (simp add: internal_key_estimate_def estimate_out_of_range [OF assms(3)])
  then show ?thesis by (simp add: mt_put_def)
qed

theorem memtable_put_key_panic_witness:
  "schema_wf demo_late_schema \<and> schema_wf demo_late_writer \<and>
   (\<exists>m. memtable_new demo_late_schema 0 = Some m \<and>
     mt_put m [None, Some 0, Some 1] \<lparr>ks_sequence = 1, ks_index = 0\<rparr> [D_String [97], D_Timestamp 7] demo_late_schema [] = Some Panic)"
proof -
  have cols: "schema_columns demo_late_schema = [demo_column 1 ''cpu'' K_Double True, demo_column 2 ''host'' K_String False,
        demo_column 3 ''ts'' K_Timestamp False]"
    "schema_columns demo_late_writer = [demo_column 2 ''host'' K_String False, demo_column 3 ''ts'' K_Timestamp False]"
    by (simp_all add: schema_columns_def demo_late_schema_def demo_late_writer_def)
  have wf: "schema_wf demo_late_schema" "schema_wf demo_late_writer"
    unfolding schema_wf_def columns_ok_def key_ok_def timestamp_ok_def cols
    by (simp_all add: demo_late_schema_def demo_late_writer_def demo_defs find_tsid_index_def)
  have compat: "compatible_for_write demo_late_schema demo_late_writer [] = Ok [None, Some 0, Some 1]"
    and row: "check_row_schema [D_String [97], D_Timestamp 7] demo_late_writer = Ok ()" by code_simp+
  have key: "2 \<in> set (primary_key_indexes demo_late_schema)" "num_columns demo_late_writer \<le> 2"
    by (simp_all add: demo_late_schema_def num_columns_def cols)
  obtain l where l: "skiplist_new = Some l" "sl_rep l []" using skiplist_new_ok by blast
  have "\<exists>m. memtable_new demo_late_schema 0 = Some m" unfolding memtable_new_def l(1) by simp
  with wf show ?thesis using memtable_put_key_panic [OF compat row key] by blast
qed

end
