(* ===== verification/Row_Iter.thy ===== *)
theory Row_Iter
  imports Memtable "HOL-Library.Multiset"
begin

text \<open>
  The iterators that read a table (\<^verbatim>\<open>analytic_engine/src/row_iter\<close>): the merge iterator over the
  streams of memtables and files, the deduplicating iterator on top of it, and the chain iterator.

  A stream is the list of the items that it yields.  A binary heap is the list of its elements;
  which of the greatest elements is at the top is the argument \<open>tp\<close> of the operations, about which
  only \<open>heap_ok\<close> is used: when the comparison is a total order on the elements, the top is one that
  no element exceeds.  After an error an iterator is not used any more.
\<close>

section \<open>Row views\<close>

definition row_view_columns :: "record_batch_with_key \<Rightarrow> nat \<Rightarrow> row" where
  "row_view_columns b i = map (\<lambda>c. cb_data c ! i) (takeWhile (\<lambda>c. i < length (cb_data c)) (rb_columns b))"

definition append_row_view :: "batch_builder \<Rightarrow> record_batch_with_key \<Rightarrow> nat \<Rightarrow> (batch_error, batch_builder) result" where
  "append_row_view bb b i = res_bind (append_values (bb_builders bb) (row_view_columns b i)) (\<lambda>bs. Ok (bb\<lparr>bb_builders := bs\<rparr>))"

section \<open>Buffered streams\<close>

record sequenced_batch =
  sq_batch :: record_batch_with_key
  sq_sequence :: u64

datatype 'e merge_error =
  MismatchedSchema record_schema_with_key record_schema_with_key
| PullRecordBatch 'e
| Merge_BuildRecordBatch batch_error
| Merge_AppendRow batch_error

type_synonym 'e batch_stream = "('e, sequenced_batch) result list"

record buffered_state =
  bf_batch :: sequenced_batch
  bf_cursor :: nat

record 'e buffered_stream =
  st_schema :: record_schema_with_key
  st_stream :: "'e batch_stream"
  st_state :: "buffered_state option"

abbreviation bf_rows :: "buffered_state \<Rightarrow> nat" where
  "bf_rows bf \<equiv> batch_num_rows (sq_batch (bf_batch bf))"

definition state_first_row :: "buffered_state \<Rightarrow> ('e, row) result" where
  "state_first_row bf = (if bf_cursor bf < bf_rows bf then Ok (clone_row_at (sq_batch (bf_batch bf)) (bf_cursor bf)) else Panic)"

definition state_last_row :: "buffered_state \<Rightarrow> ('e, row) result" where
  "state_last_row bf = (if bf_cursor bf < bf_rows bf then Ok (clone_row_at (sq_batch (bf_batch bf)) (bf_rows bf - 1)) else Panic)"

definition the_state :: "'e buffered_stream \<Rightarrow> ('f, buffered_state) result" where
  "the_state st = (case st_state st of Some bf \<Rightarrow> Ok bf | None \<Rightarrow> Panic)"

definition first_row_in_buffer :: "'e buffered_stream \<Rightarrow> ('f, row) result" where
  "first_row_in_buffer st = res_bind (the_state st) state_first_row"

definition last_row_in_buffer :: "'e buffered_stream \<Rightarrow> ('f, row) result" where
  "last_row_in_buffer st = res_bind (the_state st) state_last_row"

text \<open>\<open>next_row\<close>, unwrapped and appended to the builder.\<close>

definition append_next_row :: "'e buffered_stream \<Rightarrow> batch_builder \<Rightarrow> ('e merge_error, batch_builder \<times> 'e buffered_stream) result" where
  "append_next_row st bb =
     res_bind (the_state st) (\<lambda>bf.
       if bf_cursor bf < bf_rows bf
       then res_bind (res_ctx Merge_AppendRow (append_row_view bb (sq_batch (bf_batch bf)) (bf_cursor bf))) (\<lambda>bb.
              Ok (bb, st\<lparr>st_state := Some (bf\<lparr>bf_cursor := bf_cursor bf + 1\<rparr>)\<rparr>))
       else Panic)"

definition append_rows_to :: "'e buffered_stream \<Rightarrow> batch_builder \<Rightarrow> nat \<Rightarrow> ('e merge_error, nat \<times> batch_builder \<times> 'e buffered_stream) result" where
  "append_rows_to st bb len =
     res_bind (the_state st) (\<lambda>bf.
     res_bind (res_ctx Merge_AppendRow (append_batch_range bb (sq_batch (bf_batch bf)) (bf_cursor bf) len)) (\<lambda>(added, bb).
       Ok (added, bb, st\<lparr>st_state := Some (bf\<lparr>bf_cursor := bf_cursor bf + added\<rparr>)\<rparr>)))"

definition take_record_batch_slice :: "'e buffered_stream \<Rightarrow> nat \<Rightarrow> ('e merge_error, record_batch_with_key \<times> 'e buffered_stream) result" where
  "take_record_batch_slice st len =
     res_bind (the_state st) (\<lambda>bf.
       if bf_rows bf < bf_cursor bf then Panic
       else let len_to_fetch = min (bf_rows bf - bf_cursor bf) len
            in res_bind (view_of (batch_slice (sq_batch (bf_batch bf)) (bf_cursor bf) len_to_fetch)) (\<lambda>b.
                 Ok (b, st\<lparr>st_state := Some (bf\<lparr>bf_cursor := bf_cursor bf + batch_num_rows b\<rparr>)\<rparr>)))"

fun pull_next_non_empty_batch :: "'e batch_stream \<Rightarrow> ('e merge_error, sequenced_batch option \<times> 'e batch_stream) result" where
  "pull_next_non_empty_batch [] = Ok (None, [])"
| "pull_next_non_empty_batch (item # s) =
     (case item of
        Ok b \<Rightarrow> if 0 < batch_num_rows (sq_batch b) then Ok (Some b, s) else pull_next_non_empty_batch s
      | Err e \<Rightarrow> Err (PullRecordBatch e)
      | Panic \<Rightarrow> Panic)"

definition buffered_stream_build :: "record_schema_with_key \<Rightarrow> 'e batch_stream \<Rightarrow> ('e merge_error, 'e buffered_stream) result" where
  "buffered_stream_build rs s =
     res_bind (pull_next_non_empty_batch s) (\<lambda>(b, s).
       Ok \<lparr>st_schema = rs, st_stream = s, st_state = map_option (\<lambda>v. \<lparr>bf_batch = v, bf_cursor = 0\<rparr>) b\<rparr>)"

definition pull_next_batch_if_necessary :: "'e buffered_stream \<Rightarrow> ('e merge_error, bool \<times> 'e buffered_stream) result" where
  "pull_next_batch_if_necessary st =
     (case st_state st of
        None \<Rightarrow> Ok (False, st)
      | Some bf \<Rightarrow>
          if bf_cursor bf < bf_rows bf then Ok (False, st)
          else res_bind (pull_next_non_empty_batch (st_stream st)) (\<lambda>(b, s).
            case b of
              None \<Rightarrow> Ok (False, st\<lparr>st_stream := s, st_state := None\<rparr>)
            | Some v \<Rightarrow> Ok (True, st\<lparr>st_stream := s, st_state := Some \<lparr>bf_batch = v, bf_cursor = 0\<rparr>\<rparr>)))"

section \<open>The merge iterator\<close>

text \<open>The order of the heaps: the stream to read first is the greatest.\<close>

definition is_after_boundary :: "record_schema_with_key \<Rightarrow> bool \<Rightarrow> 'e buffered_stream \<Rightarrow> row \<Rightarrow> ('f, bool) result" where
  "is_after_boundary rs reverse st boundary =
     res_bind (first_row_in_buffer st) (\<lambda>first.
     res_bind (if reverse then compare_row (rs_primary_key_indexes rs) boundary first
               else compare_row (rs_primary_key_indexes rs) first boundary) (\<lambda>c. Ok (c = Greater)))"

definition stream_cmp :: "bool \<Rightarrow> 'e buffered_stream \<Rightarrow> 'e buffered_stream \<Rightarrow> ('f, cmp_ordering) result" where
  "stream_cmp reverse a b =
     res_bind (first_row_in_buffer a) (\<lambda>x. res_bind (first_row_in_buffer b) (\<lambda>y.
     res_bind (if reverse then compare_row (rs_primary_key_indexes (st_schema a)) x y
               else compare_row (rs_primary_key_indexes (st_schema a)) y x) (\<lambda>c.
       if c = Equal
       then res_bind (the_state a) (\<lambda>s. res_bind (the_state b) (\<lambda>t.
              Ok (lin_cmp (sq_sequence (bf_batch s)) (sq_sequence (bf_batch t)))))
       else Ok c)))"

type_synonym 'e heap_top = "'e buffered_stream list \<Rightarrow> nat"

definition heap_peek :: "'e heap_top \<Rightarrow> 'e buffered_stream list \<Rightarrow> ('f, 'e buffered_stream) result" where
  "heap_peek tp h = index_res h (tp h)"

definition heap_pop :: "'e heap_top \<Rightarrow> 'e buffered_stream list \<Rightarrow> ('f, 'e buffered_stream \<times> 'e buffered_stream list) result" where
  "heap_pop tp h = res_bind (index_res h (tp h)) (\<lambda>x. Ok (x, take (tp h) h @ drop (Suc (tp h)) h))"

record 'e merge_iterator =
  mi_inited :: bool
  mi_schema :: record_schema_with_key
  mi_builder :: batch_builder
  mi_origin_streams :: "'e batch_stream list"
  mi_hot :: "'e buffered_stream list"
  mi_cold :: "'e buffered_stream list"
  mi_batch_size :: nat
  mi_reverse :: bool

definition merge_iterator_new :: "record_schema_with_key \<Rightarrow> 'e batch_stream list \<Rightarrow> nat \<Rightarrow> bool \<Rightarrow> 'e merge_iterator" where
  "merge_iterator_new rs streams batch_size reverse =
     \<lparr>mi_inited = False, mi_schema = rs, mi_builder = batch_builder_new rs, mi_origin_streams = streams, mi_hot = [],
      mi_cold = [], mi_batch_size = batch_size, mi_reverse = reverse\<rparr>"

text \<open>\<open>refill_hot\<close> runs at most once for each stream of the cold heap.\<close>

fun refill_loop :: "'e heap_top \<Rightarrow> record_schema_with_key \<Rightarrow> bool \<Rightarrow> nat \<Rightarrow> 'e buffered_stream list \<Rightarrow> 'e buffered_stream list \<Rightarrow>
    ('e merge_error, 'e buffered_stream list \<times> 'e buffered_stream list) result" where
  "refill_loop tp rs reverse 0 hot cold = Ok (hot, cold)"
| "refill_loop tp rs reverse (Suc n) hot cold =
     (if cold = [] then Ok (hot, cold)
      else res_bind
        (if hot = [] then Ok False
         else res_bind (heap_peek tp hot) (\<lambda>hottest. res_bind (last_row_in_buffer hottest) (\<lambda>merge_window_end.
              res_bind (heap_peek tp cold) (\<lambda>warmest. is_after_boundary rs reverse warmest merge_window_end))))
        (\<lambda>after. if after then Ok (hot, cold)
          else res_bind (heap_pop tp cold) (\<lambda>(warmest, cold). refill_loop tp rs reverse n (warmest # hot) cold)))"

definition refill_hot :: "'e heap_top \<Rightarrow> 'e merge_iterator \<Rightarrow> ('e merge_error, 'e merge_iterator) result" where
  "refill_hot tp mi =
     res_bind (refill_loop tp (mi_schema mi) (mi_reverse mi) (length (mi_cold mi)) (mi_hot mi) (mi_cold mi)) (\<lambda>(hot, cold).
       Ok (mi\<lparr>mi_hot := hot, mi_cold := cold\<rparr>))"

definition push_origin_stream :: "'e batch_stream \<Rightarrow> 'e merge_iterator \<Rightarrow> ('e merge_error, 'e merge_iterator) result" where
  "push_origin_stream s mi =
     res_bind (buffered_stream_build (mi_schema mi) s) (\<lambda>st.
       if mi_schema mi = st_schema st
       then Ok (if st_state st = None then mi else mi\<lparr>mi_cold := st # mi_cold mi\<rparr>)
       else Err (MismatchedSchema (mi_schema mi) (st_schema st)))"

text \<open>The streams are initialized concurrently; their list is in the order in which they get ready.\<close>

definition init_if_necessary :: "'e heap_top \<Rightarrow> 'e merge_iterator \<Rightarrow> ('e merge_error, 'e merge_iterator) result" where
  "init_if_necessary tp mi =
     (if mi_inited mi then Ok mi
      else res_bind (res_fold push_origin_stream (mi_origin_streams mi) (mi\<lparr>mi_origin_streams := []\<rparr>)) (\<lambda>mi.
           res_bind (refill_hot tp mi) (\<lambda>mi. Ok (mi\<lparr>mi_inited := True\<rparr>))))"

definition reheap :: "'e heap_top \<Rightarrow> 'e buffered_stream \<Rightarrow> 'e merge_iterator \<Rightarrow> ('e merge_error, 'e merge_iterator) result" where
  "reheap tp st mi =
     res_bind (pull_next_batch_if_necessary st) (\<lambda>(pulled_new_batch, st).
       if st_state st = None then refill_hot tp mi
       else if pulled_new_batch then
         res_bind (if mi_hot mi = [] then Ok False
                   else res_bind (heap_peek tp (mi_hot mi)) (\<lambda>hottest. res_bind (last_row_in_buffer hottest) (\<lambda>end_row.
                        is_after_boundary (mi_schema mi) (mi_reverse mi) st end_row)))
           (\<lambda>cold_new_batch.
              refill_hot tp (if cold_new_batch then mi\<lparr>mi_cold := st # mi_cold mi\<rparr> else mi\<lparr>mi_hot := st # mi_hot mi\<rparr>))
       else Ok (mi\<lparr>mi_hot := st # mi_hot mi\<rparr>))"

definition fetch_rows_from_one_stream ::
    "'e heap_top \<Rightarrow> nat \<Rightarrow> 'e merge_iterator \<Rightarrow> ('e merge_error, record_batch_with_key option \<times> 'e merge_iterator) result" where
  "fetch_rows_from_one_stream tp num_rows_to_fetch mi =
     (if length (mi_hot mi) \<noteq> 1 then Panic
      else res_bind (heap_pop tp (mi_hot mi)) (\<lambda>(st, hot).
        if batch_builder_len (mi_builder mi) = 0
        then res_bind (take_record_batch_slice st num_rows_to_fetch) (\<lambda>(b, st).
             res_bind (reheap tp st (mi\<lparr>mi_hot := hot\<rparr>)) (\<lambda>mi. Ok (Some b, mi)))
        else res_bind (append_rows_to st (mi_builder mi) num_rows_to_fetch) (\<lambda>(_, bb, st).
             res_bind (reheap tp st (mi\<lparr>mi_hot := hot, mi_builder := bb\<rparr>)) (\<lambda>mi. Ok (None, mi)))))"

definition fetch_one_row_from_multiple_streams :: "'e heap_top \<Rightarrow> 'e merge_iterator \<Rightarrow> ('e merge_error, 'e merge_iterator) result" where
  "fetch_one_row_from_multiple_streams tp mi =
     (if mi_hot mi = [] then Panic
      else res_bind (heap_pop tp (mi_hot mi)) (\<lambda>(hottest, hot).
           res_bind (append_next_row hottest (mi_builder mi)) (\<lambda>(bb, hottest).
             reheap tp hottest (mi\<lparr>mi_hot := hot, mi_builder := bb\<rparr>))))"

partial_function (option) fetch_loop ::
    "arrow_check \<Rightarrow> 'e heap_top \<Rightarrow> 'e merge_iterator \<Rightarrow> ('e merge_error, record_batch_with_key option \<times> 'e merge_iterator) result option" where
  "fetch_loop arrow_ok tp mi =
     (if mi_hot mi \<noteq> [] \<and> batch_builder_len (mi_builder mi) < mi_batch_size mi
      then if length (mi_hot mi) = 1
           then case fetch_rows_from_one_stream tp (mi_batch_size mi - batch_builder_len (mi_builder mi)) mi of
                  Ok (Some b, mi) \<Rightarrow> Some (Ok (Some b, mi))
                | Ok (None, mi) \<Rightarrow> fetch_loop arrow_ok tp mi
                | Err e \<Rightarrow> Some (Err e)
                | Panic \<Rightarrow> Some Panic
           else case fetch_one_row_from_multiple_streams tp mi of
                  Ok mi \<Rightarrow> fetch_loop arrow_ok tp mi
                | Err e \<Rightarrow> Some (Err e)
                | Panic \<Rightarrow> Some Panic
      else Some (if batch_builder_len (mi_builder mi) = 0 then Ok (None, mi)
                 else res_bind (res_ctx Merge_BuildRecordBatch (batch_build arrow_ok (mi_builder mi))) (\<lambda>(b, bb).
                        Ok (Some b, mi\<lparr>mi_builder := bb\<rparr>))))"

definition merge_next_batch ::
    "arrow_check \<Rightarrow> 'e heap_top \<Rightarrow> 'e merge_iterator \<Rightarrow> ('e merge_error, record_batch_with_key option \<times> 'e merge_iterator) result option" where
  "merge_next_batch arrow_ok tp mi =
     (case init_if_necessary tp mi of
        Ok mi \<Rightarrow> fetch_loop arrow_ok tp (mi\<lparr>mi_builder := batch_builder_clear (mi_builder mi)\<rparr>)
      | Err e \<Rightarrow> Some (Err e)
      | Panic \<Rightarrow> Some Panic)"

section \<open>Batches as lists of rows\<close>

text \<open>A batch with the columns of the record schema that holds the rows.\<close>

definition batch_of :: "record_schema_with_key \<Rightarrow> row list \<Rightarrow> record_batch_with_key" where
  "batch_of rs rows = \<lparr>rb_schema = rs, rb_columns = bb_builders (builder_with rs rows)\<rparr>"

definition batch_ok :: "record_schema_with_key \<Rightarrow> record_batch_with_key \<Rightarrow> bool" where
  "batch_ok rs b \<longleftrightarrow> (\<exists>rows. b = batch_of rs rows \<and> (\<forall>r \<in> set rows. row_for rs r))"

lemma columns_non_empty: "rs_cols rs \<noteq> [] \<Longrightarrow> bb_builders (builder_with rs rows) \<noteq> []"
  using builder_with_fields(2) [of rs rows] by auto

lemma batch_of_rows:
  assumes "rs_cols rs \<noteq> []" and "\<forall>r \<in> set rows. row_for rs r"
  shows "batch_rows (batch_of rs rows) = rows" and "batch_num_rows (batch_of rs rows) = length rows"
    and "i < length rows \<Longrightarrow> clone_row_at (batch_of rs rows) i = rows ! i"
  using builder_with_holds [OF assms(2)] columns_non_empty [OF assms(1), of rows]
  by (simp_all add: batch_of_def batch_rows_holds batch_num_rows_def holds_rows_num clone_row_at_def holds_rows_row)

lemma batch_ok_rows:
  assumes "rs_cols rs \<noteq> []" and "batch_ok rs b"
  shows "b = batch_of rs (batch_rows b)" and "\<forall>r \<in> set (batch_rows b). row_for rs r" and "batch_num_rows b = length (batch_rows b)"
  using assms batch_of_rows by (auto simp: batch_ok_def)

lemma builder_column_length: "c \<in> set (bb_builders (builder_with rs rows)) \<Longrightarrow> length (cb_data c) = length rows"
  by (auto simp: in_set_conv_nth builder_with_fields)

lemma builder_clear: "batch_builder_clear (builder_with rs rows) = builder_with rs []"
proof -
  have "map (\<lambda>c. c\<lparr>cb_data := []\<rparr>) (bb_builders (builder_with rs rows)) = bb_builders (builder_with rs [])"
    by (intro nth_equalityI) (simp_all add: builder_with_fields)
  then show ?thesis unfolding batch_builder_clear_def by (simp add: builder_with_def)
qed

lemma batch_build_of:
  assumes "arrow_accepts arrow_ok" and "rs_cols rs \<noteq> []" and "\<forall>r \<in> set rows. row_for rs r"
  shows "batch_build arrow_ok (builder_with rs rows) = Ok (batch_of rs rows, builder_with rs [])"
proof -
  obtain b bb where "batch_build arrow_ok (builder_with rs rows) = Ok (b, bb)" using batch_build_ok [OF assms] by blast
  then show ?thesis
    by (auto simp: batch_build_def record_batch_data_new_def batch_of_def builder_with_fields builder_clear split: if_splits)
qed

lemma builder_len:
  assumes "rs_cols rs \<noteq> []" and "\<forall>r \<in> set rows. row_for rs r"
  shows "batch_builder_len (builder_with rs rows) = length rows"
  using builder_with_holds [OF assms(2)] columns_non_empty [OF assms(1)] by (simp add: batch_builder_len_def holds_rows_num)

lemma append_row_view_of:
  assumes "\<forall>r \<in> set rows. row_for rs r" and "i < length rows"
  shows "append_row_view (builder_with rs acc) (batch_of rs rows) i = Ok (builder_with rs (acc @ [rows ! i]))"
proof -
  let ?cols = "bb_builders (builder_with rs rows)"
  have "\<forall>c \<in> set ?cols. i < length (cb_data c)"
    using assms(2) builder_column_length by metis
  then have "row_view_columns (batch_of rs rows) i = rows ! i"
    using builder_with_holds [OF assms(1)] assms(2) by (simp add: row_view_columns_def batch_of_def takeWhile_eq_all_conv [THEN iffD2] holds_rows_row)
  moreover have "row_kinds_ok (bb_builders (builder_with rs acc)) (rows ! i)"
    using assms by (auto simp: row_kinds_ok_def row_for_def list_all2_conv_all_nth builder_with_fields check_datum_type_Ok
        split: if_splits)
  ultimately have "append_values (bb_builders (builder_with rs acc)) (row_view_columns (batch_of rs rows) i) =
      Ok (extend_rows (bb_builders (builder_with rs acc)) [rows ! i])" using append_values_ok by simp
  moreover have "extend_rows (bb_builders (builder_with rs acc)) [rows ! i] = bb_builders (builder_with rs (acc @ [rows ! i]))"
    by (intro nth_equalityI) (simp_all add: extend_rows_simps builder_with_fields)
  ultimately show ?thesis by (simp add: append_row_view_def) (simp add: builder_with_def)
qed

lemma append_batch_range_of:
  assumes "rs_cols rs \<noteq> []" and "\<forall>r \<in> set rows. row_for rs r" and "start < length rows"
  shows "append_batch_range (builder_with rs acc) (batch_of rs rows) start len =
    Ok (min (length rows - start) len, builder_with rs (acc @ take len (drop start rows)))"
proof -
  let ?n = "min (length rows - start) len" and ?cols = "bb_builders (builder_with rs acc)"
  have nulls: "\<forall>j < length ?cols. cb_kind (?cols ! j) = K_Null \<longrightarrow> (\<forall>r \<in> set rows. r ! j = D_Null)"
  proof (intro allI impI ballI)
    fix j r assume j: "j < length ?cols" "cb_kind (?cols ! j) = K_Null" "r \<in> set rows"
    then have "check_datum_type (r ! j) (rs_cols rs ! j) = Ok ()" "cs_data_type (rs_cols rs ! j) = K_Null"
      using assms(2) by (auto simp: row_for_def list_all2_conv_all_nth builder_with_fields)
    then show "r ! j = D_Null" by (cases "r ! j") (auto simp: check_datum_type_Ok)
  qed
  have "append_block_ranges ?cols (rb_columns (batch_of rs rows)) start ?n =
      Ok (extend_rows ?cols (take ?n (drop start rows)))"
    using builder_with_holds [OF assms(2)] nulls assms(3)
    by (intro append_block_ranges_ok) (auto simp: same_types_def list_all2_conv_all_nth batch_of_def builder_with_fields)
  moreover have "take ?n (drop start rows) = take len (drop start rows)" by (simp add: min_def)
  moreover have "extend_rows ?cols (take len (drop start rows)) = bb_builders (builder_with rs (acc @ take len (drop start rows)))"
    by (intro nth_equalityI) (simp_all add: extend_rows_simps builder_with_fields)
  ultimately show ?thesis
    using assms(3) batch_of_rows(2) [OF assms(1,2)]
    by (simp add: append_batch_range_def Let_def) (simp add: builder_with_def)
qed

lemma batch_slice_of:
  assumes "start + len \<le> length rows"
  shows "batch_slice (batch_of rs rows) start len = Ok (batch_of rs (take len (drop start rows)))"
proof -
  have "\<forall>c \<in> set (bb_builders (builder_with rs rows)). start + len \<le> length (cb_data c)"
    using assms builder_column_length by metis
  moreover have "map (\<lambda>c. c\<lparr>cb_data := take len (drop start (cb_data c))\<rparr>) (bb_builders (builder_with rs rows)) =
      bb_builders (builder_with rs (take len (drop start rows)))"
    by (intro nth_equalityI) (simp_all add: builder_with_fields take_map drop_map)
  ultimately show ?thesis by (simp add: batch_slice_def batch_of_def)
qed

section \<open>The order of rows\<close>

text \<open>Record schemas whose key columns are the columns of a key.\<close>

definition rs_key_ok :: "record_schema_with_key \<Rightarrow> bool" where
  "rs_key_ok rs \<longleftrightarrow> rs_cols rs \<noteq> [] \<and> rs_primary_key_indexes rs \<noteq> [] \<and>
     (\<forall>i \<in> set (rs_primary_key_indexes rs). i < length (rs_cols rs) \<and> is_key_kind (cs_data_type (rs_cols rs ! i)) \<and>
        \<not> cs_is_nullable (rs_cols rs ! i))"

definition row_key :: "record_schema_with_key \<Rightarrow> row \<Rightarrow> bytes" where
  "row_key rs row = concat (map (\<lambda>i. mem_repr (row ! i)) (rs_primary_key_indexes rs))"

lemma compare_rows:
  assumes "rs_key_ok rs" and "row_for rs r" and "row_for rs r'"
  shows "compare_row (rs_primary_key_indexes rs) r r' = (Ok (lin_cmp (row_key rs r) (row_key rs r')) :: ('e, _) result)"
proof -
  have "i < length q \<and> kind (q ! i) = cs_data_type (rs_cols rs ! i)"
    if "row_for rs q" "i \<in> set (rs_primary_key_indexes rs)" for q i
    using assms(1) that by (auto simp: rs_key_ok_def row_for_def list_all2_conv_all_nth check_datum_type_Ok split: if_splits)
  then have "\<forall>i \<in> set (rs_primary_key_indexes rs). i < length r \<and> i < length r' \<and> is_key_kind (kind (r ! i)) \<and> kind (r' ! i) = kind (r ! i)"
    using assms by (simp add: rs_key_ok_def)
  from key_order [OF this, where 'e = 'e] obtain c where c: "compare_row (rs_primary_key_indexes rs) r r' = (Ok c :: ('e, _) result)"
    "c = Equal \<longleftrightarrow> row_key rs r = row_key rs r'"
    "\<forall>x y. row_key rs r @ x < row_key rs r' @ y \<longleftrightarrow> c = Less \<or> c = Equal \<and> x < y" by (auto simp: row_key_def)
  have "row_key rs r < row_key rs r' \<longleftrightarrow> c = Less" using c(3) [rule_format, of "[]" "[]"] by simp
  with c(1,2) show ?thesis by (cases c) (auto simp: lin_cmp_def)
qed

text \<open>
  Rows with the sequence of the batch that they come from.  \<open>key_before\<close> is the strict order of
  their keys in the direction of the iterator; \<open>before\<close> the order in which they are returned, for
  equal keys the greater sequence first.
\<close>

type_synonym srow = "u64 \<times> row"

definition key_before :: "record_schema_with_key \<Rightarrow> bool \<Rightarrow> srow \<Rightarrow> srow \<Rightarrow> bool" where
  "key_before rs reverse x y \<longleftrightarrow>
     (if reverse then row_key rs (snd y) < row_key rs (snd x) else row_key rs (snd x) < row_key rs (snd y))"

definition before :: "record_schema_with_key \<Rightarrow> bool \<Rightarrow> srow \<Rightarrow> srow \<Rightarrow> bool" where
  "before rs reverse x y \<longleftrightarrow> key_before rs reverse x y \<or> row_key rs (snd x) = row_key rs (snd y) \<and> fst y \<le> fst x"

lemma before_refl [simp]: "before rs reverse x x"
  by (simp add: before_def)

lemma before_trans: "before rs reverse x y \<Longrightarrow> before rs reverse y z \<Longrightarrow> before rs reverse x z"
  by (auto simp: before_def key_before_def split: if_splits)

lemma before_total: "before rs reverse x y \<or> before rs reverse y x"
  by (auto simp: before_def key_before_def)

lemma key_before_before: "key_before rs reverse x y \<Longrightarrow> before rs reverse x y"
  by (simp add: before_def)

lemma key_before_trans: "before rs reverse x y \<Longrightarrow> key_before rs reverse y z \<Longrightarrow> key_before rs reverse x z"
  "key_before rs reverse x y \<Longrightarrow> before rs reverse y z \<Longrightarrow> key_before rs reverse x z"
  by (auto simp: before_def key_before_def split: if_splits)

section \<open>Streams in progress\<close>

definition batch_srows :: "sequenced_batch \<Rightarrow> srow list" where
  "batch_srows b = map (Pair (sq_sequence b)) (batch_rows (sq_batch b))"

definition stream_srows :: "'e batch_stream \<Rightarrow> srow list" where
  "stream_srows s = concat (map (\<lambda>item. case item of Ok b \<Rightarrow> batch_srows b | _ \<Rightarrow> []) s)"

lemma stream_srows_simps [simp]:
  "stream_srows [] = []" "stream_srows (Ok b # s) = batch_srows b @ stream_srows s"
  by (simp_all add: stream_srows_def)

definition items_ok :: "record_schema_with_key \<Rightarrow> 'e batch_stream \<Rightarrow> bool" where
  "items_ok rs s \<longleftrightarrow> (\<forall>item \<in> set s. \<exists>b. item = Ok b \<and> batch_ok rs (sq_batch b))"

definition buffered :: "'e buffered_stream \<Rightarrow> srow list" where
  "buffered st = (case st_state st of None \<Rightarrow> [] | Some bf \<Rightarrow> drop (bf_cursor bf) (batch_srows (bf_batch bf)))"

definition left :: "'e buffered_stream \<Rightarrow> srow list" where
  "left st = buffered st @ stream_srows (st_stream st)"

text \<open>A stream that is well formed, and one that has buffered rows.\<close>

definition stream_wf :: "record_schema_with_key \<Rightarrow> bool \<Rightarrow> 'e buffered_stream \<Rightarrow> bool" where
  "stream_wf rs reverse st \<longleftrightarrow> st_schema st = rs \<and> items_ok rs (st_stream st) \<and> sorted_wrt (before rs reverse) (left st) \<and>
     (\<exists>bf. st_state st = Some bf \<and> batch_ok rs (sq_batch (bf_batch bf)) \<and> bf_cursor bf \<le> bf_rows bf)"

definition live :: "record_schema_with_key \<Rightarrow> bool \<Rightarrow> 'e buffered_stream \<Rightarrow> bool" where
  "live rs reverse st \<longleftrightarrow> stream_wf rs reverse st \<and> buffered st \<noteq> []"

definition last_buffered :: "'e buffered_stream \<Rightarrow> srow" where
  "last_buffered st = last (buffered st)"

lemma srows_row_for:
  assumes "rs_cols rs \<noteq> []" and "batch_ok rs (sq_batch b)" and "x \<in> set (batch_srows b)"
  shows "row_for rs (snd x)" and "fst x = sq_sequence b"
  using assms batch_ok_rows(2) [OF assms(1,2)] by (auto simp: batch_srows_def)

lemma left_row_for:
  assumes "rs_cols rs \<noteq> []" and "stream_wf rs reverse st" and "x \<in> set (left st)"
  shows "row_for rs (snd x)"
proof -
  obtain bf where bf: "st_state st = Some bf" "batch_ok rs (sq_batch (bf_batch bf))" using assms(2) by (auto simp: stream_wf_def)
  have items: "items_ok rs (st_stream st)" using assms(2) by (simp add: stream_wf_def)
  consider "x \<in> set (batch_srows (bf_batch bf))" | b where "Ok b \<in> set (st_stream st)" "x \<in> set (batch_srows b)"
    using assms(3) bf(1) by (auto simp: left_def buffered_def stream_srows_def dest: in_set_dropD split: result.splits)
  then show ?thesis
  proof cases
    case 1
    then show ?thesis using srows_row_for(1) [OF assms(1) bf(2)] by simp
  next
    case 2
    then have "batch_ok rs (sq_batch b)" using items by (auto simp: items_ok_def)
    then show ?thesis using srows_row_for(1) [OF assms(1)] 2 by simp
  qed
qed

lemma live_state:
  assumes "rs_cols rs \<noteq> []" and "live rs reverse st"
  obtains bf where "st_state st = Some bf" and "bf_cursor bf < bf_rows bf"
    and "buffered st = map (Pair (sq_sequence (bf_batch bf))) (drop (bf_cursor bf) (batch_rows (sq_batch (bf_batch bf))))"
    and "sq_batch (bf_batch bf) = batch_of rs (batch_rows (sq_batch (bf_batch bf)))"
    and "\<forall>r \<in> set (batch_rows (sq_batch (bf_batch bf))). row_for rs r"
    and "bf_rows bf = length (batch_rows (sq_batch (bf_batch bf)))"
proof -
  obtain bf where bf: "st_state st = Some bf" "batch_ok rs (sq_batch (bf_batch bf))" using assms(2) by (auto simp: live_def stream_wf_def)
  have b: "buffered st = map (Pair (sq_sequence (bf_batch bf))) (drop (bf_cursor bf) (batch_rows (sq_batch (bf_batch bf))))"
    using bf(1) by (simp add: buffered_def batch_srows_def drop_map)
  note rows = batch_ok_rows [OF assms(1) bf(2)]
  have "bf_cursor bf < bf_rows bf" using assms(2) b rows(3) by (auto simp: live_def)
  then show ?thesis using that bf(1) b rows by blast
qed

lemma live_rows:
  assumes "rs_cols rs \<noteq> []" and "live rs reverse st"
  shows "first_row_in_buffer st = Ok (snd (hd (left st)))" and "last_row_in_buffer st = Ok (snd (last_buffered st))"
    and "\<exists>bf. the_state st = Ok bf \<and> sq_sequence (bf_batch bf) = fst (hd (left st))"
    and "hd (left st) \<in> set (left st)" and "last_buffered st \<in> set (buffered st)"
proof -
  obtain bf where bf: "st_state st = Some bf" "bf_cursor bf < bf_rows bf"
    "buffered st = map (Pair (sq_sequence (bf_batch bf))) (drop (bf_cursor bf) (batch_rows (sq_batch (bf_batch bf))))"
    "sq_batch (bf_batch bf) = batch_of rs (batch_rows (sq_batch (bf_batch bf)))"
    "\<forall>r \<in> set (batch_rows (sq_batch (bf_batch bf))). row_for rs r"
    "bf_rows bf = length (batch_rows (sq_batch (bf_batch bf)))" by (rule live_state [OF assms])
  let ?rows = "batch_rows (sq_batch (bf_batch bf))"
  have ne: "buffered st \<noteq> []" "?rows \<noteq> []" using bf(2,3,6) by auto
  have hd: "hd (left st) = (sq_sequence (bf_batch bf), ?rows ! bf_cursor bf)"
    using ne bf(2,3,6) by (simp add: left_def hd_drop_conv_nth hd_map)
  have last: "last_buffered st = (sq_sequence (bf_batch bf), ?rows ! (length ?rows - 1))"
    using ne bf(2,3,6) last_conv_nth [OF ne(2)] by (simp add: last_buffered_def last_map)
  have clone: "clone_row_at (sq_batch (bf_batch bf)) i = ?rows ! i" if "i < length ?rows" for i
    using batch_of_rows(3) [OF assms(1) bf(5) that] bf(4) by simp
  show "first_row_in_buffer st = Ok (snd (hd (left st)))" "last_row_in_buffer st = Ok (snd (last_buffered st))"
    using bf(1,2,6) hd last clone
    by (simp_all add: first_row_in_buffer_def last_row_in_buffer_def the_state_def state_first_row_def state_last_row_def)
  show "\<exists>bf. the_state st = Ok bf \<and> sq_sequence (bf_batch bf) = fst (hd (left st))" using bf(1) hd by (simp add: the_state_def)
  show "hd (left st) \<in> set (left st)" using ne by (simp add: left_def)
  show "last_buffered st \<in> set (buffered st)" using ne by (simp add: last_buffered_def)
qed

section \<open>Heaps\<close>

text \<open>What is used of \<open>std::collections::BinaryHeap\<close>, for elements that are totally ordered.\<close>

definition totally_ordered :: "bool \<Rightarrow> 'e buffered_stream list \<Rightarrow> bool" where
  "totally_ordered reverse h \<longleftrightarrow>
     (\<forall>a \<in> set h. \<forall>b \<in> set h. \<exists>c. stream_cmp reverse a b = (Ok c :: (unit, _) result)) \<and>
     (\<forall>a \<in> set h. \<forall>b \<in> set h. stream_cmp reverse a b = (Ok Less :: (unit, _) result) \<longrightarrow> stream_cmp reverse b a = (Ok Greater :: (unit, _) result)) \<and>
     (\<forall>a \<in> set h. \<forall>b \<in> set h. \<forall>c \<in> set h. stream_cmp reverse a b \<noteq> (Ok Less :: (unit, _) result) \<and>
        stream_cmp reverse b c \<noteq> (Ok Less :: (unit, _) result) \<longrightarrow> stream_cmp reverse a c \<noteq> (Ok Less :: (unit, _) result))"

definition heap_ok :: "bool \<Rightarrow> 'e heap_top \<Rightarrow> bool" where
  "heap_ok reverse tp \<longleftrightarrow> (\<forall>h. h \<noteq> [] \<and> totally_ordered reverse h \<longrightarrow>
     tp h < length h \<and> (\<forall>a \<in> set h. stream_cmp reverse (h ! tp h) a \<noteq> (Ok Less :: (unit, _) result)))"

lemma stream_cmp_live:
  assumes "rs_key_ok rs" and "live rs reverse a" and "live rs reverse b"
  shows "\<exists>c. stream_cmp reverse a b = (Ok c :: ('f, _) result) \<and>
    (c = Less \<longleftrightarrow> \<not> before rs reverse (hd (left a)) (hd (left b))) \<and> (c = Greater \<longleftrightarrow> \<not> before rs reverse (hd (left b)) (hd (left a)))"
proof -
  have cols: "rs_cols rs \<noteq> []" using assms(1) by (simp add: rs_key_ok_def)
  note a = live_rows [OF cols assms(2)] and b = live_rows [OF cols assms(3)]
  have wf: "stream_wf rs reverse a" "stream_wf rs reverse b" using assms by (simp_all add: live_def)
  have rows: "row_for rs (snd (hd (left a)))" "row_for rs (snd (hd (left b)))"
    using left_row_for [OF cols wf(1) a(4)] left_row_for [OF cols wf(2) b(4)] .
  have sch: "st_schema a = rs" using wf by (simp add: stream_wf_def)
  obtain s t where st: "the_state a = (Ok s :: ('f, _) result)" "sq_sequence (bf_batch s) = fst (hd (left a))"
    "the_state b = (Ok t :: ('f, _) result)" "sq_sequence (bf_batch t) = fst (hd (left b))" using a(3) b(3) by blast
  have first: "first_row_in_buffer a = (Ok (snd (hd (left a))) :: ('f, _) result)"
    "first_row_in_buffer b = (Ok (snd (hd (left b))) :: ('f, _) result)" by (rule a(1), rule b(1))
  show ?thesis
    unfolding stream_cmp_def first res_bind.simps sch st(1,3) compare_rows [OF assms(1) rows, where 'e = 'f]
      compare_rows [OF assms(1) rows(2,1), where 'e = 'f] before_def key_before_def
    using st(2,4) by (auto simp: lin_cmp_def)
qed

lemma live_totally_ordered:
  assumes "rs_key_ok rs" and "\<forall>st \<in> set h. live rs reverse st"
  shows "totally_ordered reverse h"
proof -
  have c: "\<exists>c. stream_cmp reverse a b = (Ok c :: (unit, _) result) \<and>
      (c = Less \<longleftrightarrow> \<not> before rs reverse (hd (left a)) (hd (left b))) \<and> (c = Greater \<longleftrightarrow> \<not> before rs reverse (hd (left b)) (hd (left a)))"
    if "a \<in> set h" "b \<in> set h" for a b using stream_cmp_live [OF assms(1), where 'f = unit] assms(2) that by blast
  then have lt: "stream_cmp reverse a b = (Ok Less :: (unit, _) result) \<longleftrightarrow> \<not> before rs reverse (hd (left a)) (hd (left b))"
    and gt: "stream_cmp reverse a b = (Ok Greater :: (unit, _) result) \<longleftrightarrow> \<not> before rs reverse (hd (left b)) (hd (left a))"
    if "a \<in> set h" "b \<in> set h" for a b using that by (metis result.inject(1))+
  show ?thesis unfolding totally_ordered_def using c lt gt by (meson before_trans)
qed

lemma heap_top_live:
  assumes "rs_key_ok rs" and "heap_ok reverse tp" and "\<forall>st \<in> set h. live rs reverse st" and "h \<noteq> []"
  shows "tp h < length h" and "\<forall>st \<in> set h. before rs reverse (hd (left (h ! tp h))) (hd (left st))"
proof -
  have t: "tp h < length h" "\<forall>a \<in> set h. stream_cmp reverse (h ! tp h) a \<noteq> (Ok Less :: (unit, _) result)"
    using assms(2,4) live_totally_ordered [OF assms(1,3)] by (simp_all add: heap_ok_def)
  show "tp h < length h" by (rule t(1))
  have "before rs reverse (hd (left (h ! tp h))) (hd (left st))" if "st \<in> set h" for st
    using stream_cmp_live [OF assms(1), of reverse "h ! tp h" st, where 'f = unit] assms(3) that t by (metis nth_mem)
  then show "\<forall>st \<in> set h. before rs reverse (hd (left (h ! tp h))) (hd (left st))" by blast
qed

lemma heap_pop_live:
  assumes "rs_key_ok rs" and "heap_ok reverse tp" and "\<forall>st \<in> set h. live rs reverse st" and "h \<noteq> []"
  shows "\<exists>x h'. heap_pop tp h = (Ok (x, h') :: ('f, _) result) \<and> heap_peek tp h = (Ok x :: ('f, _) result) \<and> mset h = add_mset x (mset h') \<and>
    (\<forall>st \<in> set h. before rs reverse (hd (left x)) (hd (left st)))"
proof -
  note t = heap_top_live [OF assms]
  have "mset h = add_mset (h ! tp h) (mset (take (tp h) h @ drop (Suc (tp h)) h))"
    using id_take_nth_drop [OF t(1)] by (metis add_mset_add_single mset.simps(2) mset_append union_mset_add_mset_right)
  then show ?thesis using t by (simp add: heap_pop_def heap_peek_def index_res_def)
qed

text \<open>Everything that is left of a stream comes after its first row.\<close>

lemma hd_before:
  assumes "live rs reverse st" and "x \<in> set (left st)"
  shows "before rs reverse (hd (left st)) x"
proof -
  obtain y ys where "left st = y # ys" using assms(1) by (cases "left st") (auto simp: live_def left_def)
  then show ?thesis using assms by (auto simp: live_def stream_wf_def)
qed

section \<open>The window of the merge\<close>

text \<open>
  The hot heap has a stream whose buffered rows all come before the first row of every cold stream,
  so that the next row is in the hot heap.
\<close>

definition window :: "record_schema_with_key \<Rightarrow> bool \<Rightarrow> 'e buffered_stream list \<Rightarrow> 'e buffered_stream list \<Rightarrow> bool" where
  "window rs reverse hot cold \<longleftrightarrow>
     cold = [] \<or> (\<exists>h \<in> set hot. \<forall>c \<in> set cold. key_before rs reverse (last_buffered h) (hd (left c)))"

definition rows_left :: "'e buffered_stream multiset \<Rightarrow> srow multiset" where
  "rows_left m = \<Sum>\<^sub># (image_mset (\<lambda>st. mset (left st)) m)"

lemma rows_left_simps [simp]:
  "rows_left {#} = {#}" "rows_left (add_mset st m) = mset (left st) + rows_left m" "rows_left (m + m') = rows_left m + rows_left m'"
  by (simp_all add: rows_left_def)

lemma in_rows_left: "x \<in># rows_left m \<longleftrightarrow> (\<exists>st \<in># m. x \<in> set (left st))"
  by (induction m) auto

lemma is_after_boundary_live:
  assumes "rs_key_ok rs" and "live rs reverse st" and "row_for rs r"
  shows "is_after_boundary rs reverse st r = (Ok (key_before rs reverse (n, r) (hd (left st))) :: ('f, _) result)"
proof -
  have cols: "rs_cols rs \<noteq> []" using assms(1) by (simp add: rs_key_ok_def)
  note rows = live_rows [OF cols assms(2)]
  have wf: "stream_wf rs reverse st" using assms(2) by (simp add: live_def)
  note row = left_row_for [OF cols wf rows(4)]
  have first: "first_row_in_buffer st = (Ok (snd (hd (left st))) :: ('f, _) result)" by (rule rows(1))
  show ?thesis
    unfolding is_after_boundary_def first res_bind.simps compare_rows [OF assms(1) row assms(3), where 'e = 'f]
      compare_rows [OF assms(1) assms(3) row, where 'e = 'f] key_before_def
    by (auto simp: lin_cmp_def)
qed

lemma last_buffered_row_for:
  assumes "rs_cols rs \<noteq> []" and "live rs reverse st"
  shows "row_for rs (snd (last_buffered st))"
  using left_row_for [OF assms(1), of reverse st "last_buffered st"] live_rows(5) [OF assms] assms(2)
  by (simp add: live_def left_def)

text \<open>Comparing the top of a heap with the end of the window.\<close>

lemma peek_window_end:
  assumes "rs_key_ok rs" and "heap_ok reverse tp" and "\<forall>st \<in> set hot. live rs reverse st" and "hot \<noteq> []" and "live rs reverse w"
  shows "\<exists>h \<in> set hot. heap_peek tp hot = (Ok h :: ('f, _) result) \<and> last_row_in_buffer h = (Ok (snd (last_buffered h)) :: ('f, _) result) \<and>
    is_after_boundary rs reverse w (snd (last_buffered h)) = (Ok (key_before rs reverse (last_buffered h) (hd (left w))) :: ('f, _) result)"
proof -
  have cols: "rs_cols rs \<noteq> []" using assms(1) by (simp add: rs_key_ok_def)
  obtain h hot' where h: "heap_peek tp hot = (Ok h :: ('f, _) result)" "mset hot = add_mset h (mset hot')"
    using heap_pop_live [OF assms(1-4)] by (auto simp: heap_peek_def)
  have mem: "h \<in> set hot" using h(2) by (metis set_mset_mset union_single_eq_member)
  then have lv: "live rs reverse h" using assms(3) by blast
  have "last_row_in_buffer h = (Ok (snd (last_buffered h)) :: ('f, _) result)" by (rule live_rows(2) [OF cols lv])
  moreover have "is_after_boundary rs reverse w (snd (last_buffered h)) =
      (Ok (key_before rs reverse (last_buffered h) (hd (left w))) :: ('f, _) result)"
    using is_after_boundary_live [OF assms(1,5) last_buffered_row_for [OF cols lv], of "fst (last_buffered h)", where 'f = 'f] by simp
  ultimately show ?thesis using h(1) mem by blast
qed

lemma refill_loop_ok:
  assumes "rs_key_ok rs" and "heap_ok reverse tp" and "\<forall>st \<in> set hot. live rs reverse st" and "\<forall>st \<in> set cold. live rs reverse st"
    and "n = length cold"
  shows "\<exists>hot' cold'. refill_loop tp rs reverse n hot cold = Ok (hot', cold') \<and> mset hot' + mset cold' = mset hot + mset cold \<and>
    window rs reverse hot' cold' \<and> (hot' = [] \<longrightarrow> hot = [] \<and> cold = [])"
  using assms(3-5)
proof (induction n arbitrary: hot cold)
  case 0
  then show ?case by (auto simp: window_def)
next
  case (Suc n)
  then have ne: "cold \<noteq> []" by auto
  obtain w cold' where w: "heap_pop tp cold = (Ok (w, cold') :: ('a merge_error, _) result)"
    "heap_peek tp cold = (Ok w :: ('a merge_error, _) result)" "mset cold = add_mset w (mset cold')"
    "\<forall>st \<in> set cold. before rs reverse (hd (left w)) (hd (left st))"
    using heap_pop_live [OF assms(1,2) Suc(3) ne, where 'f = "'a merge_error"] by blast
  have sub: "set cold = insert w (set cold')" using w(3) by (metis set_mset_add_mset_insert set_mset_mset)
  have len: "n = length cold'" using w(3) Suc(4) by (metis diff_Suc_1 size_add_mset size_mset)
  have lw: "live rs reverse w" using Suc(3) sub by simp
  have IH: "\<exists>hot' cold''. refill_loop tp rs reverse n (w # hot) cold' = Ok (hot', cold'') \<and>
      mset hot' + mset cold'' = mset (w # hot) + mset cold' \<and> window rs reverse hot' cold'' \<and> (hot' = [] \<longrightarrow> w # hot = [] \<and> cold' = [])"
    using Suc(2,3) sub len by (intro Suc(1)) auto
  then have move: "\<exists>hot' cold''. refill_loop tp rs reverse n (w # hot) cold' = Ok (hot', cold'') \<and>
      mset hot' + mset cold'' = mset hot + mset cold \<and> window rs reverse hot' cold'' \<and> (hot' = [] \<longrightarrow> hot = [] \<and> cold = [])"
    using w(3) by auto
  show ?case
  proof (cases "hot = []")
    case True
    then show ?thesis using move ne w(1) by simp
  next
    case False
    obtain h where h: "h \<in> set hot" "heap_peek tp hot = (Ok h :: ('a merge_error, _) result)"
      "last_row_in_buffer h = (Ok (snd (last_buffered h)) :: ('a merge_error, _) result)"
      "is_after_boundary rs reverse w (snd (last_buffered h)) =
        (Ok (key_before rs reverse (last_buffered h) (hd (left w))) :: ('a merge_error, _) result)"
      using peek_window_end [OF assms(1,2) Suc(2) False lw] by blast
    show ?thesis
    proof (cases "key_before rs reverse (last_buffered h) (hd (left w))")
      case True
      then have "\<forall>c \<in> set cold. key_before rs reverse (last_buffered h) (hd (left c))" using w(4) key_before_trans(2) by blast
      then have "window rs reverse hot cold" using h(1) by (auto simp: window_def)
      then show ?thesis using ne False h(2-4) w(2) True by simp
    next
      case nc: False
      then show ?thesis using move ne False h(2-4) w(1,2) by simp
    qed
  qed
qed

section \<open>One step of the merge\<close>

lemma pull_non_empty:
  assumes "rs_cols rs \<noteq> []" and "items_ok rs s"
  shows "(\<exists>b s'. pull_next_non_empty_batch s = Ok (Some b, s') \<and> stream_srows s = batch_srows b @ stream_srows s' \<and>
      items_ok rs s' \<and> batch_ok rs (sq_batch b) \<and> batch_srows b \<noteq> []) \<or>
    (pull_next_non_empty_batch s = Ok (None, []) \<and> stream_srows s = [])"
  using assms(2)
proof (induction s)
  case (Cons item s)
  then obtain b where b: "item = Ok b" "batch_ok rs (sq_batch b)" and s: "items_ok rs s" by (auto simp: items_ok_def)
  have "batch_num_rows (sq_batch b) = length (batch_srows b)"
    using batch_ok_rows(3) [OF assms(1) b(2)] by (simp add: batch_srows_def)
  then show ?case using b s Cons(1) [OF s] by (cases "batch_srows b") auto
qed simp

text \<open>A stream that has handed out the first rows of its buffer.\<close>

definition advanced :: "record_schema_with_key \<Rightarrow> bool \<Rightarrow> 'e buffered_stream \<Rightarrow> srow list \<Rightarrow> 'e buffered_stream \<Rightarrow> bool" where
  "advanced rs reverse st e st' \<longleftrightarrow> stream_wf rs reverse st' \<and> buffered st = e @ buffered st' \<and> st_stream st' = st_stream st"

lemma cursor_advanced:
  assumes "live rs reverse st" and "st_state st = Some bf" and "k \<le> length (buffered st)"
  shows "advanced rs reverse st (take k (buffered st)) (st\<lparr>st_state := Some (bf\<lparr>bf_cursor := bf_cursor bf + k\<rparr>)\<rparr>)"
proof -
  let ?st = "st\<lparr>st_state := Some (bf\<lparr>bf_cursor := bf_cursor bf + k\<rparr>)\<rparr>"
  have b: "buffered ?st = drop k (buffered st)" using assms(2) by (simp add: buffered_def add.commute)
  then have "left st = take k (buffered st) @ left ?st" by (simp add: left_def)
  moreover have "sorted_wrt (before rs reverse) (left st)" using assms(1) by (simp add: live_def stream_wf_def)
  ultimately have "sorted_wrt (before rs reverse) (left ?st)" by (simp add: sorted_wrt_append)
  moreover have "length (buffered st) = length (batch_rows (sq_batch (bf_batch bf))) - bf_cursor bf"
    using assms(2) by (simp add: buffered_def batch_srows_def)
  moreover have "length (batch_rows (sq_batch (bf_batch bf))) = bf_rows bf" by (simp add: batch_rows_def)
  ultimately have "stream_wf rs reverse ?st" using assms by (auto simp: live_def stream_wf_def)
  then show ?thesis using b by (simp add: advanced_def)
qed

lemma append_next_row_ok:
  assumes "rs_cols rs \<noteq> []" and "live rs reverse st"
  shows "\<exists>st'. append_next_row st (builder_with rs acc) = Ok (builder_with rs (acc @ [snd (hd (left st))]), st') \<and>
    advanced rs reverse st [hd (left st)] st'"
proof -
  obtain bf where bf: "st_state st = Some bf" "bf_cursor bf < bf_rows bf"
    "buffered st = map (Pair (sq_sequence (bf_batch bf))) (drop (bf_cursor bf) (batch_rows (sq_batch (bf_batch bf))))"
    "sq_batch (bf_batch bf) = batch_of rs (batch_rows (sq_batch (bf_batch bf)))"
    "\<forall>r \<in> set (batch_rows (sq_batch (bf_batch bf))). row_for rs r"
    "bf_rows bf = length (batch_rows (sq_batch (bf_batch bf)))" by (rule live_state [OF assms])
  let ?rows = "batch_rows (sq_batch (bf_batch bf))"
  have ne: "buffered st \<noteq> []" using assms(2) by (simp add: live_def)
  have hd: "hd (left st) = (sq_sequence (bf_batch bf), ?rows ! bf_cursor bf)"
    using ne bf(2,3,6) by (simp add: left_def hd_drop_conv_nth hd_map)
  have "take 1 (buffered st) = [hd (left st)]" using ne by (cases "buffered st") (simp_all add: left_def)
  then have adv: "advanced rs reverse st [hd (left st)] (st\<lparr>st_state := Some (bf\<lparr>bf_cursor := bf_cursor bf + 1\<rparr>)\<rparr>)"
    using cursor_advanced [OF assms(2) bf(1), of 1] ne by (simp add: Suc_le_eq)
  have "append_row_view (builder_with rs acc) (sq_batch (bf_batch bf)) (bf_cursor bf) =
      Ok (builder_with rs (acc @ [snd (hd (left st))]))"
    using append_row_view_of [OF bf(5), of "bf_cursor bf" acc] bf(2,4,6) hd by simp
  then show ?thesis using adv bf(1,2) by (simp add: append_next_row_def the_state_def)
qed

lemma append_rows_to_ok:
  assumes "rs_cols rs \<noteq> []" and "live rs reverse st" and "0 < len"
  shows "\<exists>e st' n. append_rows_to st (builder_with rs acc) len = Ok (n, builder_with rs (acc @ map snd e), st') \<and>
    advanced rs reverse st e st' \<and> e \<noteq> [] \<and> length e \<le> len"
proof -
  obtain bf where bf: "st_state st = Some bf" "bf_cursor bf < bf_rows bf"
    "buffered st = map (Pair (sq_sequence (bf_batch bf))) (drop (bf_cursor bf) (batch_rows (sq_batch (bf_batch bf))))"
    "sq_batch (bf_batch bf) = batch_of rs (batch_rows (sq_batch (bf_batch bf)))"
    "\<forall>r \<in> set (batch_rows (sq_batch (bf_batch bf))). row_for rs r"
    "bf_rows bf = length (batch_rows (sq_batch (bf_batch bf)))" by (rule live_state [OF assms(1,2)])
  let ?rows = "batch_rows (sq_batch (bf_batch bf))"
  let ?n = "min (length ?rows - bf_cursor bf) len" and ?e = "take len (buffered st)"
  have e: "map snd ?e = take len (drop (bf_cursor bf) ?rows)" using bf(3) by (simp add: take_map comp_def)
  have "take ?n (buffered st) = ?e" using bf(3) by (auto simp: min_def)
  then have "advanced rs reverse st ?e (st\<lparr>st_state := Some (bf\<lparr>bf_cursor := bf_cursor bf + ?n\<rparr>)\<rparr>)"
    using cursor_advanced [OF assms(2) bf(1), of ?n] bf(3) by simp
  moreover have "append_batch_range (builder_with rs acc) (sq_batch (bf_batch bf)) (bf_cursor bf) len =
      Ok (?n, builder_with rs (acc @ map snd ?e))"
    using append_batch_range_of [OF assms(1) bf(5), of "bf_cursor bf" acc len] bf(2,4,6) e by simp
  moreover have "?e \<noteq> []" using assms(2,3) by (simp add: live_def)
  ultimately show ?thesis using bf(1) by (intro exI [of _ ?e]) (simp add: append_rows_to_def the_state_def)
qed

lemma take_record_batch_slice_ok:
  assumes "rs_cols rs \<noteq> []" and "live rs reverse st" and "0 < len"
  shows "\<exists>e st'. take_record_batch_slice st len = Ok (batch_of rs (map snd e), st') \<and>
    advanced rs reverse st e st' \<and> e \<noteq> [] \<and> length e \<le> len"
proof -
  obtain bf where bf: "st_state st = Some bf" "bf_cursor bf < bf_rows bf"
    "buffered st = map (Pair (sq_sequence (bf_batch bf))) (drop (bf_cursor bf) (batch_rows (sq_batch (bf_batch bf))))"
    "sq_batch (bf_batch bf) = batch_of rs (batch_rows (sq_batch (bf_batch bf)))"
    "\<forall>r \<in> set (batch_rows (sq_batch (bf_batch bf))). row_for rs r"
    "bf_rows bf = length (batch_rows (sq_batch (bf_batch bf)))" by (rule live_state [OF assms(1,2)])
  let ?rows = "batch_rows (sq_batch (bf_batch bf))"
  let ?n = "min (length ?rows - bf_cursor bf) len" and ?e = "take len (buffered st)"
  have e: "take ?n (drop (bf_cursor bf) ?rows) = map snd ?e" using bf(3) by (auto simp: take_map comp_def min_def)
  have "\<forall>r \<in> set (map snd ?e). row_for rs r" unfolding e [symmetric] using bf(5) by (auto dest: in_set_takeD in_set_dropD)
  then have rows: "batch_num_rows (batch_of rs (map snd ?e)) = ?n"
    using batch_of_rows(2) [OF assms(1)] bf(3) by (simp add: min.commute)
  have "take ?n (buffered st) = ?e" using bf(3) by (auto simp: min_def)
  then have "advanced rs reverse st ?e (st\<lparr>st_state := Some (bf\<lparr>bf_cursor := bf_cursor bf + ?n\<rparr>)\<rparr>)"
    using cursor_advanced [OF assms(2) bf(1), of ?n] bf(3) by simp
  moreover have "batch_slice (sq_batch (bf_batch bf)) (bf_cursor bf) ?n = Ok (batch_of rs (map snd ?e))"
    using batch_slice_of [of "bf_cursor bf" ?n ?rows rs] bf(2,4,6) e by simp
  moreover have "?e \<noteq> []" using assms(2,3) by (simp add: live_def)
  ultimately show ?thesis using bf(1,2,6) rows
    by (intro exI [of _ ?e]) (simp add: take_record_batch_slice_def the_state_def Let_def view_of_def)
qed

text \<open>The state of the iterator between two steps.\<close>

definition merge_inv :: "record_schema_with_key \<Rightarrow> bool \<Rightarrow> 'e merge_iterator \<Rightarrow> bool" where
  "merge_inv rs reverse mi \<longleftrightarrow> mi_inited mi \<and> mi_schema mi = rs \<and> mi_reverse mi = reverse \<and>
     (\<forall>st \<in> set (mi_hot mi). live rs reverse st) \<and> (\<forall>st \<in> set (mi_cold mi). live rs reverse st) \<and>
     window rs reverse (mi_hot mi) (mi_cold mi) \<and> (mi_hot mi = [] \<longrightarrow> mi_cold mi = [])"

definition remaining :: "'e merge_iterator \<Rightarrow> srow multiset" where
  "remaining mi = rows_left (mset (mi_hot mi) + mset (mi_cold mi))"

lemma refill_hot_ok:
  assumes "rs_key_ok rs" and "heap_ok reverse tp" and "\<forall>st \<in> set (mi_hot mi). live rs reverse st"
    and "\<forall>st \<in> set (mi_cold mi). live rs reverse st" and "mi_schema mi = rs" and "mi_reverse mi = reverse"
  shows "\<exists>hot cold. refill_hot tp mi = Ok (mi\<lparr>mi_hot := hot, mi_cold := cold\<rparr>) \<and>
    mset hot + mset cold = mset (mi_hot mi) + mset (mi_cold mi) \<and> window rs reverse hot cold \<and> (hot = [] \<longrightarrow> cold = []) \<and>
    (\<forall>st \<in> set hot. live rs reverse st) \<and> (\<forall>st \<in> set cold. live rs reverse st)"
proof -
  obtain hot cold where r: "refill_loop tp rs reverse (length (mi_cold mi)) (mi_hot mi) (mi_cold mi) = Ok (hot, cold)"
    "mset hot + mset cold = mset (mi_hot mi) + mset (mi_cold mi)" "window rs reverse hot cold"
    "hot = [] \<longrightarrow> mi_hot mi = [] \<and> mi_cold mi = []" using refill_loop_ok [OF assms(1-4) refl] by blast
  have "set hot \<union> set cold = set (mi_hot mi) \<union> set (mi_cold mi)" using r(2) by (metis set_mset_mset set_mset_union)
  then have "(\<forall>st \<in> set hot. live rs reverse st) \<and> (\<forall>st \<in> set cold. live rs reverse st)" using assms(3,4) by blast
  moreover have "hot = [] \<longrightarrow> cold = []" using r(2,4) by auto
  ultimately show ?thesis using r assms(5,6) by (auto simp: refill_hot_def)
qed

lemma refill_inv:
  assumes "rs_key_ok rs" and "heap_ok reverse tp" and "\<forall>st \<in> set (mi_hot mi). live rs reverse st"
    and "\<forall>st \<in> set (mi_cold mi). live rs reverse st" and "mi_schema mi = rs" and "mi_reverse mi = reverse" and "mi_inited mi"
  shows "\<exists>hot cold. refill_hot tp mi = Ok (mi\<lparr>mi_hot := hot, mi_cold := cold\<rparr>) \<and>
    merge_inv rs reverse (mi\<lparr>mi_hot := hot, mi_cold := cold\<rparr>) \<and> remaining (mi\<lparr>mi_hot := hot, mi_cold := cold\<rparr>) = remaining mi"
proof -
  obtain hot cold where r: "refill_hot tp mi = Ok (mi\<lparr>mi_hot := hot, mi_cold := cold\<rparr>)"
    "mset hot + mset cold = mset (mi_hot mi) + mset (mi_cold mi)" "window rs reverse hot cold" "hot = [] \<longrightarrow> cold = []"
    "\<forall>st \<in> set hot. live rs reverse st" "\<forall>st \<in> set cold. live rs reverse st" using refill_hot_ok [OF assms(1-6)] by blast
  then have "merge_inv rs reverse (mi\<lparr>mi_hot := hot, mi_cold := cold\<rparr>)" using assms(5-7) by (simp add: merge_inv_def)
  moreover have "remaining (mi\<lparr>mi_hot := hot, mi_cold := cold\<rparr>) = remaining mi"
    by (simp add: remaining_def r(2) del: rows_left_simps)
  ultimately show ?thesis using r(1) by blast
qed

text \<open>\<open>reheap\<close> puts the rows that are left of a stream back, wherever they belong.\<close>

lemma reheap_ok:
  assumes "rs_key_ok rs" and "heap_ok reverse tp" and "stream_wf rs reverse st"
    and "\<forall>st \<in> set (mi_hot mi). live rs reverse st" and "\<forall>st \<in> set (mi_cold mi). live rs reverse st"
    and "mi_schema mi = rs" and "mi_reverse mi = reverse" and "mi_inited mi"
    and "buffered st \<noteq> [] \<Longrightarrow> window rs reverse (st # mi_hot mi) (mi_cold mi)"
  shows "\<exists>hot cold. reheap tp st mi = Ok (mi\<lparr>mi_hot := hot, mi_cold := cold\<rparr>) \<and>
    merge_inv rs reverse (mi\<lparr>mi_hot := hot, mi_cold := cold\<rparr>) \<and>
    remaining (mi\<lparr>mi_hot := hot, mi_cold := cold\<rparr>) = mset (left st) + remaining mi"
proof -
  have cols: "rs_cols rs \<noteq> []" using assms(1) by (simp add: rs_key_ok_def)
  obtain bf where bf: "st_state st = Some bf" "batch_ok rs (sq_batch (bf_batch bf))" "bf_cursor bf \<le> bf_rows bf"
    and items: "items_ok rs (st_stream st)" using assms(3) by (auto simp: stream_wf_def)
  have drained: "buffered st = [] \<longleftrightarrow> \<not> bf_cursor bf < bf_rows bf" using bf by (auto simp: buffered_def batch_srows_def batch_rows_def)
  show ?thesis
  proof (cases "buffered st = []")
    case False
    then have "merge_inv rs reverse (mi\<lparr>mi_hot := st # mi_hot mi, mi_cold := mi_cold mi\<rparr>)"
      using assms by (auto simp: merge_inv_def live_def)
    moreover have "reheap tp st mi = Ok (mi\<lparr>mi_hot := st # mi_hot mi, mi_cold := mi_cold mi\<rparr>)"
      using False drained bf(1) by (simp add: reheap_def pull_next_batch_if_necessary_def)
    moreover have "remaining (mi\<lparr>mi_hot := st # mi_hot mi, mi_cold := mi_cold mi\<rparr>) = mset (left st) + remaining mi"
      by (simp add: remaining_def)
    ultimately show ?thesis by blast
  next
    case True
    consider b s where "pull_next_non_empty_batch (st_stream st) = Ok (Some b, s)"
        "stream_srows (st_stream st) = batch_srows b @ stream_srows s" "items_ok rs s" "batch_ok rs (sq_batch b)" "batch_srows b \<noteq> []"
      | "pull_next_non_empty_batch (st_stream st) = Ok (None, [])" "stream_srows (st_stream st) = []"
      using pull_non_empty [OF cols items] by blast
    then show ?thesis
    proof cases
      case 1
      define st' where "st' = st\<lparr>st_stream := s, st_state := Some \<lparr>bf_batch = b, bf_cursor = 0\<rparr>\<rparr>"
      have left: "left st' = left st" and buf: "buffered st' \<noteq> []" using 1 True by (auto simp: left_def buffered_def st'_def)
      then have lv: "live rs reverse st'" using assms(3) 1 unfolding live_def stream_wf_def by (auto simp: st'_def)
      have pull: "pull_next_batch_if_necessary st = Ok (True, st')"
        using 1(1) True drained bf(1) by (simp add: pull_next_batch_if_necessary_def st'_def)
      have "\<exists>b. (if mi_hot mi = [] then Ok False
          else res_bind (heap_peek tp (mi_hot mi)) (\<lambda>hottest. res_bind (last_row_in_buffer hottest) (\<lambda>end_row.
               is_after_boundary rs reverse st' end_row))) = (Ok b :: ('a merge_error, _) result)"
        using peek_window_end [OF assms(1,2,4) _ lv, where 'f = "'a merge_error"] by (cases "mi_hot mi = []") auto
      then obtain c where c: "(if mi_hot mi = [] then Ok False
          else res_bind (heap_peek tp (mi_hot mi)) (\<lambda>hottest. res_bind (last_row_in_buffer hottest) (\<lambda>end_row.
               is_after_boundary rs reverse st' end_row))) = (Ok c :: ('a merge_error, _) result)" by blast
      let ?mi = "if c then mi\<lparr>mi_cold := st' # mi_cold mi\<rparr> else mi\<lparr>mi_hot := st' # mi_hot mi\<rparr>"
      have "\<exists>hot cold. refill_hot tp ?mi = Ok (?mi\<lparr>mi_hot := hot, mi_cold := cold\<rparr>) \<and>
          merge_inv rs reverse (?mi\<lparr>mi_hot := hot, mi_cold := cold\<rparr>) \<and> remaining (?mi\<lparr>mi_hot := hot, mi_cold := cold\<rparr>) = remaining ?mi"
        using assms lv by (intro refill_inv) auto
      moreover have "remaining ?mi = mset (left st) + remaining mi" using left by (simp add: remaining_def)
      moreover have "?mi\<lparr>mi_hot := hot, mi_cold := cold\<rparr> = mi\<lparr>mi_hot := hot, mi_cold := cold\<rparr>" for hot cold by simp
      moreover have "reheap tp st mi = refill_hot tp ?mi"
        unfolding reheap_def pull res_bind.simps assms(6,7) prod.case c by (simp add: st'_def)
      ultimately show ?thesis by simp
    next
      case 2
      then have "reheap tp st mi = refill_hot tp mi"
        using True drained bf(1) by (simp add: reheap_def pull_next_batch_if_necessary_def)
      moreover have "mset (left st) = {#}" using True 2 by (simp add: left_def)
      ultimately show ?thesis using refill_inv [OF assms(1,2,4-8)] by simp
    qed
  qed
qed

text \<open>The iterator has handed out the rows \<open>e\<close>, in order and before all others.\<close>

definition emits :: "record_schema_with_key \<Rightarrow> bool \<Rightarrow> 'e merge_iterator \<Rightarrow> srow list \<Rightarrow> 'e merge_iterator \<Rightarrow> bool" where
  "emits rs reverse mi e mi' \<longleftrightarrow> merge_inv rs reverse mi' \<and> mi_batch_size mi' = mi_batch_size mi \<and>
     remaining mi = mset e + remaining mi' \<and> sorted_wrt (before rs reverse) e \<and>
     (\<forall>x \<in> set e. \<forall>y \<in># remaining mi'. before rs reverse x y) \<and> (\<forall>x \<in> set e. row_for rs (snd x))"

lemma emits_nil: "merge_inv rs reverse mi \<Longrightarrow> emits rs reverse mi [] mi"
  by (simp add: emits_def)

lemma emits_append:
  assumes "emits rs reverse mi e mi'" and "emits rs reverse mi' e' mi''"
  shows "emits rs reverse mi (e @ e') mi''"
  using assms by (auto simp: emits_def sorted_wrt_append)

lemma live_left_row_for: "rs_cols rs \<noteq> [] \<Longrightarrow> live rs reverse st \<Longrightarrow> x \<in> set (left st) \<Longrightarrow> row_for rs (snd x)"
  by (rule left_row_for [of _ reverse]) (simp_all add: live_def)

lemma buffered_before_last: "live rs reverse st \<Longrightarrow> x \<in> set (buffered st) \<Longrightarrow> before rs reverse x (last_buffered st)"
proof -
  assume a: "live rs reverse st" "x \<in> set (buffered st)"
  then have "sorted_wrt (before rs reverse) (butlast (buffered st) @ [last (buffered st)])"
    by (simp add: live_def stream_wf_def left_def sorted_wrt_append)
  moreover have "x = last (buffered st) \<or> x \<in> set (butlast (buffered st))"
    using a by (metis append_butlast_last_id live_def rotate1.simps(2) set_ConsD set_rotate1)
  ultimately show ?thesis by (auto simp: last_buffered_def sorted_wrt_append)
qed

text \<open>The rows of the hottest stream that are handed out come before everything that is left.\<close>

lemma hottest_first:
  assumes inv: "merge_inv rs reverse mi" and pop: "mset (mi_hot mi) = add_mset x (mset hot)"
    and first: "\<forall>st \<in> set (mi_hot mi). before rs reverse (hd (left x)) (hd (left st))"
    and adv: "advanced rs reverse x e x'" and e: "e = [hd (left x)] \<or> hot = []"
    and a: "a \<in> set e" and y: "y \<in> set (left x') \<or> y \<in># rows_left (mset hot + mset (mi_cold mi))"
  shows "before rs reverse a y"
proof -
  have hotset: "set (mi_hot mi) = insert x (set hot)" using pop by (metis set_mset_add_mset_insert set_mset_mset)
  have live: "live rs reverse x" using inv hotset by (simp add: merge_inv_def)
  have left: "left x = e @ left x'" using adv by (simp add: advanced_def left_def)
  have buf: "a \<in> set (buffered x)" using adv a by (simp add: advanced_def)
  consider "y \<in> set (left x')" | h where "h \<in> set hot" "y \<in> set (left h)" | c where "c \<in> set (mi_cold mi)" "y \<in> set (left c)"
    using y by (auto simp: in_rows_left)
  then show ?thesis
  proof cases
    case 1
    then show ?thesis using live left a by (auto simp: live_def stream_wf_def sorted_wrt_append)
  next
    case 2
    then have "live rs reverse h" using inv hotset by (simp add: merge_inv_def)
    then have "before rs reverse (hd (left h)) y" using 2 hd_before by blast
    moreover have "a = hd (left x)" using e a 2(1) by auto
    ultimately show ?thesis using first hotset 2(1) before_trans by blast
  next
    case 3
    then have "before rs reverse (hd (left c)) y" using inv by (intro hd_before) (simp_all add: merge_inv_def)
    moreover obtain h where h: "h \<in> set (mi_hot mi)" "key_before rs reverse (last_buffered h) (hd (left c))"
      using inv 3(1) by (auto simp: merge_inv_def window_def)
    moreover have "before rs reverse a (last_buffered h)"
    proof (cases "hot = []")
      case True
      then show ?thesis using h(1) hotset buffered_before_last [OF live buf] by simp
    next
      case False
      then have "a = hd (left x)" using e a by auto
      moreover have lh: "live rs reverse h" using inv h(1) by (simp add: merge_inv_def)
      then have "hd (left h) = hd (buffered h)" "buffered h \<noteq> []" by (simp_all add: live_def left_def)
      ultimately show ?thesis using first h(1) buffered_before_last [OF lh] before_trans by (metis hd_in_set)
    qed
    ultimately show ?thesis using before_trans key_before_before by blast
  qed
qed

lemma step_emits:
  assumes "rs_key_ok rs" and "heap_ok reverse tp" and inv: "merge_inv rs reverse mi" and pop: "mset (mi_hot mi) = add_mset x (mset hot)"
    and first: "\<forall>st \<in> set (mi_hot mi). before rs reverse (hd (left x)) (hd (left st))"
    and adv: "advanced rs reverse x e x'" and e: "e = [hd (left x)] \<or> hot = []"
  shows "\<exists>mi'. reheap tp x' (mi\<lparr>mi_hot := hot, mi_builder := bb\<rparr>) = Ok mi' \<and> mi_builder mi' = bb \<and> emits rs reverse mi e mi'"
proof -
  have cols: "rs_cols rs \<noteq> []" using assms(1) by (simp add: rs_key_ok_def)
  let ?mi = "mi\<lparr>mi_hot := hot, mi_builder := bb\<rparr>"
  have hotset: "set (mi_hot mi) = insert x (set hot)" using pop by (metis set_mset_add_mset_insert set_mset_mset)
  have lx: "live rs reverse x" using inv hotset by (simp add: merge_inv_def)
  have left: "left x = e @ left x'" using adv by (simp add: advanced_def left_def)
  have win: "window rs reverse (x' # hot) (mi_cold mi)" if "buffered x' \<noteq> []"
  proof -
    have "last_buffered x' = last_buffered x" using that adv by (simp add: last_buffered_def advanced_def)
    then show ?thesis using inv hotset by (auto simp: merge_inv_def window_def)
  qed
  obtain h c where r: "reheap tp x' ?mi = Ok (?mi\<lparr>mi_hot := h, mi_cold := c\<rparr>)"
    "merge_inv rs reverse (?mi\<lparr>mi_hot := h, mi_cold := c\<rparr>)"
    "remaining (?mi\<lparr>mi_hot := h, mi_cold := c\<rparr>) = mset (left x') + remaining ?mi"
    using reheap_ok [OF assms(1,2), of x' ?mi] inv hotset adv win by (auto simp: merge_inv_def advanced_def)
  have rem: "remaining ?mi = rows_left (mset hot + mset (mi_cold mi))" by (simp add: remaining_def)
  have "sorted_wrt (before rs reverse) e" using lx left by (simp add: live_def stream_wf_def sorted_wrt_append)
  moreover have "\<forall>a \<in> set e. row_for rs (snd a)" using live_left_row_for [OF cols lx] left by simp
  moreover have "remaining mi = mset e + (mset (left x') + remaining ?mi)" using pop left by (simp add: remaining_def)
  moreover have "\<forall>a \<in> set e. \<forall>y \<in># mset (left x') + remaining ?mi. before rs reverse a y"
    using hottest_first [OF inv pop first adv e] unfolding rem by auto
  ultimately show ?thesis using r by (simp add: emits_def)
qed

section \<open>Batches of the merge\<close>

lemma fetch_one_row_ok:
  assumes "rs_key_ok rs" and "heap_ok reverse tp" and "merge_inv rs reverse mi" and "mi_hot mi \<noteq> []"
    and "mi_builder mi = builder_with rs acc"
  shows "\<exists>x mi'. fetch_one_row_from_multiple_streams tp mi = Ok mi' \<and> mi_builder mi' = builder_with rs (acc @ [snd x]) \<and>
    emits rs reverse mi [x] mi'"
proof -
  have cols: "rs_cols rs \<noteq> []" using assms(1) by (simp add: rs_key_ok_def)
  have lv: "\<forall>st \<in> set (mi_hot mi). live rs reverse st" using assms(3) by (simp add: merge_inv_def)
  obtain x hot where pop: "heap_pop tp (mi_hot mi) = (Ok (x, hot) :: ('a merge_error, _) result)"
    "mset (mi_hot mi) = add_mset x (mset hot)" "\<forall>st \<in> set (mi_hot mi). before rs reverse (hd (left x)) (hd (left st))"
    using heap_pop_live [OF assms(1,2) lv assms(4), where 'f = "'a merge_error"] by blast
  have "live rs reverse x" using lv pop(2) by (metis set_mset_mset union_single_eq_member)
  then obtain x' where x': "append_next_row x (builder_with rs acc) = Ok (builder_with rs (acc @ [snd (hd (left x))]), x')"
    "advanced rs reverse x [hd (left x)] x'" using append_next_row_ok [OF cols] by blast
  obtain mi' where "reheap tp x' (mi\<lparr>mi_hot := hot, mi_builder := builder_with rs (acc @ [snd (hd (left x))])\<rparr>) = Ok mi'"
    "mi_builder mi' = builder_with rs (acc @ [snd (hd (left x))])" "emits rs reverse mi [hd (left x)] mi'"
    using step_emits [OF assms(1-3) pop(2,3) x'(2)] by blast
  then show ?thesis using pop(1) x'(1) assms(4,5)
    by (intro exI [of _ "hd (left x)"] exI [of _ mi']) (simp add: fetch_one_row_from_multiple_streams_def)
qed

lemma fetch_rows_ok:
  assumes "rs_key_ok rs" and "heap_ok reverse tp" and "merge_inv rs reverse mi" and "length (mi_hot mi) = 1"
    and "mi_builder mi = builder_with rs acc" and "\<forall>r \<in> set acc. row_for rs r" and "0 < n"
  shows "\<exists>e mi' acc'. e \<noteq> [] \<and> length e \<le> n \<and> emits rs reverse mi e mi' \<and> mi_builder mi' = builder_with rs acc' \<and>
    fetch_rows_from_one_stream tp n mi = Ok (if acc = [] then Some (batch_of rs (map snd e)) else None, mi') \<and>
    acc' = (if acc = [] then [] else acc @ map snd e)"
proof -
  have cols: "rs_cols rs \<noteq> []" using assms(1) by (simp add: rs_key_ok_def)
  have lv: "\<forall>st \<in> set (mi_hot mi). live rs reverse st" and ne: "mi_hot mi \<noteq> []" using assms(3,4) by (auto simp: merge_inv_def)
  obtain x hot where pop: "heap_pop tp (mi_hot mi) = (Ok (x, hot) :: ('a merge_error, _) result)"
    "mset (mi_hot mi) = add_mset x (mset hot)" "\<forall>st \<in> set (mi_hot mi). before rs reverse (hd (left x)) (hd (left st))"
    using heap_pop_live [OF assms(1,2) lv ne, where 'f = "'a merge_error"] by blast
  have hot: "hot = []" using pop(2) assms(4) by (metis add_left_cancel length_0_conv one_add_one plus_1_eq_Suc size_add_mset size_mset Suc_inject One_nat_def)
  have lx: "live rs reverse x" using lv pop(2) by (metis set_mset_mset union_single_eq_member)
  have len: "batch_builder_len (mi_builder mi) = length acc" using builder_len [OF cols assms(6)] assms(5) by simp
  show ?thesis
  proof (cases "acc = []")
    case True
    obtain e x' where x': "take_record_batch_slice x n = Ok (batch_of rs (map snd e), x')"
      "advanced rs reverse x e x'" "e \<noteq> []" "length e \<le> n" using take_record_batch_slice_ok [OF cols lx assms(7)] by blast
    have same: "mi\<lparr>mi_hot := hot, mi_builder := mi_builder mi\<rparr> = mi\<lparr>mi_hot := hot\<rparr>" by simp
    obtain mi' where "reheap tp x' (mi\<lparr>mi_hot := hot\<rparr>) = Ok mi'"
      "mi_builder mi' = mi_builder mi" "emits rs reverse mi e mi'"
      using step_emits [OF assms(1-3) pop(2,3) x'(2), of "mi_builder mi"] hot unfolding same by blast
    then show ?thesis using pop(1) x' assms(4,5) len True
      by (intro exI [of _ e] exI [of _ mi']) (simp add: fetch_rows_from_one_stream_def)
  next
    case False
    obtain e x' k where x': "append_rows_to x (builder_with rs acc) n = Ok (k, builder_with rs (acc @ map snd e), x')"
      "advanced rs reverse x e x'" "e \<noteq> []" "length e \<le> n" using append_rows_to_ok [OF cols lx assms(7)] by blast
    obtain mi' where "reheap tp x' (mi\<lparr>mi_hot := hot, mi_builder := builder_with rs (acc @ map snd e)\<rparr>) = Ok mi'"
      "mi_builder mi' = builder_with rs (acc @ map snd e)" "emits rs reverse mi e mi'"
      using step_emits [OF assms(1-3) pop(2,3) x'(2)] hot by blast
    then show ?thesis using pop(1) x' assms(4,5) len False
      by (intro exI [of _ e] exI [of _ mi']) (simp add: fetch_rows_from_one_stream_def)
  qed
qed

text \<open>The loop ends, since each step hands out a row.\<close>

lemma fetch_loop_ok:
  assumes "rs_key_ok rs" and "heap_ok reverse tp" and "arrow_accepts arrow_ok" and "0 < mi_batch_size mi"
    and "merge_inv rs reverse mi" and "mi_builder mi = builder_with rs acc" and "\<forall>r \<in> set acc. row_for rs r"
    and "length acc \<le> mi_batch_size mi"
  shows "\<exists>e mi'. fetch_loop arrow_ok tp mi = Some (Ok (if acc @ map snd e = [] then None else Some (batch_of rs (acc @ map snd e)), mi')) \<and>
    emits rs reverse mi e mi' \<and> mi_builder mi' = builder_with rs [] \<and> length acc + length e \<le> mi_batch_size mi \<and>
    (acc = [] \<and> e = [] \<longrightarrow> remaining mi = {#})"
  using assms(4-8)
proof (induction "size (remaining mi)" arbitrary: mi acc rule: less_induct)
  case less
  have cols: "rs_cols rs \<noteq> []" using assms(1) by (simp add: rs_key_ok_def)
  have len: "batch_builder_len (mi_builder mi) = length acc" using builder_len [OF cols less(5)] less(4) by simp
  have next_step: "\<exists>e mi'. fetch_loop arrow_ok tp mi1 =
        Some (Ok (if acc @ map snd e = [] then None else Some (batch_of rs (acc @ map snd e)), mi')) \<and>
      emits rs reverse mi e mi' \<and> mi_builder mi' = builder_with rs [] \<and> length acc + length e \<le> mi_batch_size mi \<and>
      (acc = [] \<and> e = [] \<longrightarrow> remaining mi = {#})"
    if st: "emits rs reverse mi e1 mi1" "e1 \<noteq> []" "mi_builder mi1 = builder_with rs (acc @ map snd e1)"
      "length acc + length e1 \<le> mi_batch_size mi" for e1 mi1
  proof -
    have small: "size (remaining mi1) < size (remaining mi)" using st(1,2) by (simp add: emits_def)
    have "\<exists>e mi'. fetch_loop arrow_ok tp mi1 = Some (Ok (if (acc @ map snd e1) @ map snd e = [] then None
          else Some (batch_of rs ((acc @ map snd e1) @ map snd e)), mi')) \<and> emits rs reverse mi1 e mi' \<and>
        mi_builder mi' = builder_with rs [] \<and> length (acc @ map snd e1) + length e \<le> mi_batch_size mi1 \<and>
        (acc @ map snd e1 = [] \<and> e = [] \<longrightarrow> remaining mi1 = {#})"
      using st less(2,5) by (intro less(1) small) (auto simp: emits_def)
    then obtain e mi' where e: "fetch_loop arrow_ok tp mi1 = Some (Ok (Some (batch_of rs (acc @ map snd (e1 @ e))), mi'))"
        "emits rs reverse mi1 e mi'" "mi_builder mi' = builder_with rs []" "length acc + length e1 + length e \<le> mi_batch_size mi1"
      using st(2) by auto
    have "mi_batch_size mi1 = mi_batch_size mi" using st(1) by (simp add: emits_def)
    then show ?thesis using e st(2) emits_append [OF st(1) e(2)] by (intro exI [of _ "e1 @ e"] exI [of _ mi']) simp
  qed
  consider "mi_hot mi = [] \<or> length acc = mi_batch_size mi"
    | "length (mi_hot mi) = 1" "length acc < mi_batch_size mi"
    | "mi_hot mi \<noteq> []" "length (mi_hot mi) \<noteq> 1" "length acc < mi_batch_size mi" using less(6) by linarith
  then show ?case
  proof cases
    case 1
    then have "remaining mi = {#}" if "acc = []" using that less(2,3) by (auto simp: merge_inv_def remaining_def)
    then show ?thesis using 1 len less(4-6) emits_nil [OF less(3)] batch_build_of [OF assms(3) cols less(5)]
      by (intro exI [of _ "[]"] exI [of _ "mi\<lparr>mi_builder := builder_with rs []\<rparr>"])
        (auto simp: fetch_loop.simps emits_def merge_inv_def remaining_def)
  next
    case 2
    obtain e mi' acc' where e: "e \<noteq> []" "length e \<le> mi_batch_size mi - length acc" "emits rs reverse mi e mi'"
      "mi_builder mi' = builder_with rs acc'" "acc' = (if acc = [] then [] else acc @ map snd e)"
      "fetch_rows_from_one_stream tp (mi_batch_size mi - length acc) mi =
        Ok (if acc = [] then Some (batch_of rs (map snd e)) else None, mi')"
      using fetch_rows_ok [OF assms(1,2) less(3) 2(1) less(4,5), of "mi_batch_size mi - length acc"] 2(2) by auto
    show ?thesis
    proof (cases "acc = []")
      case True
      then show ?thesis using e 2 len by (intro exI [of _ e] exI [of _ mi']) (auto simp: fetch_loop.simps [of _ _ mi])
    next
      case False
      then have "fetch_loop arrow_ok tp mi = fetch_loop arrow_ok tp mi'" using e(6) 2 len by (auto simp: fetch_loop.simps [of _ _ mi])
      then show ?thesis using next_step [OF e(3,1)] e(2,4,5) 2(2) False by simp
    qed
  next
    case 3
    obtain x mi' where x: "fetch_one_row_from_multiple_streams tp mi = Ok mi'"
      "mi_builder mi' = builder_with rs (acc @ [snd x])" "emits rs reverse mi [x] mi'"
      using fetch_one_row_ok [OF assms(1,2) less(3) 3(1) less(4)] by blast
    then have "fetch_loop arrow_ok tp mi = fetch_loop arrow_ok tp mi'" using 3 len by (simp add: fetch_loop.simps [of _ _ mi])
    then show ?thesis using next_step [OF x(3)] x(2) 3(3) by simp
  qed
qed

section \<open>Draining an iterator\<close>

text \<open>The batches that an iterator returns until it is exhausted, in at most \<open>n\<close> calls.\<close>

fun drain :: "('i \<Rightarrow> ('e, record_batch_with_key option \<times> 'i) result option) \<Rightarrow> nat \<Rightarrow> 'i \<Rightarrow> record_batch_with_key list option" where
  "drain nxt 0 it = None"
| "drain nxt (Suc n) it =
     (case nxt it of
        Some (Ok (None, it)) \<Rightarrow> Some []
      | Some (Ok (Some b, it)) \<Rightarrow> map_option (Cons b) (drain nxt n it)
      | _ \<Rightarrow> None)"

abbreviation rows_of :: "record_batch_with_key list \<Rightarrow> row list" where
  "rows_of bs \<equiv> concat (map batch_rows bs)"

text \<open>A stream of batches of the record schema that is sorted.\<close>

definition source_ok :: "record_schema_with_key \<Rightarrow> bool \<Rightarrow> 'e batch_stream \<Rightarrow> bool" where
  "source_ok rs reverse s \<longleftrightarrow> items_ok rs s \<and> sorted_wrt (before rs reverse) (stream_srows s)"

lemma push_origin_stream_ok:
  assumes "rs_cols rs \<noteq> []" and "source_ok rs reverse s" and "mi_schema mi = rs"
  shows "\<exists>sts. push_origin_stream s mi = Ok (mi\<lparr>mi_cold := sts @ mi_cold mi\<rparr>) \<and> (\<forall>st \<in> set sts. live rs reverse st) \<and>
    rows_left (mset sts) = mset (stream_srows s)"
proof -
  have items: "items_ok rs s" using assms(2) by (simp add: source_ok_def)
  consider b s' where "pull_next_non_empty_batch s = Ok (Some b, s')" "stream_srows s = batch_srows b @ stream_srows s'"
      "items_ok rs s'" "batch_ok rs (sq_batch b)" "batch_srows b \<noteq> []"
    | "pull_next_non_empty_batch s = Ok (None, [])" "stream_srows s = []" using pull_non_empty [OF assms(1) items] by blast
  then show ?thesis
  proof cases
    case 1
    let ?st = "\<lparr>st_schema = rs, st_stream = s', st_state = Some \<lparr>bf_batch = b, bf_cursor = 0\<rparr>\<rparr>"
    have l: "left ?st = stream_srows s" "buffered ?st = batch_srows b" using 1 by (simp_all add: left_def buffered_def)
    then have "live rs reverse ?st" using 1 assms(2) by (simp add: live_def stream_wf_def source_ok_def)
    then show ?thesis using 1 l assms(3)
      by (intro exI [of _ "[?st]"]) (simp add: push_origin_stream_def buffered_stream_build_def)
  next
    case 2
    then show ?thesis using assms(3) by (intro exI [of _ "[]"]) (simp add: push_origin_stream_def buffered_stream_build_def)
  qed
qed

lemma push_origin_streams_ok:
  assumes "rs_cols rs \<noteq> []" and "\<forall>s \<in> set streams. source_ok rs reverse s" and "mi_schema mi = rs"
  shows "\<exists>sts. res_fold push_origin_stream streams mi = Ok (mi\<lparr>mi_cold := sts @ mi_cold mi\<rparr>) \<and> (\<forall>st \<in> set sts. live rs reverse st) \<and>
    rows_left (mset sts) = mset (concat (map stream_srows streams))"
  using assms(2,3)
proof (induction streams arbitrary: mi)
  case (Cons s streams)
  obtain sts where a: "push_origin_stream s mi = Ok (mi\<lparr>mi_cold := sts @ mi_cold mi\<rparr>)" "\<forall>st \<in> set sts. live rs reverse st"
    "rows_left (mset sts) = mset (stream_srows s)" using push_origin_stream_ok [OF assms(1), of reverse s mi] Cons(2,3) by auto
  obtain sts' where b: "res_fold push_origin_stream streams (mi\<lparr>mi_cold := sts @ mi_cold mi\<rparr>) =
      Ok (mi\<lparr>mi_cold := sts' @ sts @ mi_cold mi\<rparr>)" "\<forall>st \<in> set sts'. live rs reverse st"
    "rows_left (mset sts') = mset (concat (map stream_srows streams))"
    using Cons(1) [of "mi\<lparr>mi_cold := sts @ mi_cold mi\<rparr>"] Cons(2,3) by auto
  then show ?case using a by (intro exI [of _ "sts' @ sts"]) auto
next
  case Nil
  then show ?case by (intro exI [of _ "[]"]) simp
qed

lemma init_ok:
  assumes "rs_key_ok rs" and "heap_ok reverse tp" and "\<forall>s \<in> set streams. source_ok rs reverse s"
  shows "\<exists>mi'. init_if_necessary tp (merge_iterator_new rs streams batch_size reverse) = Ok mi' \<and> merge_inv rs reverse mi' \<and>
    mi_batch_size mi' = batch_size \<and> mi_builder mi' = builder_with rs [] \<and> remaining mi' = mset (concat (map stream_srows streams))"
proof -
  have cols: "rs_cols rs \<noteq> []" using assms(1) by (simp add: rs_key_ok_def)
  let ?mi = "merge_iterator_new rs streams batch_size reverse\<lparr>mi_origin_streams := []\<rparr>"
  obtain sts where a: "res_fold push_origin_stream streams ?mi = Ok (?mi\<lparr>mi_cold := sts @ mi_cold ?mi\<rparr>)"
    "\<forall>st \<in> set sts. live rs reverse st" "rows_left (mset sts) = mset (concat (map stream_srows streams))"
    using push_origin_streams_ok [OF cols assms(3), of ?mi] by (auto simp: merge_iterator_new_def)
  let ?mi' = "?mi\<lparr>mi_cold := sts\<rparr>"
  obtain hot cold where b: "refill_hot tp ?mi' = Ok (?mi'\<lparr>mi_hot := hot, mi_cold := cold\<rparr>)" "mset hot + mset cold = mset sts"
    "window rs reverse hot cold" "hot = [] \<longrightarrow> cold = []" "\<forall>st \<in> set hot. live rs reverse st" "\<forall>st \<in> set cold. live rs reverse st"
    using refill_hot_ok [OF assms(1,2), of ?mi'] a(2) by (auto simp: merge_iterator_new_def)
  have "rows_left (mset hot) + rows_left (mset cold) = mset (concat (map stream_srows streams))"
    using a(3) b(2) by (metis rows_left_simps(3))
  then show ?thesis using a(1) b
    by (simp add: init_if_necessary_def merge_iterator_new_def merge_inv_def remaining_def builder_with_Nil)
qed

text \<open>Between two calls: the rows that the iterator has still to return.\<close>

definition merge_ready :: "record_schema_with_key \<Rightarrow> bool \<Rightarrow> 'e heap_top \<Rightarrow> 'e merge_iterator \<Rightarrow> srow multiset \<Rightarrow> nat \<Rightarrow> bool" where
  "merge_ready rs reverse tp mi m batch_size \<longleftrightarrow>
     (\<exists>mi'. init_if_necessary tp mi = Ok mi' \<and> merge_inv rs reverse mi' \<and> mi_batch_size mi' = batch_size \<and>
        mi_builder mi' = builder_with rs [] \<and> remaining mi' = m)"

lemma merge_next_batch_ok:
  assumes "rs_key_ok rs" and "heap_ok reverse tp" and "arrow_accepts arrow_ok" and "0 < batch_size"
    and "merge_ready rs reverse tp mi m batch_size"
  shows "\<exists>e m' mi'. merge_next_batch arrow_ok tp mi = Some (Ok (if e = [] then None else Some (batch_of rs (map snd e)), mi')) \<and>
    merge_ready rs reverse tp mi' m' batch_size \<and> m = mset e + m' \<and> sorted_wrt (before rs reverse) e \<and>
    (\<forall>x \<in> set e. \<forall>y \<in># m'. before rs reverse x y) \<and> (\<forall>x \<in> set e. row_for rs (snd x)) \<and> length e \<le> batch_size \<and>
    (e = [] \<longrightarrow> m = {#})"
proof -
  obtain mi1 where a: "init_if_necessary tp mi = Ok mi1" "merge_inv rs reverse mi1" "mi_batch_size mi1 = batch_size"
    "mi_builder mi1 = builder_with rs []" "remaining mi1 = m" using assms(5) by (auto simp: merge_ready_def)
  have same: "mi1\<lparr>mi_builder := batch_builder_clear (mi_builder mi1)\<rparr> = mi1" using a(4) builder_clear by simp
  have "merge_next_batch arrow_ok tp mi = fetch_loop arrow_ok tp mi1" unfolding merge_next_batch_def a(1) by (simp only: result.case same)
  moreover obtain e mi' where e: "fetch_loop arrow_ok tp mi1 = Some (Ok (if e = [] then None else Some (batch_of rs (map snd e)), mi'))"
    "emits rs reverse mi1 e mi'" "mi_builder mi' = builder_with rs []" "length e \<le> batch_size" "e = [] \<longrightarrow> remaining mi1 = {#}"
    using fetch_loop_ok [OF assms(1-3) _ a(2,4)] assms(4) a(3) unfolding append_Nil map_is_Nil_conv by force
  moreover have "init_if_necessary tp mi' = Ok mi'" using e(2) by (simp add: init_if_necessary_def emits_def merge_inv_def)
  ultimately show ?thesis using a
    by (intro exI [of _ e] exI [of _ "remaining mi'"] exI [of _ mi']) (simp add: merge_ready_def emits_def)
qed

lemma merge_drain_ok:
  assumes "rs_key_ok rs" and "heap_ok reverse tp" and "arrow_accepts arrow_ok" and "0 < batch_size"
    and "merge_ready rs reverse tp mi m batch_size" and "size m < n"
  shows "\<exists>es. drain (merge_next_batch arrow_ok tp) n mi = Some (map (\<lambda>e. batch_of rs (map snd e)) es) \<and>
    mset (concat es) = m \<and> sorted_wrt (before rs reverse) (concat es) \<and>
    (\<forall>e \<in> set es. e \<noteq> [] \<and> length e \<le> batch_size \<and> (\<forall>x \<in> set e. row_for rs (snd x)))"
  using assms(5,6)
proof (induction n arbitrary: mi m)
  case (Suc n)
  obtain e m' mi' where a: "merge_next_batch arrow_ok tp mi = Some (Ok (if e = [] then None else Some (batch_of rs (map snd e)), mi'))"
    "merge_ready rs reverse tp mi' m' batch_size" "m = mset e + m'" "sorted_wrt (before rs reverse) e"
    "\<forall>x \<in> set e. \<forall>y \<in># m'. before rs reverse x y" "\<forall>x \<in> set e. row_for rs (snd x)" "length e \<le> batch_size"
    "e = [] \<longrightarrow> m = {#}" using merge_next_batch_ok [OF assms(1-4) Suc(2)] by blast
  show ?case
  proof (cases "e = []")
    case True
    then show ?thesis using a by (intro exI [of _ "[]"]) simp
  next
    case False
    then have "size m' < n" using a(3) Suc(3) by (cases e) auto
    then obtain es where es: "drain (merge_next_batch arrow_ok tp) n mi' = Some (map (\<lambda>e. batch_of rs (map snd e)) es)"
      "mset (concat es) = m'" "sorted_wrt (before rs reverse) (concat es)"
      "\<forall>e \<in> set es. e \<noteq> [] \<and> length e \<le> batch_size \<and> (\<forall>x \<in> set e. row_for rs (snd x))" using Suc(1) [OF a(2)] by blast
    have "set (concat es) = set_mset m'" using es(2) by (metis set_mset_mset)
    then have "sorted_wrt (before rs reverse) (concat (e # es))" using a(4,5) es(3) by (simp add: sorted_wrt_append)
    then show ?thesis using a(1,3,6,7) es False by (intro exI [of _ "e # es"]) auto
  qed
qed simp

lemma batch_of_ok: "\<forall>r \<in> set rows. row_for rs r \<Longrightarrow> batch_ok rs (batch_of rs rows)"
  by (auto simp: batch_ok_def)

lemma merged:
  assumes "rs_key_ok rs" and "heap_ok reverse tp" and "arrow_accepts arrow_ok" and "0 < batch_size"
    and "\<forall>s \<in> set streams. source_ok rs reverse s" and "length (concat (map stream_srows streams)) < n"
  shows "\<exists>bs srows. drain (merge_next_batch arrow_ok tp) n (merge_iterator_new rs streams batch_size reverse) = Some bs \<and>
    rows_of bs = map snd srows \<and> mset srows = mset (concat (map stream_srows streams)) \<and> sorted_wrt (before rs reverse) srows \<and>
    (\<forall>b \<in> set bs. batch_ok rs b \<and> 0 < batch_num_rows b \<and> batch_num_rows b \<le> batch_size)"
proof -
  have cols: "rs_cols rs \<noteq> []" using assms(1) by (simp add: rs_key_ok_def)
  have "merge_ready rs reverse tp (merge_iterator_new rs streams batch_size reverse) (mset (concat (map stream_srows streams))) batch_size"
    using init_ok [OF assms(1,2,5)] by (simp add: merge_ready_def)
  then obtain es where es: "drain (merge_next_batch arrow_ok tp) n (merge_iterator_new rs streams batch_size reverse) =
      Some (map (\<lambda>e. batch_of rs (map snd e)) es)" "mset (concat es) = mset (concat (map stream_srows streams))"
    "sorted_wrt (before rs reverse) (concat es)"
    "\<forall>e \<in> set es. e \<noteq> [] \<and> length e \<le> batch_size \<and> (\<forall>x \<in> set e. row_for rs (snd x))"
    using merge_drain_ok [OF assms(1-4)] assms(6) by (metis size_mset)
  have rows: "\<forall>r \<in> set (map snd e). row_for rs r" if "e \<in> set es" for e using es(4) that by auto
  have "rows_of (map (\<lambda>e. batch_of rs (map snd e)) es) = map snd (concat es)"
    using batch_of_rows(1) [OF cols rows] by (induction es) (simp_all add: rows)
  moreover have "batch_ok rs (batch_of rs (map snd e)) \<and> 0 < batch_num_rows (batch_of rs (map snd e)) \<and>
      batch_num_rows (batch_of rs (map snd e)) \<le> batch_size" if "e \<in> set es" for e
    using batch_of_rows(2) [OF cols rows [OF that]] es(4) batch_of_ok [OF rows [OF that]] that by simp
  ultimately show ?thesis using es(1-3) by (intro exI [of _ "concat es"] exI) auto
qed

text \<open>
  C6. The merge iterator returns every row of its streams exactly once, in the order of their keys
  (descending when reversed) and for equal keys from the greater sequence to the smaller, in
  non-empty batches of at most \<open>batch_size\<close> rows, and then ends: a number of calls greater than the
  number of rows is enough.
\<close>

theorem merge_sorts:
  assumes "rs_key_ok rs" and "heap_ok reverse tp" and "arrow_accepts arrow_ok" and "0 < batch_size"
    and "\<forall>s \<in> set streams. source_ok rs reverse s" and "length (concat (map stream_srows streams)) < n"
  shows "\<exists>bs srows. drain (merge_next_batch arrow_ok tp) n (merge_iterator_new rs streams batch_size reverse) = Some bs \<and>
    rows_of bs = map snd srows \<and> mset srows = mset (concat (map stream_srows streams)) \<and> sorted_wrt (before rs reverse) srows \<and>
    (\<forall>b \<in> set bs. batch_ok rs b \<and> 0 < batch_num_rows b \<and> batch_num_rows b \<le> batch_size)"
  using merged [OF assms] .

subsection \<open>A concrete heap and concrete streams\<close>

text \<open>The heap whose top is the first of its greatest elements.\<close>

definition heap_first :: "bool \<Rightarrow> 'e heap_top" where
  "heap_first reverse h = length (takeWhile (\<lambda>x. \<exists>a \<in> set h. stream_cmp reverse x a = (Ok Less :: (unit, _) result)) h)"

lemma greatest_exists:
  assumes "\<forall>a \<in> set h. \<forall>b \<in> set h. lt a b \<longrightarrow> \<not> lt b a"
    and "\<forall>a \<in> set h. \<forall>b \<in> set h. \<forall>c \<in> set h. \<not> lt a b \<and> \<not> lt b c \<longrightarrow> \<not> lt a c" and "xs \<noteq> []" and "set xs \<subseteq> set h"
  shows "\<exists>x \<in> set xs. \<forall>a \<in> set xs. \<not> lt x a"
  using assms(3,4)
proof (induction xs rule: list_nonempty_induct)
  case (single x)
  then show ?case using assms(1) by auto
next
  case (cons y ys)
  then obtain x where x: "x \<in> set ys" "\<forall>a \<in> set ys. \<not> lt x a" by auto
  have mem: "x \<in> set h" "y \<in> set h" "set ys \<subseteq> set h" using x cons by auto
  show ?case
  proof (cases "lt x y")
    case True
    then have "\<not> lt y x" using assms(1) mem by blast
    then have "\<not> lt y a" if "a \<in> set ys" for a using assms(2) x(2) mem that by blast
    moreover have "\<not> lt y y" using assms(1) mem by blast
    ultimately show ?thesis by auto
  qed (use x in auto)
qed

lemma first_not: "x \<in> set h \<Longrightarrow> \<not> P x \<Longrightarrow> length (takeWhile P h) < length h \<and> \<not> P (h ! length (takeWhile P h))"
  by (induction h) auto

lemma heap_first_ok: "heap_ok reverse (heap_first reverse)"
proof -
  have "heap_first reverse h < length h \<and> (\<forall>a \<in> set h. stream_cmp reverse (h ! heap_first reverse h) a \<noteq> (Ok Less :: (unit, _) result))"
    if h: "h \<noteq> []" "totally_ordered reverse h" for h :: "'e buffered_stream list"
  proof -
    let ?P = "\<lambda>x. \<exists>a \<in> set h. stream_cmp reverse x a = (Ok Less :: (unit, _) result)"
    let ?lt = "\<lambda>a b. stream_cmp reverse a b = (Ok Less :: (unit, _) result)"
    have "\<exists>x \<in> set h. \<forall>a \<in> set h. \<not> ?lt x a"
    proof (rule greatest_exists [of h])
      have "\<forall>a \<in> set h. \<forall>b \<in> set h. ?lt a b \<longrightarrow> stream_cmp reverse b a = (Ok Greater :: (unit, _) result)"
        using h(2) unfolding totally_ordered_def by (elim conjE)
      then have "stream_cmp reverse b a = (Ok Greater :: (unit, _) result)" if "a \<in> set h" "b \<in> set h" "?lt a b" for a b using that by blast
      then show "\<forall>a \<in> set h. \<forall>b \<in> set h. ?lt a b \<longrightarrow> \<not> ?lt b a" by fastforce
      show "\<forall>a \<in> set h. \<forall>b \<in> set h. \<forall>c \<in> set h. \<not> ?lt a b \<and> \<not> ?lt b c \<longrightarrow> \<not> ?lt a c"
        using h(2) unfolding totally_ordered_def by (elim conjE)
    qed (simp_all add: h(1))
    then obtain x where "x \<in> set h" "\<not> ?P x" by blast
    from first_not [of x h ?P, OF this] show ?thesis unfolding heap_first_def by blast
  qed
  then show ?thesis unfolding heap_ok_def by blast
qed

definition demo_kv_schema :: record_schema_with_key where
  "demo_kv_schema = \<lparr>rs_columns = column_schemas_new [demo_column 1 ''k'' K_Int64 False, demo_column 2 ''v'' K_Int64 True],
     rs_primary_key_indexes = [0]\<rparr>"

definition demo_kv_batch :: "u64 \<Rightarrow> (u64 \<times> u64) list \<Rightarrow> sequenced_batch" where
  "demo_kv_batch n kvs = \<lparr>sq_batch = batch_of demo_kv_schema (map (\<lambda>(k, v). [D_Int64 k, D_Int64 v]) kvs), sq_sequence = n\<rparr>"

definition demo_streams :: "unit batch_stream list" where
  "demo_streams = [[Ok (demo_kv_batch 1 [(1, 10), (3, 30)]), Ok (demo_kv_batch 1 [(4, 40)])], [Ok (demo_kv_batch 2 [(1, 11), (2, 20)])]]"

lemma demo_kv_key_ok: "rs_key_ok demo_kv_schema"
  by (simp add: rs_key_ok_def demo_kv_schema_def demo_column_def column_schemas_new_def)

lemma demo_kv_rows: "\<forall>r \<in> set (map (\<lambda>(k, v). [D_Int64 k, D_Int64 v]) kvs). row_for demo_kv_schema r"
  by (auto simp: row_for_def demo_kv_schema_def demo_column_def column_schemas_new_def check_datum_type_Ok)

lemma demo_kv_srows:
  "batch_srows (demo_kv_batch n kvs) = map (\<lambda>(k, v). (n, [D_Int64 k, D_Int64 v])) kvs"
  "batch_ok demo_kv_schema (sq_batch (demo_kv_batch n kvs))"
  using batch_of_rows(1) [OF _ demo_kv_rows] batch_of_ok [OF demo_kv_rows] demo_kv_key_ok
  by (auto simp: batch_srows_def rs_key_ok_def demo_kv_batch_def)

lemma demo_streams_rows:
  "map stream_srows demo_streams =
     [[(1, [D_Int64 1, D_Int64 10]), (1, [D_Int64 3, D_Int64 30]), (1, [D_Int64 4, D_Int64 40])],
      [(2, [D_Int64 1, D_Int64 11]), (2, [D_Int64 2, D_Int64 20])]]"
  by (simp add: demo_streams_def demo_kv_srows)

lemma demo_streams_ok: "\<forall>s \<in> set demo_streams. source_ok demo_kv_schema False s"
proof -
  have key: "row_key demo_kv_schema [D_Int64 k, D_Int64 v] = mem_repr (D_Int64 k)" for k v
    by (simp add: row_key_def demo_kv_schema_def)
  have lt: "mem_i64_repr 1 < mem_i64_repr 2" "mem_i64_repr 1 < mem_i64_repr 3" "mem_i64_repr 1 < mem_i64_repr 4"
    "mem_i64_repr 3 < mem_i64_repr 4" by (simp_all add: mem_i64.repr_less)
  have "items_ok demo_kv_schema s" if "s \<in> set demo_streams" for s
    using that by (auto simp: demo_streams_def items_ok_def demo_kv_srows)
  moreover have "\<forall>s \<in> set (map stream_srows demo_streams). sorted_wrt (before demo_kv_schema False) s"
    unfolding demo_streams_rows by (simp add: before_def key_before_def key lt)
  ultimately show ?thesis by (simp add: source_ok_def)
qed

lemma accept_all: "arrow_accepts (\<lambda>_ _. True)"
  by (simp add: arrow_accepts_def)

theorem merge_sorts_witness:
  "\<exists>bs srows. drain (merge_next_batch (\<lambda>_ _. True) (heap_first False)) 6 (merge_iterator_new demo_kv_schema demo_streams 2 False) = Some bs \<and>
     rows_of bs = map snd srows \<and> sorted_wrt (before demo_kv_schema False) srows \<and>
     mset srows = mset [(1, [D_Int64 1, D_Int64 10]), (1, [D_Int64 3, D_Int64 30]), (1, [D_Int64 4, D_Int64 40]),
       (2, [D_Int64 1, D_Int64 11]), (2, [D_Int64 2, D_Int64 20])]"
proof -
  have "length (concat (map stream_srows demo_streams)) < 6" unfolding demo_streams_rows by simp
  from merge_sorts [OF demo_kv_key_ok heap_first_ok accept_all _ demo_streams_ok this, of 2]
  show ?thesis unfolding demo_streams_rows by auto
qed

end
