(* ===== verification/Read_Path.thy ===== *)
theory Read_Path
  imports Row_Iter
begin

text \<open>
  The iterators on top of streams and of the merge iterator (\<^verbatim>\<open>analytic_engine/src/row_iter\<close>): the
  deduplicating iterator (\<^verbatim>\<open>dedup.rs\<close>) with the \<open>dedup\<close> of columns (\<^verbatim>\<open>common_types/src/column.rs\<close>),
  the chain iterator (\<^verbatim>\<open>chain.rs\<close>), and the whole read path: deduplication of the merge.

  What arrow arrays return for a slot is a parameter: \<open>ar_value\<close> the value stored at an index, which
  is that of the datum when the slot is valid, and \<open>ar_key\<close> the key of a dictionary array, which is
  the same for two valid slots exactly when their values are (\<open>arrow_reads\<close>). Arrow itself does not
  promise the latter for every dictionary array, but it holds for the arrays that arrow's
  dictionary builder makes, as the merge iterator's own batches are; for arrays read from elsewhere it
  is an assumption.
\<close>

section \<open>Deduplication of a column\<close>

record arrow_access =
  ar_value :: "column_block \<Rightarrow> nat \<Rightarrow> datum"
  ar_key :: "column_block \<Rightarrow> nat \<Rightarrow> nat option"

definition arrow_reads :: "arrow_access \<Rightarrow> bool" where
  "arrow_reads ar \<longleftrightarrow>
     (\<forall>c i. i < length (cb_data c) \<and> cb_data c ! i \<noteq> D_Null \<longrightarrow> ar_value ar c i = cb_data c ! i) \<and>
     (\<forall>c i j. i < length (cb_data c) \<and> j < length (cb_data c) \<and> cb_data c ! i \<noteq> D_Null \<and> cb_data c ! j \<noteq> D_Null \<longrightarrow>
        (ar_key ar c i = ar_key ar c j \<longleftrightarrow> cb_data c ! i = cb_data c ! j))"

definition select_at :: "nat \<Rightarrow> bool list \<Rightarrow> ('e, bool list) result" where
  "select_at i selected = (if i < length selected then Ok (selected[i := True]) else Panic)"

text \<open>Values are compared by \<open>!=\<close>, in which a NaN differs from itself.\<close>

definition dedup_values :: "arrow_access \<Rightarrow> column_block \<Rightarrow> bool list \<Rightarrow> ('e, bool list) result" where
  "dedup_values ar c selected =
     (if cb_data c = [] then Ok selected
      else res_bind (select_at 0 selected)
        (res_fold (\<lambda>i selected. if partial_cmp (ar_value ar c i) (ar_value ar c (i - 1)) \<noteq> Some Equal
                               then select_at i selected else Ok selected) [1..<length (cb_data c)]))"

definition dedup_dictionary :: "arrow_access \<Rightarrow> column_block \<Rightarrow> bool list \<Rightarrow> ('e, bool list) result" where
  "dedup_dictionary ar c selected =
     (if cb_data c = [] then Ok selected
      else res_bind (select_at 0 selected) (\<lambda>selected.
        Ok (map (\<lambda>i. selected ! i \<or> 1 \<le> i \<and> i < length (cb_data c) \<and> ar_key ar c i \<noteq> ar_key ar c (i - 1)) [0..<length selected])))"

definition dedup_null :: "column_block \<Rightarrow> bool list \<Rightarrow> ('e, bool list) result" where
  "dedup_null c selected = (if cb_data c = [] then Ok selected else select_at 0 selected)"

definition column_dedup :: "arrow_access \<Rightarrow> column_block \<Rightarrow> bool list \<Rightarrow> ('e, bool list) result" where
  "column_dedup ar c selected =
     (if cb_dict c then dedup_dictionary ar c selected
      else if cb_kind c = K_Null then dedup_null c selected
      else dedup_values ar c selected)"

section \<open>The deduplicating iterator\<close>

datatype 'e dedup_error =
  Dedup_BuildRecordBatch batch_error
| Dedup_AppendRow batch_error
| ReadFromSubIter 'e

record 'i dedup_iterator =
  di_schema :: record_schema_with_key
  di_builder :: batch_builder
  di_iter :: 'i
  di_prev_row :: "row option"
  di_selected_rows :: "bool list"
  di_total_duplications :: nat
  di_total_selected_rows :: nat

definition dedup_new :: "record_schema_with_key \<Rightarrow> 'i \<Rightarrow> 'i dedup_iterator" where
  "dedup_new rs it = \<lparr>di_schema = rs, di_builder = batch_builder_new rs, di_iter = it, di_prev_row = None, di_selected_rows = [],
     di_total_duplications = 0, di_total_selected_rows = 0\<rparr>"

definition filter_batch :: "arrow_check \<Rightarrow> record_batch_with_key \<Rightarrow> nat \<Rightarrow> 'i dedup_iterator \<Rightarrow>
    ('e dedup_error, record_batch_with_key \<times> 'i dedup_iterator) result" where
  "filter_batch arrow_ok b selected_num di =
     (let di = di\<lparr>di_total_selected_rows := di_total_selected_rows di + selected_num,
                 di_total_duplications := di_total_duplications di + (batch_num_rows b - selected_num)\<rparr>
      in if selected_num = batch_num_rows b then Ok (b, di)
         else res_bind (res_ctx Dedup_AppendRow
                (res_fold (\<lambda>i bb. if di_selected_rows di ! i then append_row_view bb b i else Ok bb)
                  [0..<length (di_selected_rows di)] (batch_builder_clear (di_builder di)))) (\<lambda>bb.
              res_bind (res_ctx Dedup_BuildRecordBatch (batch_build arrow_ok bb)) (\<lambda>(b, bb).
                Ok (b, di\<lparr>di_builder := bb\<rparr>))))"

text \<open>The first row of a batch is not selected when its key is that of the previous row.\<close>

definition dedup_with_prev :: "record_schema_with_key \<Rightarrow> row option \<Rightarrow> record_batch_with_key \<Rightarrow> bool list \<Rightarrow> ('e, bool list) result" where
  "dedup_with_prev rs prev_row b selected =
     (case prev_row of
        None \<Rightarrow> Ok selected
      | Some prev \<Rightarrow> res_bind (compare_row (rs_primary_key_indexes rs) prev (clone_row_at b 0)) (\<lambda>c.
          Ok (if c = Equal then selected[0 := False] else selected)))"

definition dedup_batch :: "arrow_check \<Rightarrow> arrow_access \<Rightarrow> record_batch_with_key \<Rightarrow> 'i dedup_iterator \<Rightarrow>
    ('e dedup_error, record_batch_with_key \<times> 'i dedup_iterator) result" where
  "dedup_batch arrow_ok ar b di =
     (let selected = replicate (batch_num_rows b) False
      in if batch_num_rows b = 0 then Ok (b, di\<lparr>di_selected_rows := selected\<rparr>)
         else res_bind (res_fold (\<lambda>col_idx selected. res_bind (index_res (rb_columns b) col_idx) (\<lambda>c. column_dedup ar c selected))
                (rs_primary_key_indexes (di_schema di)) selected) (\<lambda>selected.
              res_bind (dedup_with_prev (di_schema di) (di_prev_row di) b selected) (\<lambda>selected.
                filter_batch arrow_ok b (length (filter id selected))
                  (di\<lparr>di_selected_rows := selected, di_prev_row := Some (clone_row_at b (batch_num_rows b - 1))\<rparr>))))"

definition dedup_next_batch :: "arrow_check \<Rightarrow> arrow_access \<Rightarrow> ('i \<Rightarrow> ('e, record_batch_with_key option \<times> 'i) result option) \<Rightarrow>
    'i dedup_iterator \<Rightarrow> ('e dedup_error, record_batch_with_key option \<times> 'i dedup_iterator) result option" where
  "dedup_next_batch arrow_ok ar nxt di =
     map_option (\<lambda>r. res_bind (res_ctx ReadFromSubIter r) (\<lambda>(b, it).
       case b of
         None \<Rightarrow> Ok (None, di\<lparr>di_iter := it\<rparr>)
       | Some b \<Rightarrow> res_bind (dedup_batch arrow_ok ar b (di\<lparr>di_iter := it\<rparr>)) (\<lambda>(b, di). Ok (Some b, di)))) (nxt (di_iter di))"

section \<open>The chain iterator\<close>

datatype 'e chain_error = PollNextRecordBatch 'e

record 'e chain_iterator =
  ch_schema :: record_schema_with_key
  ch_streams :: "'e batch_stream list"
  ch_next_stream_idx :: nat
  ch_total_batch_fetched :: nat
  ch_total_rows_fetched :: nat

definition chain_new :: "record_schema_with_key \<Rightarrow> 'e batch_stream list \<Rightarrow> 'e chain_iterator" where
  "chain_new rs streams = \<lparr>ch_schema = rs, ch_streams = streams, ch_next_stream_idx = 0, ch_total_batch_fetched = 0, ch_total_rows_fetched = 0\<rparr>"

definition chain_work :: "'e chain_iterator \<Rightarrow> nat" where
  "chain_work ch = sum_list (map length (ch_streams ch)) + (length (ch_streams ch) - ch_next_stream_idx ch)"

lemma sum_list_update_less: "i < length xs \<Longrightarrow> y < xs ! i \<Longrightarrow> sum_list (xs[i := y]) < sum_list xs" for y :: nat
  by (induction xs arbitrary: i) (auto split: nat.splits)

function chain_next_batch :: "'e chain_iterator \<Rightarrow> ('e chain_error, record_batch_with_key option \<times> 'e chain_iterator) result" where
  "chain_next_batch ch =
     (if ch_next_stream_idx ch < length (ch_streams ch)
      then case ch_streams ch ! ch_next_stream_idx ch of
             [] \<Rightarrow> chain_next_batch (ch\<lparr>ch_next_stream_idx := ch_next_stream_idx ch + 1\<rparr>)
           | Ok v # s \<Rightarrow>
               let ch = ch\<lparr>ch_streams := (ch_streams ch)[ch_next_stream_idx ch := s],
                           ch_total_rows_fetched := ch_total_rows_fetched ch + batch_num_rows (sq_batch v),
                           ch_total_batch_fetched := ch_total_batch_fetched ch + 1\<rparr>
               in if 0 < batch_num_rows (sq_batch v) then Ok (Some (sq_batch v), ch) else chain_next_batch ch
           | Err e # s \<Rightarrow> Err (PollNextRecordBatch e)
           | Panic # s \<Rightarrow> Panic
      else Ok (None, ch))"
  by pat_completeness auto
termination
  by (relation "measure chain_work") (auto simp: chain_work_def map_update intro!: diff_less_mono sum_list_update_less trans_le_add2)

declare chain_next_batch.simps [simp del]

section \<open>The first row of each run\<close>

text \<open>The rows whose key differs from that of the row before them.\<close>

fun dedup_rows :: "('r \<Rightarrow> 'k) \<Rightarrow> 'k option \<Rightarrow> 'r list \<Rightarrow> 'r list" where
  "dedup_rows key p [] = []"
| "dedup_rows key p (r # rs) = (if p = Some (key r) then [] else [r]) @ dedup_rows key (Some (key r)) rs"

lemma dedup_rows_append:
  "dedup_rows key p (xs @ ys) = dedup_rows key p xs @ dedup_rows key (if xs = [] then p else Some (key (last xs))) ys"
  by (induction xs arbitrary: p) auto

definition is_first :: "('r \<Rightarrow> 'k) \<Rightarrow> 'k option \<Rightarrow> 'r list \<Rightarrow> nat \<Rightarrow> bool" where
  "is_first key p rows i = (if i = 0 then p \<noteq> Some (key (rows ! 0)) else key (rows ! i) \<noteq> key (rows ! (i - 1)))"

lemma selected_rows: "map ((!) rows) (filter (is_first key p rows) [0..<length rows]) = dedup_rows key p rows"
proof (induction rows arbitrary: p)
  case (Cons r rows)
  have "is_first key p (r # rows) (Suc i) = is_first key (Some (key r)) rows i" for i by (cases i) (auto simp: is_first_def)
  then have "filter (is_first key p (r # rows)) (map Suc [0..<length rows]) = map Suc (filter (is_first key (Some (key r)) rows) [0..<length rows])"
    by (simp add: filter_map comp_def)
  moreover have "[0..<length (r # rows)] = 0 # map Suc [0..<length rows]" by (simp add: upt_conv_Cons map_Suc_upt del: upt_Suc)
  moreover have "is_first key p (r # rows) 0 \<longleftrightarrow> p \<noteq> Some (key r)" by (simp add: is_first_def)
  ultimately show ?case using Cons [of "Some (key r)"]
    by (cases "p = Some (key r)") (simp_all add: comp_def del: upt_Suc)
qed simp

section \<open>Deduplication of a batch\<close>

lemma select_fold:
  assumes "n \<le> length sel"
  shows "res_fold (\<lambda>i sel. if p i then select_at i sel else Ok sel) [m..<n] sel =
    (Ok (map (\<lambda>i. sel ! i \<or> m \<le> i \<and> i < n \<and> p i) [0..<length sel]) :: ('e, _) result)"
  using assms
proof (induction n)
  case 0
  then show ?case by (simp add: map_nth)
next
  case (Suc n)
  show ?case
  proof (cases "m \<le> n")
    case True
    have "map (\<lambda>i. sel ! i \<or> m \<le> i \<and> i < Suc n \<and> p i) [0..<length sel] =
        (if p n then (map (\<lambda>i. sel ! i \<or> m \<le> i \<and> i < n \<and> p i) [0..<length sel])[n := True]
         else map (\<lambda>i. sel ! i \<or> m \<le> i \<and> i < n \<and> p i) [0..<length sel])"
      using True Suc(2) by (intro nth_equalityI) (auto simp: nth_list_update less_Suc_eq)
    then show ?thesis using Suc True by (simp add: upt_Suc_append res_fold_append select_at_def)
  next
    case False
    then have "map (\<lambda>i. sel ! i \<or> m \<le> i \<and> i < Suc n \<and> p i) [0..<length sel] = sel" by (intro nth_equalityI) auto
    then show ?thesis using False by simp
  qed
qed

lemma key_column:
  assumes "rs_key_ok rs" and "\<forall>r \<in> set rows. row_for rs r" and "j \<in> set (rs_primary_key_indexes rs)" and "i < length rows"
  shows "kind (rows ! i ! j) = cs_data_type (rs_cols rs ! j)" and "rows ! i ! j \<noteq> D_Null" and "is_key_kind (kind (rows ! i ! j))"
proof -
  have "row_for rs (rows ! i)" using assms(2,4) by simp
  then show "kind (rows ! i ! j) = cs_data_type (rs_cols rs ! j)" "rows ! i ! j \<noteq> D_Null"
    using assms(1,3) by (auto simp: rs_key_ok_def row_for_def list_all2_conv_all_nth check_datum_type_Ok split: if_splits)
  then show "is_key_kind (kind (rows ! i ! j))" using assms(1,3) by (simp add: rs_key_ok_def)
qed

lemma column_dedup_ok:
  assumes "rs_key_ok rs" and "arrow_reads ar" and "\<forall>r \<in> set rows. row_for rs r" and "rows \<noteq> []"
    and "j \<in> set (rs_primary_key_indexes rs)" and "length sel = length rows"
  shows "res_bind (index_res (rb_columns (batch_of rs rows)) j) (\<lambda>c. column_dedup ar c sel) =
    (Ok (map (\<lambda>i. sel ! i \<or> i = 0 \<or> rows ! i ! j \<noteq> rows ! (i - 1) ! j) [0..<length rows]) :: ('e, _) result)"
proof -
  let ?c = "rb_columns (batch_of rs rows) ! j" and ?n = "length rows"
  have j: "j < length (rs_cols rs)" using assms(1,5) by (simp add: rs_key_ok_def)
  have c: "j < length (rb_columns (batch_of rs rows))" "length (cb_data ?c) = ?n" "cb_kind ?c = cs_data_type (rs_cols rs ! j)"
    "\<And>i. i < ?n \<Longrightarrow> cb_data ?c ! i = rows ! i ! j" using j by (simp_all add: batch_of_def builder_with_fields)
  note key = key_column [OF assms(1,3,5)]
  have n: "0 < ?n" using assms(4) by simp
  have kind: "cb_kind ?c \<noteq> K_Null" using key [OF n] c(3) by (cases "rows ! 0 ! j") auto
  have val: "ar_value ar ?c i = rows ! i ! j" if "i < ?n" for i
    using assms(2) c(2,4) key(2) that by (auto simp: arrow_reads_def)
  have dict: "ar_key ar ?c i \<noteq> ar_key ar ?c (i - 1) \<longleftrightarrow> rows ! i ! j \<noteq> rows ! (i - 1) ! j" if "i < ?n" for i
    using assms(2) c(2,4) key(2) that by (simp add: arrow_reads_def less_imp_diff_less)
  have cmp: "partial_cmp (rows ! i ! j) (rows ! (i - 1) ! j) \<noteq> Some Equal \<longleftrightarrow> rows ! i ! j \<noteq> rows ! (i - 1) ! j" if "i < ?n" for i
    using partial_cmp_key_kind(2) [of "rows ! i ! j" "rows ! (i - 1) ! j"] key [of i] key [of "i - 1"] that by simp
  let ?sel = "sel[0 := True]"
  have sel: "select_at 0 sel = (Ok ?sel :: ('e, _) result)" using assms(6) n by (simp add: select_at_def)
  have goal: "map (\<lambda>i. ?sel ! i \<or> 1 \<le> i \<and> i < ?n \<and> Q i) [0..<?n] =
      map (\<lambda>i. sel ! i \<or> i = 0 \<or> rows ! i ! j \<noteq> rows ! (i - 1) ! j) [0..<?n]"
    if "\<And>i. i < ?n \<Longrightarrow> Q i \<longleftrightarrow> rows ! i ! j \<noteq> rows ! (i - 1) ! j" for Q
  proof (intro map_cong refl)
    fix i assume "i \<in> set [0..<?n]"
    then have "i < ?n" by simp
    then show "(?sel ! i \<or> 1 \<le> i \<and> i < ?n \<and> Q i) = (sel ! i \<or> i = 0 \<or> rows ! i ! j \<noteq> rows ! (i - 1) ! j)"
      using that [of i] assms(6) by (cases "i = 0") (simp_all add: Suc_le_eq)
  qed
  have ne: "cb_data ?c \<noteq> []" using c(2) n by auto
  have "column_dedup ar ?c sel = (Ok (map (\<lambda>i. sel ! i \<or> i = 0 \<or> rows ! i ! j \<noteq> rows ! (i - 1) ! j) [0..<?n]) :: ('e, _) result)"
  proof (cases "cb_dict ?c")
    case True
    then show ?thesis using ne sel c(2) assms(6) goal [OF dict] by (simp add: column_dedup_def dedup_dictionary_def)
  next
    case False
    have fold: "res_fold (\<lambda>i sel. if partial_cmp (ar_value ar ?c i) (ar_value ar ?c (i - 1)) \<noteq> Some Equal then select_at i sel else Ok sel)
        [1..<?n] ?sel = (Ok (map (\<lambda>i. ?sel ! i \<or> 1 \<le> i \<and> i < ?n \<and>
          partial_cmp (ar_value ar ?c i) (ar_value ar ?c (i - 1)) \<noteq> Some Equal) [0..<?n]) :: ('e, _) result)"
      using select_fold [of ?n ?sel] assms(6) by simp
    have "partial_cmp (ar_value ar ?c i) (ar_value ar ?c (i - 1)) \<noteq> Some Equal \<longleftrightarrow> rows ! i ! j \<noteq> rows ! (i - 1) ! j" if "i < ?n" for i
      using val that cmp by simp
    note g = goal [OF this]
    show ?thesis unfolding column_dedup_def dedup_values_def if_not_P [OF False] if_not_P [OF kind] if_not_P [OF ne] sel res_bind.simps c(2)
      fold using g by simp
  qed
  then show ?thesis using c(1) by (simp add: index_res_def)
qed

lemma columns_dedup_ok:
  assumes "rs_key_ok rs" and "arrow_reads ar" and "\<forall>r \<in> set rows. row_for rs r" and "rows \<noteq> []"
    and "set ixs \<subseteq> set (rs_primary_key_indexes rs)" and "length sel = length rows"
  shows "res_fold (\<lambda>j sel. res_bind (index_res (rb_columns (batch_of rs rows)) j) (\<lambda>c. column_dedup ar c sel)) ixs sel =
    (Ok (map (\<lambda>i. sel ! i \<or> ixs \<noteq> [] \<and> i = 0 \<or> (\<exists>j \<in> set ixs. rows ! i ! j \<noteq> rows ! (i - 1) ! j)) [0..<length rows]) :: ('e, _) result)"
  using assms(5,6)
proof (induction ixs arbitrary: sel)
  case Nil
  then show ?case using map_nth [of sel] by simp
next
  case (Cons j ixs)
  have j: "j \<in> set (rs_primary_key_indexes rs)" "set ixs \<subseteq> set (rs_primary_key_indexes rs)" using Cons(2) by auto
  let ?sel = "map (\<lambda>i. sel ! i \<or> i = 0 \<or> rows ! i ! j \<noteq> rows ! (i - 1) ! j) [0..<length rows]"
  have "map (\<lambda>i. ?sel ! i \<or> ixs \<noteq> [] \<and> i = 0 \<or> (\<exists>j \<in> set ixs. rows ! i ! j \<noteq> rows ! (i - 1) ! j)) [0..<length rows] =
      map (\<lambda>i. sel ! i \<or> j # ixs \<noteq> [] \<and> i = 0 \<or> (\<exists>j \<in> set (j # ixs). rows ! i ! j \<noteq> rows ! (i - 1) ! j)) [0..<length rows]"
    by (intro map_cong refl) auto
  then show ?case unfolding res_fold.simps column_dedup_ok [OF assms(1-4) j(1) Cons(3)] res_bind.simps
    using Cons(1) [OF j(2), of ?sel] by simp
qed

lemma row_key_eq:
  assumes "rs_key_ok rs" and "row_for rs r" and "row_for rs r'"
  shows "row_key rs r = row_key rs r' \<longleftrightarrow> (\<forall>j \<in> set (rs_primary_key_indexes rs). r ! j = r' ! j)"
proof -
  have "concat (map (\<lambda>j. mem_repr (r ! j)) ixs) = concat (map (\<lambda>j. mem_repr (r' ! j)) ixs) \<Longrightarrow> (\<forall>j \<in> set ixs. r ! j = r' ! j)"
    if "set ixs \<subseteq> set (rs_primary_key_indexes rs)" for ixs
    using that
  proof (induction ixs)
    case (Cons j ixs)
    have j: "j \<in> set (rs_primary_key_indexes rs)" using Cons(3) by simp
    have k: "kind (r ! j) = kind (r' ! j)" "is_key_kind (kind (r ! j))"
      using key_column [OF assms(1) _ j, of "[r]" 0] key_column [OF assms(1) _ j, of "[r']" 0] assms(2,3) by simp_all
    have kv: "key_valid (kind (r ! j)) (r ! j)" "key_valid (kind (r ! j)) (r' ! j)" using k by (auto simp: key_valid_def)
    have "r ! j = r' ! j \<and> concat (map (\<lambda>j. mem_repr (r ! j)) ixs) = concat (map (\<lambda>j. mem_repr (r' ! j)) ixs)"
      using mem.append_inject [of "kind (r ! j)" "r ! j" "r' ! j"] key_valid_mem_valid [OF kv(1)] key_valid_mem_valid [OF kv(2)] k Cons(2)
      by auto
    then show ?case using Cons(1,3) by simp
  qed simp
  then show ?thesis by (auto simp: row_key_def intro!: arg_cong [of _ _ concat])
qed

lemma selection_ok:
  assumes "rs_key_ok rs" and "arrow_reads ar" and "\<forall>r \<in> set rows. row_for rs r" and "rows \<noteq> []"
    and "case prev of None \<Rightarrow> True | Some r \<Rightarrow> row_for rs r"
  shows "res_bind (res_fold (\<lambda>j sel. res_bind (index_res (rb_columns (batch_of rs rows)) j) (\<lambda>c. column_dedup ar c sel))
      (rs_primary_key_indexes rs) (replicate (length rows) False)) (dedup_with_prev rs prev (batch_of rs rows)) =
    (Ok (map (is_first (row_key rs) (map_option (row_key rs) prev) rows) [0..<length rows]) :: ('e, _) result)"
proof -
  have cols: "rs_cols rs \<noteq> []" "rs_primary_key_indexes rs \<noteq> []" using assms(1) by (simp_all add: rs_key_ok_def)
  have key: "(\<exists>j \<in> set (rs_primary_key_indexes rs). rows ! i ! j \<noteq> rows ! (i - 1) ! j) \<longleftrightarrow> row_key rs (rows ! i) \<noteq> row_key rs (rows ! (i - 1))"
    if "i < length rows" for i
    using row_key_eq [OF assms(1), of "rows ! i" "rows ! (i - 1)"] assms(3) that by (simp add: less_imp_diff_less)
  let ?sel = "map (\<lambda>i. i = 0 \<or> row_key rs (rows ! i) \<noteq> row_key rs (rows ! (i - 1))) [0..<length rows]"
  have sel: "res_fold (\<lambda>j sel. res_bind (index_res (rb_columns (batch_of rs rows)) j) (\<lambda>c. column_dedup ar c sel))
      (rs_primary_key_indexes rs) (replicate (length rows) False) = (Ok ?sel :: ('e, _) result)"
    unfolding columns_dedup_ok [OF assms(1-4) subset_refl length_replicate] using cols key by auto
  have first: "clone_row_at (batch_of rs rows) 0 = rows ! 0" using batch_of_rows(3) [OF cols(1) assms(3), of 0] assms(4) by simp
  show ?thesis
  proof (cases prev)
    case None
    then show ?thesis unfolding sel res_bind.simps by (auto simp: dedup_with_prev_def is_first_def)
  next
    case (Some r)
    have "row_for rs r" "row_for rs (rows ! 0)" using assms(3-5) Some by auto
    note cmp = compare_rows [OF assms(1) this, where 'e = 'e]
    have "dedup_with_prev rs prev (batch_of rs rows) ?sel =
        (Ok (if row_key rs r = row_key rs (rows ! 0) then ?sel[0 := False] else ?sel) :: ('e, _) result)"
      unfolding dedup_with_prev_def Some option.case first cmp by (simp add: lin_cmp_def)
    also have "(if row_key rs r = row_key rs (rows ! 0) then ?sel[0 := False] else ?sel) =
        map (is_first (row_key rs) (map_option (row_key rs) prev) rows) [0..<length rows]"
    proof (intro nth_equalityI)
      fix i assume "i < length (if row_key rs r = row_key rs (rows ! 0) then ?sel[0 := False] else ?sel)"
      then have "i < length rows" by (auto split: if_splits)
      then show "(if row_key rs r = row_key rs (rows ! 0) then ?sel[0 := False] else ?sel) ! i =
          map (is_first (row_key rs) (map_option (row_key rs) prev) rows) [0..<length rows] ! i"
        using Some by (cases "i = 0") (simp_all add: is_first_def)
    qed simp
    finally show ?thesis unfolding sel res_bind.simps .
  qed
qed

lemma append_selected:
  assumes "rs_cols rs \<noteq> []" and "\<forall>r \<in> set rows. row_for rs r" and "\<forall>i \<in> set is. i < length rows"
  shows "res_fold (\<lambda>i bb. if sel i then append_row_view bb (batch_of rs rows) i else Ok bb) is (builder_with rs acc) =
    Ok (builder_with rs (acc @ map ((!) rows) (filter sel is)))"
  using assms(3) by (induction "is" arbitrary: acc) (simp_all add: append_row_view_of [OF assms(2)])

text \<open>What a batch becomes, and the row that is kept for the next one.\<close>

lemma dedup_batch_ok:
  assumes "rs_key_ok rs" and "arrow_reads ar" and "arrow_accepts arrow_ok" and "batch_ok rs b" and "0 < batch_num_rows b"
    and "di_schema di = rs" and "\<exists>rows. di_builder di = builder_with rs rows"
    and "case di_prev_row di of None \<Rightarrow> True | Some r \<Rightarrow> row_for rs r"
  shows "\<exists>b' di'. dedup_batch arrow_ok ar b di = (Ok (b', di') :: ('f dedup_error, _) result) \<and> batch_ok rs b' \<and>
    batch_rows b' = dedup_rows (row_key rs) (map_option (row_key rs) (di_prev_row di)) (batch_rows b) \<and>
    di_prev_row di' = Some (last (batch_rows b)) \<and> di_schema di' = rs \<and> (\<exists>rows. di_builder di' = builder_with rs rows) \<and>
    di_iter di' = di_iter di"
proof -
  have cols: "rs_cols rs \<noteq> []" using assms(1) by (simp add: rs_key_ok_def)
  define rows where "rows = batch_rows b"
  have b: "b = batch_of rs rows" "\<forall>r \<in> set rows. row_for rs r" "batch_num_rows b = length rows"
    using batch_ok_rows [OF cols assms(4)] by (simp_all add: rows_def)
  have ne: "rows \<noteq> []" using b(3) assms(5) by auto
  let ?first = "is_first (row_key rs) (map_option (row_key rs) (di_prev_row di)) rows"
  let ?sel = "map ?first [0..<length rows]" and ?out = "dedup_rows (row_key rs) (map_option (row_key rs) (di_prev_row di)) rows"
  let ?di = "di\<lparr>di_selected_rows := ?sel, di_prev_row := Some (last rows)\<rparr>"
  have last: "clone_row_at b (batch_num_rows b - 1) = last rows"
    using batch_of_rows(3) [OF cols b(2), of "length rows - 1"] ne b(1,3) last_conv_nth [OF ne] by simp
  have "(dedup_batch arrow_ok ar b di :: ('f dedup_error, _) result) = res_bind (res_bind (res_fold (\<lambda>j sel. res_bind (index_res (rb_columns b) j) (\<lambda>c. column_dedup ar c sel))
      (rs_primary_key_indexes rs) (replicate (length rows) False)) (dedup_with_prev rs (di_prev_row di) b)) (\<lambda>selected.
        filter_batch arrow_ok b (length (filter id selected)) (di\<lparr>di_selected_rows := selected, di_prev_row := Some (last rows)\<rparr>))"
    using assms(5,6) last b(3) by (simp add: dedup_batch_def Let_def res_bind_assoc)
  then have run: "(dedup_batch arrow_ok ar b di :: ('f dedup_error, _) result) = filter_batch arrow_ok b (length (filter id ?sel)) ?di"
    unfolding selection_ok [OF assms(1,2) b(2) ne assms(8), where 'e = "'f dedup_error", folded b(1)] by (simp only: res_bind.simps)
  have out: "map ((!) rows) (filter ?first [0..<length rows]) = ?out" by (rule selected_rows)
  have count: "length (filter id ?sel) = length ?out" unfolding out [symmetric] by (simp add: filter_map comp_def)
  have out_for: "\<forall>r \<in> set ?out. row_for rs r" unfolding out [symmetric] using b(2) by auto
  show ?thesis
  proof (cases "length ?out = length rows")
    case True
    then have "length (filter ?first [0..<length rows]) = length [0..<length rows]" unfolding out [symmetric] by simp
    then have "filter ?first [0..<length rows] = [0..<length rows]" by (metis filter_id_conv length_filter_less order_less_irrefl)
    then have "?out = rows" unfolding out [symmetric] by (simp add: map_nth)
    then show ?thesis using run count b(3) assms(4,6,7) True by (simp add: filter_batch_def Let_def rows_def)
  next
    case False
    obtain acc where acc: "di_builder di = builder_with rs acc" using assms(7) by blast
    have "res_fold (\<lambda>i bb. if ?sel ! i then append_row_view bb b i else Ok bb) [0..<length rows] (builder_with rs []) =
        res_fold (\<lambda>i bb. if ?first i then append_row_view bb b i else Ok bb) [0..<length rows] (builder_with rs [])"
      by (intro res_fold_cong) simp
    also have "\<dots> = Ok (builder_with rs ?out)" unfolding b(1) using append_selected [OF cols b(2), of "[0..<length rows]" ?first "[]"] out by simp
    finally have "filter_batch arrow_ok b (length (filter id ?sel)) ?di = (Ok (batch_of rs ?out,
        ?di\<lparr>di_total_selected_rows := di_total_selected_rows di + length ?out,
            di_total_duplications := di_total_duplications di + (length rows - length ?out), di_builder := builder_with rs []\<rparr>) :: ('f dedup_error, _) result)"
      using False count b(3) acc batch_build_of [OF assms(3) cols out_for] by (simp add: filter_batch_def Let_def builder_clear)
    then show ?thesis using run assms(6) batch_of_ok [OF out_for] batch_of_rows(1) [OF cols out_for] by (auto simp: rows_def)
  qed
qed

section \<open>The rows of the deduplicating iterator\<close>

lemma dedup_drain:
  assumes "rs_key_ok rs" and "arrow_reads ar" and "arrow_accepts arrow_ok" and "drain nxt n it = Some bs"
    and "\<forall>b \<in> set bs. batch_ok rs b \<and> 0 < batch_num_rows b" and "di_iter di = it" and "di_schema di = rs"
    and "\<exists>rows. di_builder di = builder_with rs rows" and "case di_prev_row di of None \<Rightarrow> True | Some r \<Rightarrow> row_for rs r"
  shows "\<exists>bs'. drain (dedup_next_batch arrow_ok ar nxt) n di = Some bs' \<and> (\<forall>b \<in> set bs'. batch_ok rs b) \<and>
    rows_of bs' = dedup_rows (row_key rs) (map_option (row_key rs) (di_prev_row di)) (rows_of bs)"
  using assms(4-9)
proof (induction n arbitrary: it di bs)
  case (Suc n)
  have cols: "rs_cols rs \<noteq> []" using assms(1) by (simp add: rs_key_ok_def)
  consider it' where "nxt it = Some (Ok (None, it'))" "bs = []"
    | b it' bs1 where "nxt it = Some (Ok (Some b, it'))" "drain nxt n it' = Some bs1" "bs = b # bs1"
    using Suc(2) by (auto split: option.splits result.splits prod.splits)
  then show ?case
  proof cases
    case 1
    then show ?thesis using Suc(4) by (intro exI [of _ "[]"]) (simp add: dedup_next_batch_def)
  next
    case 2
    have b: "batch_ok rs b" "0 < batch_num_rows b" using Suc(3) 2(3) by simp_all
    let ?di = "di\<lparr>di_iter := it'\<rparr>"
    obtain b' di' where d: "dedup_batch arrow_ok ar b ?di = (Ok (b', di') :: ('b dedup_error, _) result)" "batch_ok rs b'"
      "batch_rows b' = dedup_rows (row_key rs) (map_option (row_key rs) (di_prev_row di)) (batch_rows b)"
      "di_prev_row di' = Some (last (batch_rows b))" "di_schema di' = rs" "\<exists>rows. di_builder di' = builder_with rs rows" "di_iter di' = it'"
      using dedup_batch_ok [OF assms(1-3) b, of ?di, where 'f = 'b] Suc(5-7) by auto
    have rows: "batch_rows b \<noteq> []" "\<forall>r \<in> set (batch_rows b). row_for rs r" using batch_ok_rows(2,3) [OF cols b(1)] b(2) by auto
    then have "row_for rs (last (batch_rows b))" by simp
    then obtain bs' where bs': "drain (dedup_next_batch arrow_ok ar nxt) n di' = Some bs'" "\<forall>b \<in> set bs'. batch_ok rs b"
      "rows_of bs' = dedup_rows (row_key rs) (map_option (row_key rs) (di_prev_row di')) (rows_of bs1)"
      using Suc(1) [OF 2(2), of di'] Suc(3) 2(3) d(4-7) by auto
    have "dedup_next_batch arrow_ok ar nxt di = Some (Ok (Some b', di'))" using 2(1) Suc(4) d(1) by (simp add: dedup_next_batch_def)
    then show ?thesis using bs' d(2-4) 2(3) rows(1) by (intro exI [of _ "b' # bs'"]) (simp add: dedup_rows_append)
  qed
qed simp

lemma dedup_new_drain:
  assumes "rs_key_ok rs" and "arrow_reads ar" and "arrow_accepts arrow_ok" and "drain nxt n it = Some bs"
    and "\<forall>b \<in> set bs. batch_ok rs b \<and> 0 < batch_num_rows b"
  shows "\<exists>bs'. drain (dedup_next_batch arrow_ok ar nxt) n (dedup_new rs it) = Some bs' \<and> (\<forall>b \<in> set bs'. batch_ok rs b) \<and>
    rows_of bs' = dedup_rows (row_key rs) None (rows_of bs)"
  using dedup_drain [OF assms, of "dedup_new rs it"] builder_with_Nil [of rs, symmetric] by (auto simp: dedup_new_def)

section \<open>The interface of iterators\<close>

text \<open>
  The trait \<open>RecordBatchWithKeyIterator\<close>: an iterator with at most \<open>k\<close> rows left returns a non-empty
  batch of the record schema and has as many rows less, or it is exhausted.  The deduplicating
  iterator relies on nothing else.
\<close>

locale batch_iterator =
  fixes nxt :: "'i \<Rightarrow> ('e, record_batch_with_key option \<times> 'i) result option" and rs :: record_schema_with_key
    and ready :: "'i \<Rightarrow> nat \<Rightarrow> bool"
  assumes next_ok: "ready it k \<Longrightarrow> \<exists>b it'. nxt it = Some (Ok (b, it')) \<and>
    (case b of None \<Rightarrow> True
     | Some b \<Rightarrow> batch_ok rs b \<and> 0 < batch_num_rows b \<and> batch_num_rows b \<le> k \<and> ready it' (k - batch_num_rows b))"
begin

lemma drains:
  assumes "ready it k" and "k < n"
  shows "\<exists>bs. drain nxt n it = Some bs \<and> (\<forall>b \<in> set bs. batch_ok rs b \<and> 0 < batch_num_rows b) \<and> (\<Sum>b\<leftarrow>bs. batch_num_rows b) \<le> k"
  using assms
proof (induction n arbitrary: it k)
  case (Suc n)
  obtain b it' where b: "nxt it = Some (Ok (b, it'))"
    "case b of None \<Rightarrow> True
     | Some b \<Rightarrow> batch_ok rs b \<and> 0 < batch_num_rows b \<and> batch_num_rows b \<le> k \<and> ready it' (k - batch_num_rows b)"
    using next_ok [OF Suc(2)] by blast
  show ?case
  proof (cases b)
    case None
    then show ?thesis using b(1) by (intro exI [of _ "[]"]) simp
  next
    case (Some v)
    then have v: "batch_ok rs v" "0 < batch_num_rows v" "batch_num_rows v \<le> k" "ready it' (k - batch_num_rows v)" using b(2) by simp_all
    then have "k - batch_num_rows v < n" using Suc(3) by linarith
    from Suc(1) [OF v(4) this] obtain bs where "drain nxt n it' = Some bs" "\<forall>b \<in> set bs. batch_ok rs b \<and> 0 < batch_num_rows b"
      "(\<Sum>b\<leftarrow>bs. batch_num_rows b) \<le> k - batch_num_rows v" by blast
    then show ?thesis using b(1) Some v by (intro exI [of _ "v # bs"]) simp
  qed
qed simp

lemma dedup_drains:
  assumes "rs_key_ok rs" and "arrow_reads ar" and "arrow_accepts arrow_ok" and "ready it k" and "k < n"
  shows "\<exists>bs bs'. drain nxt n it = Some bs \<and> drain (dedup_next_batch arrow_ok ar nxt) n (dedup_new rs it) = Some bs' \<and>
    rows_of bs' = dedup_rows (row_key rs) None (rows_of bs)"
proof -
  obtain bs where bs: "drain nxt n it = Some bs" "\<forall>b \<in> set bs. batch_ok rs b \<and> 0 < batch_num_rows b" using drains [OF assms(4,5)] by blast
  from dedup_new_drain [OF assms(1-3) bs] show ?thesis using bs(1) by blast
qed

end

definition merge_iter_ready :: "arrow_check \<Rightarrow> 'e heap_top \<Rightarrow> record_schema_with_key \<Rightarrow> 'e merge_iterator \<Rightarrow> nat \<Rightarrow> bool" where
  "merge_iter_ready arrow_ok tp rs mi k \<longleftrightarrow> rs_key_ok rs \<and> arrow_accepts arrow_ok \<and>
     (\<exists>reverse batch_size m. heap_ok reverse tp \<and> 0 < batch_size \<and> merge_ready rs reverse tp mi m batch_size \<and> size m \<le> k)"

interpretation merge_iter: batch_iterator "merge_next_batch arrow_ok tp" rs "merge_iter_ready arrow_ok tp rs" for arrow_ok tp rs
proof
  fix mi :: "'a merge_iterator" and k assume "merge_iter_ready arrow_ok tp rs mi k"
  then obtain reverse batch_size m where r: "rs_key_ok rs" "arrow_accepts arrow_ok" "heap_ok reverse tp" "0 < batch_size"
    "merge_ready rs reverse tp mi m batch_size" "size m \<le> k" by (auto simp: merge_iter_ready_def)
  have cols: "rs_cols rs \<noteq> []" using r(1) by (simp add: rs_key_ok_def)
  obtain e m' mi' where e: "merge_next_batch arrow_ok tp mi = Some (Ok (if e = [] then None else Some (batch_of rs (map snd e)), mi'))"
    "merge_ready rs reverse tp mi' m' batch_size" "m = mset e + m'" "\<forall>x \<in> set e. row_for rs (snd x)"
    using merge_next_batch_ok [OF r(1,3,2,4,5)] by blast
  have rows: "\<forall>r \<in> set (map snd e). row_for rs r" using e(4) by auto
  have num: "batch_num_rows (batch_of rs (map snd e)) = length e" using batch_of_rows(2) [OF cols rows] by simp
  have "size m' \<le> k - length e" using r(6) e(3) by simp
  then have "merge_iter_ready arrow_ok tp rs mi' (k - length e)" unfolding merge_iter_ready_def using r e(2) by blast
  then show "\<exists>b it'. merge_next_batch arrow_ok tp mi = Some (Ok (b, it')) \<and>
      (case b of None \<Rightarrow> True
       | Some b \<Rightarrow> batch_ok rs b \<and> 0 < batch_num_rows b \<and> batch_num_rows b \<le> k \<and>
           merge_iter_ready arrow_ok tp rs it' (k - batch_num_rows b))"
    using e(1,3) r(6) num batch_of_ok [OF rows] by (cases "e = []") auto
qed

text \<open>In a sorted list the first row of a key is the newest one.\<close>

abbreviation srow_key :: "record_schema_with_key \<Rightarrow> srow \<Rightarrow> bytes" where
  "srow_key rs x \<equiv> row_key rs (snd x)"

lemma before_same_key: "before rs reverse x y \<Longrightarrow> srow_key rs x = srow_key rs y \<Longrightarrow> fst y \<le> fst x"
  by (auto simp: before_def key_before_def split: if_splits)

lemma before_other_key: "before rs reverse x y \<Longrightarrow> srow_key rs x \<noteq> srow_key rs y \<Longrightarrow> key_before rs reverse x y"
  by (simp add: before_def)

lemma key_before_neq: "key_before rs reverse x y \<Longrightarrow> srow_key rs x \<noteq> srow_key rs y"
  by (auto simp: key_before_def split: if_splits)

lemma dedup_sorted_sound:
  assumes "sorted_wrt (before rs reverse) xs" and "\<forall>q. prev = Some q \<longrightarrow> (\<forall>x \<in> set xs. before rs reverse q x)"
    and "y \<in> set (dedup_rows (srow_key rs) (map_option (srow_key rs) prev) xs)"
  shows "y \<in> set xs \<and> (\<forall>q. prev = Some q \<longrightarrow> srow_key rs q \<noteq> srow_key rs y) \<and>
    (\<forall>z \<in> set xs. srow_key rs z = srow_key rs y \<longrightarrow> fst z \<le> fst y)"
  using assms
proof (induction xs arbitrary: prev)
  case (Cons x xs)
  consider "y = x" "map_option (srow_key rs) prev \<noteq> Some (srow_key rs x)"
    | "y \<in> set (dedup_rows (srow_key rs) (map_option (srow_key rs) (Some x)) xs)" using Cons(4) by (auto split: if_splits)
  then show ?case
  proof cases
    case 1
    then show ?thesis using Cons(2) before_same_key [of rs reverse x] by (cases prev) auto
  next
    case 2
    have IH: "y \<in> set xs" "srow_key rs x \<noteq> srow_key rs y" "\<forall>z \<in> set xs. srow_key rs z = srow_key rs y \<longrightarrow> fst z \<le> fst y"
      using Cons(1) [of "Some x"] Cons(2) 2 by auto
    then have xy: "key_before rs reverse x y" using Cons(2) before_other_key by simp
    have "srow_key rs q \<noteq> srow_key rs y" if "prev = Some q" for q
    proof -
      have "before rs reverse q x" using Cons(3) that by simp
      then show ?thesis by (rule key_before_neq [OF key_before_trans(1) [OF _ xy]])
    qed
    then show ?thesis using IH by auto
  qed
qed simp

lemma dedup_complete:
  "x \<in> set xs \<Longrightarrow> p \<noteq> Some (key x) \<Longrightarrow> \<exists>z \<in> set (dedup_rows key p xs). key z = key x"
proof (induction xs arbitrary: p)
  case (Cons y xs)
  show ?case
  proof (cases "key y = key x")
    case False
    then show ?thesis using Cons(1) [of "Some (key y)"] Cons(2) by auto
  qed (use Cons(3) in auto)
qed simp

lemma dedup_sorted_strict:
  assumes "sorted_wrt (before rs reverse) xs"
  shows "sorted_wrt (key_before rs reverse) (dedup_rows (srow_key rs) (map_option (srow_key rs) prev) xs)"
  using assms
proof (induction xs arbitrary: prev)
  case (Cons x xs)
  have "key_before rs reverse x y" if "y \<in> set (dedup_rows (srow_key rs) (Some (srow_key rs x)) xs)" for y
    using dedup_sorted_sound [of rs reverse xs "Some x" y] Cons(2) that before_other_key by simp
  then show ?case using Cons(1) [of "Some x"] Cons(2) by auto
qed simp

lemma map_dedup: "map snd (dedup_rows (\<lambda>x. key (snd x)) p xs) = dedup_rows key p (map snd xs)"
  by (induction xs arbitrary: p) auto

lemma dedup_sorted_newest:
  assumes "sorted_wrt (before rs reverse) xs"
    and "\<forall>x \<in> set xs. \<forall>y \<in> set xs. fst x = fst y \<and> srow_key rs x = srow_key rs y \<longrightarrow> x = y"
  shows "set (dedup_rows (srow_key rs) None xs) = {x \<in> set xs. \<forall>y \<in> set xs. srow_key rs y = srow_key rs x \<longrightarrow> fst y \<le> fst x}"
proof -
  note sound = dedup_sorted_sound [OF assms(1), of None, simplified]
  have "x \<in> set (dedup_rows (srow_key rs) None xs)"
    if x: "x \<in> set xs" "\<forall>y \<in> set xs. srow_key rs y = srow_key rs x \<longrightarrow> fst y \<le> fst x" for x
  proof -
    obtain z where z: "z \<in> set (dedup_rows (srow_key rs) None xs)" "srow_key rs z = srow_key rs x"
      using dedup_complete [OF x(1), of None "srow_key rs"] by auto
    then have "z \<in> set xs" "fst x \<le> fst z" using sound [OF z(1)] x(1) by auto
    then have "z = x" using x assms(2) z(2) by (meson order_antisym)
    then show ?thesis using z(1) by simp
  qed
  then show ?thesis using sound by blast
qed

subsection \<open>A concrete arrow\<close>

text \<open>The dictionary key of a value is the first index that has it.\<close>

definition plain_arrow :: arrow_access where
  "plain_arrow = \<lparr>ar_value = \<lambda>c i. cb_data c ! i,
     ar_key = \<lambda>c i. Some (length (takeWhile (\<lambda>d. d \<noteq> cb_data c ! i) (cb_data c)))\<rparr>"

lemma plain_arrow_ok: "arrow_reads plain_arrow"
proof -
  have "xs ! length (takeWhile (\<lambda>d. d \<noteq> xs ! i) xs) = xs ! i" if "i < length xs" for xs :: "datum list" and i
    using first_not [of "xs ! i" xs "\<lambda>d. d \<noteq> xs ! i"] that by simp
  then show ?thesis unfolding arrow_reads_def plain_arrow_def by auto metis
qed

section \<open>Properties\<close>

text \<open>
  C18. Whatever iterator it reads from, the deduplicating iterator returns, over all its batches, the
  rows whose key differs from the key of the row before them, also across the bounds of batches, and
  ends with it.  The batches it reads are not empty, and arrow arrays return the values put into them.
\<close>

theorem dedup_first_of_runs:
  assumes "rs_key_ok rs" and "arrow_reads ar" and "arrow_accepts arrow_ok" and "drain nxt n it = Some bs"
    and "\<forall>b \<in> set bs. batch_ok rs b \<and> 0 < batch_num_rows b"
  shows "\<exists>bs'. drain (dedup_next_batch arrow_ok ar nxt) n (dedup_new rs it) = Some bs' \<and> (\<forall>b \<in> set bs'. batch_ok rs b) \<and>
    rows_of bs' = dedup_rows (row_key rs) None (rows_of bs)"
  using dedup_new_drain [OF assms] .

lemma demo_kv_key: "row_key demo_kv_schema [D_Int64 k, D_Int64 v] = INT_FLAG # mem_i64_repr k"
  by (simp add: row_key_def demo_kv_schema_def)

lemma mem_i64_repr_inj: "mem_i64_repr k = mem_i64_repr k' \<longleftrightarrow> k = k'"
  using mem_i64.append_inject [of k "[]" k' "[]"] by auto

theorem dedup_first_of_runs_witness:
  "\<exists>bs'. drain (dedup_next_batch (\<lambda>_ _. True) plain_arrow
       (\<lambda>bs. Some (Ok (case bs of [] \<Rightarrow> (None, []) | b # bs \<Rightarrow> (Some b, bs)) :: (unit, _) result))) 3
       (dedup_new demo_kv_schema [sq_batch (demo_kv_batch 0 [(1, 11), (1, 10)]), sq_batch (demo_kv_batch 0 [(1, 9), (2, 20)])]) = Some bs' \<and>
     rows_of bs' = [[D_Int64 1, D_Int64 11], [D_Int64 2, D_Int64 20]]"
proof -
  let ?nxt = "\<lambda>bs. Some (Ok (case bs of [] \<Rightarrow> (None, []) | b # bs \<Rightarrow> (Some b, bs)) :: (unit, _) result)"
  let ?a = "sq_batch (demo_kv_batch 0 [(1, 11), (1, 10)])" and ?b = "sq_batch (demo_kv_batch 0 [(1, 9), (2, 20)])"
  have rows: "batch_rows (sq_batch (demo_kv_batch n kvs)) = map (\<lambda>(k, v). [D_Int64 k, D_Int64 v]) kvs" for n kvs
    using batch_of_rows(1) [OF _ demo_kv_rows, of kvs] demo_kv_key_ok by (simp add: demo_kv_batch_def rs_key_ok_def)
  have "drain ?nxt 3 [?a, ?b] = Some [?a, ?b]" by (simp add: numeral_3_eq_3)
  moreover have "\<forall>b \<in> set [?a, ?b]. batch_ok demo_kv_schema b \<and> 0 < batch_num_rows b"
    using batch_ok_rows(3) [OF _ demo_kv_srows(2)] rows demo_kv_srows(2) demo_kv_key_ok by (simp add: rs_key_ok_def)
  ultimately show ?thesis
    using dedup_first_of_runs [OF demo_kv_key_ok plain_arrow_ok accept_all, of ?nxt 3 "[?a, ?b]" "[?a, ?b]"]
    by (auto simp: rows demo_kv_key mem_i64_repr_inj)
qed

text \<open>The rows of the streams whose key no row with a greater sequence has.\<close>

definition newest_rows :: "record_schema_with_key \<Rightarrow> srow list \<Rightarrow> row list" where
  "newest_rows rs xs = map snd (filter (\<lambda>x. \<forall>y \<in> set xs. srow_key rs y = srow_key rs x \<longrightarrow> fst y \<le> fst x) xs)"

text \<open>
  C5. A read of a table that deduplicates: over sorted streams in which a key has at most one row for
  each sequence, the deduplicated merge returns for every key exactly one row, the one with the
  greatest sequence, in the order of the keys, and ends.  Equal keys of a dictionary array stand for
  equal values, as arrow's builders make them.
\<close>

theorem read_newest:
  assumes "rs_key_ok rs" and "heap_ok reverse tp" and "arrow_accepts arrow_ok" and "arrow_reads ar" and "0 < batch_size"
    and "\<forall>s \<in> set streams. source_ok rs reverse s"
    and "\<forall>x \<in> set (concat (map stream_srows streams)). \<forall>y \<in> set (concat (map stream_srows streams)).
      fst x = fst y \<and> row_key rs (snd x) = row_key rs (snd y) \<longrightarrow> x = y"
    and "length (concat (map stream_srows streams)) < n"
  shows "\<exists>bs. drain (dedup_next_batch arrow_ok ar (merge_next_batch arrow_ok tp)) n
      (dedup_new rs (merge_iterator_new rs streams batch_size reverse)) = Some bs \<and>
    sorted_wrt (\<lambda>r r'. if reverse then row_key rs r' < row_key rs r else row_key rs r < row_key rs r') (rows_of bs) \<and>
    set (rows_of bs) = set (newest_rows rs (concat (map stream_srows streams)))"
proof -
  let ?all = "concat (map stream_srows streams)"
  obtain bs xs where m: "drain (merge_next_batch arrow_ok tp) n (merge_iterator_new rs streams batch_size reverse) = Some bs"
    "rows_of bs = map snd xs" "mset xs = mset ?all" "sorted_wrt (before rs reverse) xs" using merged [OF assms(1-3,5,6,8)] by blast
  have set: "set xs = set ?all" using m(3) by (metis set_mset_mset)
  have "merge_iter_ready arrow_ok tp rs (merge_iterator_new rs streams batch_size reverse) (size (mset ?all))"
    unfolding merge_iter_ready_def merge_ready_def using assms(1-3,5) init_ok [OF assms(1,2,6), of batch_size] by blast
  from merge_iter.dedup_drains [OF assms(1,4,3) this, of n] obtain bs' where d: "drain (dedup_next_batch arrow_ok ar (merge_next_batch arrow_ok tp)) n
      (dedup_new rs (merge_iterator_new rs streams batch_size reverse)) = Some bs'"
    "rows_of bs' = dedup_rows (row_key rs) None (map snd xs)"
    using m(1,2) assms(8) by auto
  have rows: "rows_of bs' = map snd (dedup_rows (srow_key rs) None xs)" using d(2) map_dedup [of "row_key rs" None xs] by simp
  have "sorted_wrt (key_before rs reverse) (dedup_rows (srow_key rs) None xs)"
    using dedup_sorted_strict [OF m(4), of None] by simp
  then have "sorted_wrt (\<lambda>r r'. if reverse then row_key rs r' < row_key rs r else row_key rs r < row_key rs r') (rows_of bs')"
    unfolding rows sorted_wrt_map by (rule sorted_wrt_mono_rel [rotated]) (simp add: key_before_def)
  moreover have "set (dedup_rows (srow_key rs) None xs) = {x \<in> set xs. \<forall>y \<in> set xs. srow_key rs y = srow_key rs x \<longrightarrow> fst y \<le> fst x}"
    using assms(7) unfolding set [symmetric] by (rule dedup_sorted_newest [OF m(4)])
  then have "set (rows_of bs') = set (newest_rows rs ?all)" unfolding rows newest_rows_def set by auto
  ultimately show ?thesis using d(1) by blast
qed

theorem read_newest_witness:
  "\<exists>bs. drain (dedup_next_batch (\<lambda>_ _. True) plain_arrow (merge_next_batch (\<lambda>_ _. True) (heap_first False))) 6
       (dedup_new demo_kv_schema (merge_iterator_new demo_kv_schema demo_streams 2 False)) = Some bs \<and>
     set (rows_of bs) = {[D_Int64 1, D_Int64 11], [D_Int64 2, D_Int64 20], [D_Int64 3, D_Int64 30], [D_Int64 4, D_Int64 40]}"
proof -
  have newest: "newest_rows demo_kv_schema (concat (map stream_srows demo_streams)) =
      [[D_Int64 3, D_Int64 30], [D_Int64 4, D_Int64 40], [D_Int64 1, D_Int64 11], [D_Int64 2, D_Int64 20]]"
    unfolding demo_streams_rows by (simp add: newest_rows_def demo_kv_key mem_i64_repr_inj word_le_nat_alt)
  have uniq: "\<forall>x \<in> set (concat (map stream_srows demo_streams)). \<forall>y \<in> set (concat (map stream_srows demo_streams)).
      fst x = fst y \<and> row_key demo_kv_schema (snd x) = row_key demo_kv_schema (snd y) \<longrightarrow> x = y"
    unfolding demo_streams_rows by (simp add: demo_kv_key mem_i64_repr_inj)
  have "length (concat (map stream_srows demo_streams)) < 6" unfolding demo_streams_rows by simp
  from read_newest [OF demo_kv_key_ok heap_first_ok accept_all plain_arrow_ok _ demo_streams_ok uniq this, of 2]
  show ?thesis unfolding newest by auto
qed

section \<open>The rows of the chain iterator\<close>

definition chain_left :: "'e chain_iterator \<Rightarrow> srow list" where
  "chain_left ch = concat (map stream_srows (drop (ch_next_stream_idx ch) (ch_streams ch)))"

lemma drop_update_at: "i < length xs \<Longrightarrow> drop i (xs[i := y]) = y # drop (Suc i) xs"
  by (simp add: upd_conv_take_nth_drop)

lemma chain_next_batch_ok:
  assumes "rs_cols rs \<noteq> []" and "\<forall>s \<in> set (ch_streams ch). items_ok rs s"
  shows "\<exists>b ch'. chain_next_batch ch = Ok (b, ch') \<and> (\<forall>s \<in> set (ch_streams ch'). items_ok rs s) \<and>
    (case b of None \<Rightarrow> chain_left ch = []
     | Some b \<Rightarrow> batch_ok rs b \<and> 0 < batch_num_rows b \<and> map snd (chain_left ch) = batch_rows b @ map snd (chain_left ch'))"
  using assms(2)
proof (induction ch rule: chain_next_batch.induct)
  case (1 ch)
  let ?i = "ch_next_stream_idx ch"
  show ?case
  proof (cases "?i < length (ch_streams ch)")
    case False
    then show ?thesis using 1(3) by (simp add: chain_left_def chain_next_batch.simps [of ch])
  next
    case lt: True
    then have drop: "drop ?i (ch_streams ch) = ch_streams ch ! ?i # drop (Suc ?i) (ch_streams ch)" by (simp add: Cons_nth_drop_Suc)
    have items: "items_ok rs (ch_streams ch ! ?i)" using 1(3) lt by simp
    show ?thesis
    proof (cases "ch_streams ch ! ?i")
      case Nil
      then have left: "chain_left (ch\<lparr>ch_next_stream_idx := ?i + 1\<rparr>) = chain_left ch" using drop by (simp add: chain_left_def)
      have step: "chain_next_batch ch = chain_next_batch (ch\<lparr>ch_next_stream_idx := ?i + 1\<rparr>)"
        using lt Nil by (simp add: chain_next_batch.simps [of ch])
      have "\<forall>s \<in> set (ch_streams (ch\<lparr>ch_next_stream_idx := ?i + 1\<rparr>)). items_ok rs s" using 1(3) by simp
      from 1(1) [OF lt Nil this] show ?thesis unfolding step left .
    next
      case (Cons item s)
      then obtain v where v: "item = Ok v" "batch_ok rs (sq_batch v)" and s: "items_ok rs s" using items by (auto simp: items_ok_def)
      let ?ch = "ch\<lparr>ch_streams := (ch_streams ch)[?i := s], ch_total_rows_fetched := ch_total_rows_fetched ch + batch_num_rows (sq_batch v),
        ch_total_batch_fetched := ch_total_batch_fetched ch + 1\<rparr>"
      have at: "ch_streams ch ! ?i = Ok v # s" using Cons v(1) by simp
      have left: "map snd (chain_left ch) = batch_rows (sq_batch v) @ map snd (chain_left ?ch)"
        using drop at drop_update_at [OF lt, of s] by (simp add: chain_left_def batch_srows_def comp_def)
      have ok: "\<forall>s \<in> set (ch_streams ?ch). items_ok rs s" using 1(3) s by (auto dest: set_update_subset_insert [THEN subsetD])
      have n: "batch_num_rows (sq_batch v) = length (batch_rows (sq_batch v))" by (rule batch_ok_rows(3) [OF assms(1) v(2)])
      show ?thesis
      proof (cases "0 < batch_num_rows (sq_batch v)")
        case True
        then show ?thesis using lt at left ok v(2) by (simp add: chain_next_batch.simps [of ch] Let_def)
      next
        case False
        then have step: "chain_next_batch ch = chain_next_batch ?ch" using lt at by (simp add: chain_next_batch.simps [of ch] Let_def)
        have same: "map snd (chain_left ch) = map snd (chain_left ?ch)" using left n False by simp
        then have nil: "chain_left ch = [] \<longleftrightarrow> chain_left ?ch = []" by (metis map_is_Nil_conv)
        from 1(2) [OF lt Cons v(1) refl False ok] show ?thesis unfolding step same nil .
      qed
    qed
  qed
qed

definition chain_iter_ready :: "record_schema_with_key \<Rightarrow> 'e chain_iterator \<Rightarrow> nat \<Rightarrow> bool" where
  "chain_iter_ready rs ch k \<longleftrightarrow> rs_cols rs \<noteq> [] \<and> (\<forall>s \<in> set (ch_streams ch). items_ok rs s) \<and> length (chain_left ch) \<le> k"

interpretation chain_iter: batch_iterator "\<lambda>ch. Some (chain_next_batch ch)" rs "chain_iter_ready rs" for rs
proof
  fix ch :: "'a chain_iterator" and k assume r: "chain_iter_ready rs ch k"
  then have cols: "rs_cols rs \<noteq> []" by (simp add: chain_iter_ready_def)
  obtain b ch' where c: "chain_next_batch ch = Ok (b, ch')" "\<forall>s \<in> set (ch_streams ch'). items_ok rs s"
    "case b of None \<Rightarrow> chain_left ch = []
     | Some b \<Rightarrow> batch_ok rs b \<and> 0 < batch_num_rows b \<and> map snd (chain_left ch) = batch_rows b @ map snd (chain_left ch')"
    using chain_next_batch_ok [OF cols, of ch] r unfolding chain_iter_ready_def by blast
  have "batch_num_rows v \<le> k \<and> chain_iter_ready rs ch' (k - batch_num_rows v)" if "b = Some v" for v
  proof -
    have v: "batch_ok rs v" "map snd (chain_left ch) = batch_rows v @ map snd (chain_left ch')" using c(3) that by simp_all
    have "length (chain_left ch) = length (batch_rows v) + length (chain_left ch')" using arg_cong [OF v(2), of length] by simp
    then show ?thesis using batch_ok_rows(3) [OF cols v(1)] r c(2) by (auto simp: chain_iter_ready_def)
  qed
  then show "\<exists>b it'. Some (chain_next_batch ch) = Some (Ok (b, it')) \<and>
      (case b of None \<Rightarrow> True
       | Some b \<Rightarrow> batch_ok rs b \<and> 0 < batch_num_rows b \<and> batch_num_rows b \<le> k \<and> chain_iter_ready rs it' (k - batch_num_rows b))"
    using c(1,3) by (intro exI [of _ b] exI [of _ ch']) (simp split: option.splits)
qed

text \<open>
  C19. A read that does not deduplicate: the chain iterator returns all rows of its streams, one stream
  after the other, in non-empty batches, and ends.
\<close>

theorem chain_reads_all:
  assumes "rs_cols rs \<noteq> []" and "\<forall>s \<in> set streams. items_ok rs s" and "length (concat (map stream_srows streams)) < n"
  shows "\<exists>bs. drain (\<lambda>ch. Some (chain_next_batch ch)) n (chain_new rs streams) = Some bs \<and>
    rows_of bs = map snd (concat (map stream_srows streams)) \<and> (\<forall>b \<in> set bs. batch_ok rs b \<and> 0 < batch_num_rows b)"
proof -
  have "\<exists>bs. drain (\<lambda>ch. Some (chain_next_batch ch)) n ch = Some bs \<and> rows_of bs = map snd (chain_left ch) \<and>
      (\<forall>b \<in> set bs. batch_ok rs b \<and> 0 < batch_num_rows b)"
    if "length (chain_left ch) < n" "\<forall>s \<in> set (ch_streams ch). items_ok rs s" for ch :: "'a chain_iterator"
    using that
  proof (induction n arbitrary: ch)
    case (Suc n)
    obtain b ch' where c: "chain_next_batch ch = Ok (b, ch')" "\<forall>s \<in> set (ch_streams ch'). items_ok rs s"
      "case b of None \<Rightarrow> chain_left ch = []
       | Some b \<Rightarrow> batch_ok rs b \<and> 0 < batch_num_rows b \<and> map snd (chain_left ch) = batch_rows b @ map snd (chain_left ch')"
      using chain_next_batch_ok [OF assms(1) Suc(3)] by blast
    show ?case
    proof (cases b)
      case None
      then show ?thesis using c(1,3) by (intro exI [of _ "[]"]) simp
    next
      case (Some v)
      then have v: "batch_ok rs v" "0 < batch_num_rows v" "map snd (chain_left ch) = batch_rows v @ map snd (chain_left ch')" using c(3) by auto
      have "length (chain_left ch) = length (batch_rows v) + length (chain_left ch')" using arg_cong [OF v(3), of length] by simp
      then have "length (chain_left ch') < n" using Suc(2) batch_ok_rows(3) [OF assms(1) v(1)] v(2) by linarith
      then obtain bs where "drain (\<lambda>ch. Some (chain_next_batch ch)) n ch' = Some bs" "rows_of bs = map snd (chain_left ch')"
        "\<forall>b \<in> set bs. batch_ok rs b \<and> 0 < batch_num_rows b" using Suc(1) c(2) by blast
      then show ?thesis using c(1) Some v by (intro exI [of _ "v # bs"]) simp
    qed
  qed simp
  from this [of "chain_new rs streams"] show ?thesis using assms(2,3) by (simp add: chain_new_def chain_left_def)
qed

theorem chain_reads_all_witness:
  "\<exists>bs. drain (\<lambda>ch. Some (chain_next_batch ch)) 6 (chain_new demo_kv_schema demo_streams) = Some bs \<and>
     rows_of bs = [[D_Int64 1, D_Int64 10], [D_Int64 3, D_Int64 30], [D_Int64 4, D_Int64 40], [D_Int64 1, D_Int64 11], [D_Int64 2, D_Int64 20]]"
proof -
  have "length (concat (map stream_srows demo_streams)) < 6" unfolding demo_streams_rows by simp
  moreover have "\<forall>s \<in> set demo_streams. items_ok demo_kv_schema s" using demo_streams_ok by (simp add: source_ok_def)
  moreover have "rs_cols demo_kv_schema \<noteq> []" using demo_kv_key_ok by (simp add: rs_key_ok_def)
  ultimately show ?thesis using chain_reads_all [of demo_kv_schema demo_streams 6] unfolding demo_streams_rows by auto
qed

end
