(* ===== verification/Table_Version.thy ===== *)
theory Table_Version
  imports Memtable Sampler Sst_File
begin

text \<open>
  The version of a table (\<^verbatim>\<open>analytic_engine/src/table/version.rs\<close>, \<^verbatim>\<open>version_edit.rs\<close>): its memtables
  and its files, and the edits that change them.

  Memtables and samplers are shared through \<open>Arc\<close>s: a reference is an index into the heap
  \<open>mem_heap\<close>, and the memtable behind it changes for everyone who holds the reference.  The memory
  usage of a memtable is that of its arena, the argument \<open>usage\<close>.
\<close>

section \<open>Memtables of a version\<close>

type_synonym mem_table_id = nat
type_synonym mem_ref = nat

record mem_heap =
  mh_mems :: "memtable list"
  mh_samplers :: "sampler_state list"

abbreviation mem_at :: "mem_heap \<Rightarrow> mem_ref \<Rightarrow> memtable" where
  "mem_at h r \<equiv> mh_mems h ! r"

datatype version_error =
  SchemaMismatch u32 u32
| PutMemTable memtable_error
| CollectTimestamp sampler_error

record sampling_mem_table =
  sm_mem :: mem_ref
  sm_id :: mem_table_id
  sm_freezed :: bool
  sm_sampler :: nat

record mem_table_state =
  ms_mem :: mem_ref
  ms_time_range :: time_range
  ms_id :: mem_table_id

definition sampling_mem_table_new :: "mem_ref \<Rightarrow> mem_table_id \<Rightarrow> mem_heap \<Rightarrow> sampling_mem_table \<times> mem_heap" where
  "sampling_mem_table_new r i h =
     (\<lparr>sm_mem = r, sm_id = i, sm_freezed = False, sm_sampler = length (mh_samplers h)\<rparr>,
      h\<lparr>mh_samplers := mh_samplers h @ [sampler_new]\<rparr>)"

definition sm_last_sequence :: "mem_heap \<Rightarrow> sampling_mem_table \<Rightarrow> u64" where
  "sm_last_sequence h sm = mt_last_sequence (mem_at h (sm_mem sm))"

definition ms_last_sequence :: "mem_heap \<Rightarrow> mem_table_state \<Rightarrow> u64" where
  "ms_last_sequence h ms = mt_last_sequence (mem_at h (ms_mem ms))"

definition suggest_segment_duration :: "mem_heap \<Rightarrow> sampling_mem_table \<Rightarrow> (version_error, duration \<times> mem_heap) result" where
  "suggest_segment_duration h sm =
     res_bind (res_ctx CollectTimestamp (suggest_duration (mh_samplers h ! sm_sampler sm))) (\<lambda>(d, s).
       Ok (d, h\<lparr>mh_samplers := (mh_samplers h)[sm_sampler sm := s]\<rparr>))"

datatype mem_table_for_write = Sampling sampling_mem_table | Normal mem_table_state

primrec for_write_mem :: "mem_table_for_write \<Rightarrow> mem_ref" where
  "for_write_mem (Sampling v) = sm_mem v"
| "for_write_mem (Normal v) = ms_mem v"

definition for_write_set_last_sequence :: "mem_table_for_write \<Rightarrow> u64 \<Rightarrow> mem_heap \<Rightarrow> (memtable_error, mem_heap) result" where
  "for_write_set_last_sequence w n h =
     res_bind (set_last_sequence (mem_at h (for_write_mem w)) n) (\<lambda>m. Ok (h\<lparr>mh_mems := (mh_mems h)[for_write_mem w := m]\<rparr>))"

primrec accept_timestamp :: "mem_table_for_write \<Rightarrow> timestamp \<Rightarrow> bool" where
  "accept_timestamp (Sampling v) ts = True"
| "accept_timestamp (Normal v) ts = range_contains (ms_time_range v) ts"

text \<open>A put returns the heap also when it fails: a row whose timestamp is refused stays in the memtable.\<close>

definition for_write_put :: "mem_table_for_write \<Rightarrow> index_in_writer \<Rightarrow> key_sequence \<Rightarrow> row \<Rightarrow> schema \<Rightarrow> timestamp \<Rightarrow> bool list \<Rightarrow>
    mem_heap \<Rightarrow> (mem_heap \<times> (version_error, unit) result) option" where
  "for_write_put w idx ks row s ts coins h =
     map_option (\<lambda>r.
       case r of
         Ok m \<Rightarrow>
           let h = h\<lparr>mh_mems := (mh_mems h)[for_write_mem w := m]\<rparr>
           in (case w of
                 Normal _ \<Rightarrow> (h, Ok ())
               | Sampling v \<Rightarrow>
                   (case collect_ts (mh_samplers h ! sm_sampler v) ts of
                      Ok sampler \<Rightarrow> (h\<lparr>mh_samplers := (mh_samplers h)[sm_sampler v := sampler]\<rparr>, Ok ())
                    | Err e \<Rightarrow> (h, Err (CollectTimestamp e))
                    | Panic \<Rightarrow> (h, Panic)))
       | Err e \<Rightarrow> (h, Err (PutMemTable e))
       | Panic \<Rightarrow> (h, Panic))
     (mt_put (mem_at h (for_write_mem w)) idx ks row s coins)"

record flushable_mem_tables =
  fl_sampling_mem :: "sampling_mem_table option"
  fl_memtables :: "mem_table_state list"

definition flushable_is_empty :: "flushable_mem_tables \<Rightarrow> bool" where
  "flushable_is_empty fl \<longleftrightarrow> fl_sampling_mem fl = None \<and> fl_memtables fl = []"

definition flushable_ids :: "flushable_mem_tables \<Rightarrow> mem_table_id list" where
  "flushable_ids fl = (case fl_sampling_mem fl of Some v \<Rightarrow> [sm_id v] | None \<Rightarrow> []) @ map ms_id (fl_memtables fl)"

definition flushable_len :: "flushable_mem_tables \<Rightarrow> nat" where
  "flushable_len fl = (case fl_sampling_mem fl of Some _ \<Rightarrow> 1 | None \<Rightarrow> 0) + length (fl_memtables fl)"

section \<open>The view of the memtables\<close>

type_synonym mutable_set = "(timestamp, mem_table_state) btree"
type_synonym immutable_set = "(mem_table_id, mem_table_state) btree"

record mem_table_view =
  mv_sampling_mem :: "sampling_mem_table option"
  mv_mutables :: mutable_set
  mv_immutables :: immutable_set

definition mem_table_view_new :: mem_table_view where
  "mem_table_view_new = \<lparr>mv_sampling_mem = None, mv_mutables = [], mv_immutables = []\<rparr>"

definition mutable_for_write :: "mutable_set \<Rightarrow> timestamp \<Rightarrow> mem_table_state option" where
  "mutable_for_write mutables ts =
     (case filter (\<lambda>(end_ts, _). ts < end_ts) mutables of
        (_, ms) # _ \<Rightarrow> if range_contains (ms_time_range ms) ts then Some ms else None
      | [] \<Rightarrow> None)"

definition mutable_insert :: "mem_table_state \<Rightarrow> mutable_set \<Rightarrow> mem_table_state option \<times> mutable_set" where
  "mutable_insert ms mutables =
     (bt_get mutables (exclusive_end (ms_time_range ms)), bt_insert (exclusive_end (ms_time_range ms)) ms mutables)"

definition set_memory_usage :: "(memtable \<Rightarrow> nat) \<Rightarrow> mem_heap \<Rightarrow> ('k, mem_table_state) btree \<Rightarrow> nat" where
  "set_memory_usage usage h ms = sum_list (map (\<lambda>m. usage (mem_at h (ms_mem m))) (bt_values ms))"

definition move_to_inmem :: "mem_heap \<Rightarrow> mutable_set \<Rightarrow> immutable_set \<Rightarrow> u64 option \<times> mutable_set \<times> immutable_set" where
  "move_to_inmem h mutables immem =
     (let seqs = map (ms_last_sequence h) (bt_values mutables)
      in (if seqs = [] then None else Some (foldr max seqs 0), [], fold (\<lambda>m. bt_insert (ms_id m) m) (bt_values mutables) immem))"

definition mutables_for_read :: "mutable_set \<Rightarrow> time_range \<Rightarrow> mem_table_state list \<Rightarrow> mem_table_state list" where
  "mutables_for_read mutables r mems =
     mems @ filter (\<lambda>m. intersect_with (ms_time_range m) r) (bt_values (filter (\<lambda>(end_ts, _). inclusive_start r < end_ts) mutables))"

definition immutables_for_read :: "immutable_set \<Rightarrow> time_range \<Rightarrow> mem_table_state list \<Rightarrow> mem_table_state list" where
  "immutables_for_read immutables r mems = mems @ filter (\<lambda>m. intersect_with (ms_time_range m) r) (bt_values immutables)"

definition mutable_memory_usage :: "(memtable \<Rightarrow> nat) \<Rightarrow> mem_heap \<Rightarrow> mem_table_view \<Rightarrow> nat" where
  "mutable_memory_usage usage h v =
     set_memory_usage usage h (mv_mutables v) + (case mv_sampling_mem v of Some sm \<Rightarrow> usage (mem_at h (sm_mem sm)) | None \<Rightarrow> 0)"

definition total_memory_usage :: "(memtable \<Rightarrow> nat) \<Rightarrow> mem_heap \<Rightarrow> mem_table_view \<Rightarrow> nat" where
  "total_memory_usage usage h v = mutable_memory_usage usage h v + set_memory_usage usage h (mv_immutables v)"

definition switch_memtables :: "mem_heap \<Rightarrow> mem_table_view \<Rightarrow> u64 option \<times> mem_table_view" where
  "switch_memtables h v =
     (case move_to_inmem h (mv_mutables v) (mv_immutables v) of
        (seq, mutables, immutables) \<Rightarrow> (seq, v\<lparr>mv_mutables := mutables, mv_immutables := immutables\<rparr>))"

definition view_suggest_duration :: "mem_heap \<Rightarrow> mem_table_view \<Rightarrow> (version_error, duration option \<times> mem_heap) result" where
  "view_suggest_duration h v =
     (case mv_sampling_mem v of
        Some sm \<Rightarrow>
          if sm_freezed sm then Ok (None, h)
          else if mv_mutables v \<noteq> [] \<or> mv_immutables v \<noteq> [] then Panic
          else res_bind (suggest_segment_duration h sm) (\<lambda>(d, h). Ok (Some d, h))
      | None \<Rightarrow> Ok (None, h))"

definition freeze_sampling_memtable :: "mem_heap \<Rightarrow> mem_table_view \<Rightarrow> u64 option \<times> mem_table_view" where
  "freeze_sampling_memtable h v =
     (case mv_sampling_mem v of
        Some sm \<Rightarrow> (Some (sm_last_sequence h sm), v\<lparr>mv_sampling_mem := Some (sm\<lparr>sm_freezed := True\<rparr>)\<rparr>)
      | None \<Rightarrow> (None, v))"

definition pick_memtables_to_flush :: "mem_heap \<Rightarrow> mem_table_view \<Rightarrow> u64 \<Rightarrow> flushable_mem_tables" where
  "pick_memtables_to_flush h v last_seq =
     \<lparr>fl_sampling_mem = (case mv_sampling_mem v of
          Some sm \<Rightarrow> if sm_last_sequence h sm \<le> last_seq then Some sm else None | None \<Rightarrow> None),
      fl_memtables = filter (\<lambda>m. ms_last_sequence h m \<le> last_seq) (bt_values (mv_immutables v))\<rparr>"

definition remove_immutable_or_sampling :: "mem_table_id \<Rightarrow> mem_table_view \<Rightarrow> mem_table_view" where
  "remove_immutable_or_sampling i v =
     (case mv_sampling_mem v of
        Some sm \<Rightarrow> if sm_id sm = i then v\<lparr>mv_sampling_mem := None\<rparr>
                   else v\<lparr>mv_immutables := bt_remove i (mv_immutables v)\<rparr>
      | None \<Rightarrow> v\<lparr>mv_immutables := bt_remove i (mv_immutables v)\<rparr>)"

definition view_for_read :: "mem_table_view \<Rightarrow> time_range \<Rightarrow> mem_table_state list \<times> sampling_mem_table option" where
  "view_for_read v r = (immutables_for_read (mv_immutables v) r (mutables_for_read (mv_mutables v) r []), mv_sampling_mem v)"

section \<open>Version edits\<close>

record add_file =
  af_level :: level
  af_file :: file_meta

record delete_file =
  df_level :: level
  df_file_id :: file_id

record version_edit =
  ve_flushed_sequence :: u64
  ve_mems_to_remove :: "mem_table_id list"
  ve_files_to_add :: "add_file list"
  ve_files_to_delete :: "delete_file list"
  ve_max_file_id :: file_id

section \<open>Table versions\<close>

record table_version =
  tv_view :: mem_table_view
  tv_levels :: levels_controller
  tv_flushed_sequence :: u64
  tv_max_file_id :: file_id

definition table_version_new :: "purge_queue \<Rightarrow> table_version" where
  "table_version_new q = \<lparr>tv_view = mem_table_view_new, tv_levels = levels_controller_new q, tv_flushed_sequence = 0, tv_max_file_id = 0\<rparr>"

definition inner_for_write :: "table_version \<Rightarrow> timestamp \<Rightarrow> mem_table_for_write option" where
  "inner_for_write tv ts =
     (case mv_sampling_mem (tv_view tv) of
        Some sm \<Rightarrow> if \<not> sm_freezed sm then Some (Sampling sm) else map_option Normal (mutable_for_write (mv_mutables (tv_view tv)) ts)
      | None \<Rightarrow> map_option Normal (mutable_for_write (mv_mutables (tv_view tv)) ts))"

definition memtable_for_write :: "mem_heap \<Rightarrow> table_version \<Rightarrow> timestamp \<Rightarrow> u32 \<Rightarrow> (version_error, mem_table_for_write option) result" where
  "memtable_for_write h tv ts version =
     (case inner_for_write tv ts of
        None \<Rightarrow> Ok None
      | Some w \<Rightarrow>
          let memtable_version = schema_version (mt_schema (mem_at h (for_write_mem w)))
          in if memtable_version = version then Ok (Some w) else Err (SchemaMismatch memtable_version version))"

definition insert_mutable :: "mem_table_state \<Rightarrow> table_version \<Rightarrow> ('e, table_version) result" where
  "insert_mutable ms tv =
     (case mutable_insert ms (mv_mutables (tv_view tv)) of
        (None, mutables) \<Rightarrow> Ok (tv\<lparr>tv_view := (tv_view tv)\<lparr>mv_mutables := mutables\<rparr>\<rparr>)
      | (Some _, _) \<Rightarrow> Panic)"

definition set_sampling :: "sampling_mem_table \<Rightarrow> table_version \<Rightarrow> ('e, table_version) result" where
  "set_sampling sm tv =
     (if mv_sampling_mem (tv_view tv) = None then Ok (tv\<lparr>tv_view := (tv_view tv)\<lparr>mv_sampling_mem := Some sm\<rparr>\<rparr>) else Panic)"

definition add_file_to :: "add_file \<Rightarrow> arc_heap \<times> levels_controller \<Rightarrow> ('e, arc_heap \<times> levels_controller) result" where
  "add_file_to f = (\<lambda>(h, lc). add_sst_to_level h lc (af_level f) (af_file f))"

definition apply_edit :: "version_edit \<Rightarrow> arc_heap \<times> table_version \<Rightarrow> ('e, arc_heap \<times> table_version) result" where
  "apply_edit edit = (\<lambda>(h, tv).
     res_bind (res_fold add_file_to (ve_files_to_add edit) (h, tv_levels tv)) (\<lambda>(h, lc).
     res_bind (res_fold (\<lambda>d lc. remove_ssts_from_level lc (df_level d) [df_file_id d]) (ve_files_to_delete edit) lc) (\<lambda>lc.
       Ok (h, tv\<lparr>tv_flushed_sequence := max (tv_flushed_sequence tv) (ve_flushed_sequence edit),
                 tv_max_file_id := max (tv_max_file_id tv) (ve_max_file_id edit), tv_levels := lc,
                 tv_view := fold remove_immutable_or_sampling (ve_mems_to_remove edit) (tv_view tv)\<rparr>))))"

record read_view =
  rv_sampling_mem :: "sampling_mem_table option"
  rv_memtables :: "mem_table_state list"
  rv_leveled_ssts :: "file_handle list list"

definition extend_level :: "level \<times> file_handle list \<Rightarrow> file_handle list list \<Rightarrow> ('e, file_handle list list) result" where
  "extend_level = (\<lambda>(l, ssts) leveled. res_bind (index_res leveled l) (\<lambda>fs. Ok (leveled[l := fs @ ssts])))"

definition pick_read_view :: "table_version \<Rightarrow> time_range \<Rightarrow> ('e, read_view) result" where
  "pick_read_view tv r =
     (case view_for_read (tv_view tv) r of
        (mems, sampling) \<Rightarrow>
          res_bind (res_fold extend_level (lc_pick_ssts (tv_levels tv) r) [[], []]) (\<lambda>leveled.
            Ok \<lparr>rv_sampling_mem = sampling, rv_memtables = mems, rv_leveled_ssts = leveled\<rparr>))"

section \<open>The meta data of a version\<close>

text \<open>What the manifest keeps of a version; a \<open>HashMap\<close> of files by id.\<close>

record table_version_meta =
  vm_flushed_sequence :: u64
  vm_files :: "file_id \<Rightarrow> add_file option"
  vm_max_file_id :: file_id

definition version_meta_new :: table_version_meta where
  "version_meta_new = \<lparr>vm_flushed_sequence = 0, vm_files = Map.empty, vm_max_file_id = 0\<rparr>"

abbreviation (input) DEFAULT_ALLOC_STEP :: nat where "DEFAULT_ALLOC_STEP \<equiv> 100"

definition meta_add_file :: "add_file \<Rightarrow> table_version_meta \<Rightarrow> table_version_meta" where
  "meta_add_file f vm =
     vm\<lparr>vm_max_file_id := max (vm_max_file_id vm) (fm_id (af_file f)), vm_files := (vm_files vm)(fm_id (af_file f) \<mapsto> f)\<rparr>"

definition meta_edited :: "version_edit \<Rightarrow> table_version_meta \<Rightarrow> table_version_meta" where
  "meta_edited edit vm =
     (let vm = fold meta_add_file (ve_files_to_add edit)
                 (vm\<lparr>vm_flushed_sequence := max (vm_flushed_sequence vm) (ve_flushed_sequence edit)\<rparr>);
          max_id = max (vm_max_file_id vm) (ve_max_file_id edit)
      in vm\<lparr>vm_max_file_id := (max_id + DEFAULT_ALLOC_STEP - 1) div DEFAULT_ALLOC_STEP * DEFAULT_ALLOC_STEP,
            vm_files := fold (\<lambda>d files. files(df_file_id d := None)) (ve_files_to_delete edit) (vm_files vm)\<rparr>)"

text \<open>Aligning the largest id is an addition of \<open>u64\<close>s, which panics when it overflows.\<close>

definition meta_apply_edit :: "version_edit \<Rightarrow> table_version_meta \<Rightarrow> ('e, table_version_meta) result" where
  "meta_apply_edit edit vm =
     (if max (vm_max_file_id (fold meta_add_file (ve_files_to_add edit) vm)) (ve_max_file_id edit) + DEFAULT_ALLOC_STEP < 2 ^ 64
      then Ok (meta_edited edit vm) else Panic)"

definition apply_meta :: "add_file list \<Rightarrow> table_version_meta \<Rightarrow> arc_heap \<times> table_version \<Rightarrow> ('e, arc_heap \<times> table_version) result" where
  "apply_meta files vm = (\<lambda>(h, tv).
     res_bind (res_fold add_file_to files (h, tv_levels tv)) (\<lambda>(h, lc).
       Ok (h, tv\<lparr>tv_flushed_sequence := max (tv_flushed_sequence tv) (vm_flushed_sequence vm),
                 tv_max_file_id := max (tv_max_file_id tv) (vm_max_file_id vm), tv_levels := lc\<rparr>)))"

text \<open>A snapshot collects the files level by level into a map by id.\<close>

definition snapshot :: "table_version \<Rightarrow> ('e, table_version_meta) result" where
  "snapshot tv =
     res_bind (res_fold (\<lambda>l files. res_bind (iter_ssts_at_level (tv_levels tv) l) (\<lambda>ssts.
         Ok (fold (\<lambda>f files. files(fh_id f \<mapsto> \<lparr>af_level = l, af_file = fh_meta f\<rparr>)) ssts files)))
       (lc_level_list (tv_levels tv)) Map.empty) (\<lambda>files.
     Ok \<lparr>vm_flushed_sequence = tv_flushed_sequence tv, vm_files = files, vm_max_file_id = tv_max_file_id tv\<rparr>)"

section \<open>Versions and their meta data\<close>

abbreviation af_id :: "add_file \<Rightarrow> file_id" where "af_id f \<equiv> fm_id (af_file f)"

text \<open>The levels that a map of files by id describes.\<close>

definition level_map :: "(file_id \<Rightarrow> add_file option) \<Rightarrow> level \<Rightarrow> file_id \<Rightarrow> file_meta option" where
  "level_map files l i = (case files i of Some f \<Rightarrow> if af_level f = l then Some (af_file f) else None | None \<Rightarrow> None)"

definition add_file_ok :: "add_file \<Rightarrow> bool" where
  "add_file_ok f \<longleftrightarrow> af_level f < 2 \<and> range_wf (fm_time_range (af_file f))"

definition describes :: "arc_heap \<Rightarrow> levels_controller \<Rightarrow> (file_id \<Rightarrow> add_file option) \<Rightarrow> bool" where
  "describes h lc files \<longleftrightarrow> lc_wf h lc \<and> lc_abs lc = level_map files \<and> (\<forall>i f. files i = Some f \<longrightarrow> af_id f = i \<and> add_file_ok f)"

definition put_files :: "add_file list \<Rightarrow> (file_id \<Rightarrow> add_file option) \<Rightarrow> file_id \<Rightarrow> add_file option" where
  "put_files fs files = fold (\<lambda>f m. m(af_id f \<mapsto> f)) fs files"

definition drop_files :: "delete_file list \<Rightarrow> (file_id \<Rightarrow> add_file option) \<Rightarrow> file_id \<Rightarrow> add_file option" where
  "drop_files ds files = fold (\<lambda>d m. m(df_file_id d := None)) ds files"

text \<open>
  New files have new ids, and a deletion names the level of the file: that is how flushes and
  compactions make their edits.
\<close>

definition edit_ok :: "(file_id \<Rightarrow> add_file option) \<Rightarrow> version_edit \<Rightarrow> bool" where
  "edit_ok files edit \<longleftrightarrow> distinct (map af_id (ve_files_to_add edit)) \<and>
     (\<forall>f \<in> set (ve_files_to_add edit). add_file_ok f \<and> files (af_id f) = None) \<and>
     (\<forall>d \<in> set (ve_files_to_delete edit). df_level d < 2 \<and>
        (\<forall>f. put_files (ve_files_to_add edit) files (df_file_id d) = Some f \<longrightarrow> af_level f = df_level d))"

fun edits_ok :: "(file_id \<Rightarrow> add_file option) \<Rightarrow> version_edit list \<Rightarrow> bool" where
  "edits_ok files [] \<longleftrightarrow> True"
| "edits_ok files (e # es) \<longleftrightarrow> edit_ok files e \<and>
     edits_ok (drop_files (ve_files_to_delete e) (put_files (ve_files_to_add e) files)) es"

lemma describes_new: "describes h (levels_controller_new q) Map.empty"
  by (simp add: describes_def lc_new_wf lc_new_abs level_map_def fun_eq_iff)

lemma describes_add:
  assumes "describes h lc files" and "add_file_ok f" and "files (af_id f) = None"
  shows "\<exists>h' lc'. add_file_to f (h, lc) = (Ok (h', lc') :: ('e, _) result) \<and> describes h' lc' (files(af_id f \<mapsto> f)) \<and>
    lc_purge_queue lc' = lc_purge_queue lc"
proof -
  have a: "lc_wf h lc" "lc_abs lc = level_map files" "\<forall>i f. files i = Some f \<longrightarrow> af_id f = i \<and> add_file_ok f"
    using assms(1) by (simp_all add: describes_def)
  have l: "af_level f < 2" "range_wf (fm_time_range (af_file f))" "lc_abs lc (af_level f) (af_id f) = None"
    using assms(2,3) a(2) by (simp_all add: add_file_ok_def level_map_def)
  obtain h' lc' where r: "add_sst_to_level h lc (af_level f) (af_file f) = (Ok (h', lc') :: ('e, _) result)" "lc_wf h' lc'"
    "lc_abs lc' = (lc_abs lc)(af_level f := (lc_abs lc (af_level f))(af_id f \<mapsto> af_file f))" "lc_purge_queue lc' = lc_purge_queue lc"
    using add_sst [OF a(1) l, where 'e = 'e] by blast
  have "lc_abs lc' = level_map (files(af_id f \<mapsto> f))"
    unfolding r(3) a(2) using assms(3) by (auto simp: level_map_def fun_eq_iff)
  then show ?thesis using r(1,2,4) a(3) assms(2) by (auto simp: add_file_to_def describes_def)
qed

lemma describes_adds:
  assumes "describes h lc files" and "distinct (map af_id fs)" and "\<forall>f \<in> set fs. add_file_ok f \<and> files (af_id f) = None"
  shows "\<exists>h' lc'. res_fold add_file_to fs (h, lc) = (Ok (h', lc') :: ('e, _) result) \<and> describes h' lc' (put_files fs files) \<and>
    lc_purge_queue lc' = lc_purge_queue lc"
  using assms
proof (induction fs arbitrary: h lc files)
  case (Cons f fs)
  obtain h1 lc1 where a: "add_file_to f (h, lc) = (Ok (h1, lc1) :: ('e, _) result)" "describes h1 lc1 (files(af_id f \<mapsto> f))"
    "lc_purge_queue lc1 = lc_purge_queue lc"
    using describes_add [OF Cons(2), where 'e = 'e] Cons(4) by (metis list.set_intros(1))
  have "\<forall>g \<in> set fs. add_file_ok g \<and> (files(af_id f \<mapsto> f)) (af_id g) = None" using Cons(3,4) by (auto simp: image_iff)
  moreover have "distinct (map af_id fs)" using Cons(3) by simp
  ultimately obtain h' lc' where "res_fold add_file_to fs (h1, lc1) = (Ok (h', lc') :: ('e, _) result)"
    "describes h' lc' (put_files fs (files(af_id f \<mapsto> f)))" "lc_purge_queue lc' = lc_purge_queue lc1"
    using Cons(1) [OF a(2)] by blast
  then show ?case using a by (simp add: put_files_def)
qed (simp add: put_files_def)

lemma describes_delete:
  assumes "describes h lc files" and "l < 2" and "\<forall>f. files i = Some f \<longrightarrow> af_level f = l"
  shows "\<exists>lc'. remove_ssts_from_level lc l [i] = (Ok lc' :: ('e, _) result) \<and> describes h lc' (files(i := None)) \<and>
    lc_purge_queue lc' = lc_purge_queue lc"
proof -
  have a: "lc_wf h lc" "lc_abs lc = level_map files" "\<forall>i f. files i = Some f \<longrightarrow> af_id f = i \<and> add_file_ok f"
    using assms(1) by (simp_all add: describes_def)
  obtain lc' where r: "remove_ssts_from_level lc l [i] = (Ok lc' :: ('e, _) result)" "lc_wf h lc'"
    "lc_abs lc' = (lc_abs lc)(l := (lc_abs lc l) |` (- set [i]))" "lc_purge_queue lc' = lc_purge_queue lc"
    using remove_ssts [OF a(1) assms(2), of "[i]", where 'e = 'e] by blast
  have "lc_abs lc' = level_map (files(i := None))"
    unfolding r(3) a(2) using assms(3) by (auto simp: level_map_def fun_eq_iff restrict_map_def split: option.splits)
  then show ?thesis using r(1,2,4) a(3) by (auto simp: describes_def)
qed

lemma describes_deletes:
  assumes "describes h lc files" and "\<forall>d \<in> set ds. df_level d < 2 \<and> (\<forall>f. files (df_file_id d) = Some f \<longrightarrow> af_level f = df_level d)"
  shows "\<exists>lc'. res_fold (\<lambda>d lc. remove_ssts_from_level lc (df_level d) [df_file_id d]) ds lc = (Ok lc' :: ('e, _) result) \<and>
    describes h lc' (drop_files ds files) \<and> lc_purge_queue lc' = lc_purge_queue lc"
  using assms
proof (induction ds arbitrary: lc files)
  case (Cons d ds)
  obtain lc1 where a: "remove_ssts_from_level lc (df_level d) [df_file_id d] = (Ok lc1 :: ('e, _) result)"
    "describes h lc1 (files(df_file_id d := None))" "lc_purge_queue lc1 = lc_purge_queue lc"
    using describes_delete [OF Cons(2), where 'e = 'e] Cons(3) by (metis list.set_intros(1))
  have "\<forall>e \<in> set ds. df_level e < 2 \<and> (\<forall>f. (files(df_file_id d := None)) (df_file_id e) = Some f \<longrightarrow> af_level f = df_level e)"
    using Cons(3) by auto
  then obtain lc' where "res_fold (\<lambda>d lc. remove_ssts_from_level lc (df_level d) [df_file_id d]) ds lc1 = (Ok lc' :: ('e, _) result)"
    "describes h lc' (drop_files ds (files(df_file_id d := None)))" "lc_purge_queue lc' = lc_purge_queue lc1"
    using Cons(1) [OF a(2)] by blast
  then show ?case using a by (simp add: drop_files_def)
qed (simp add: drop_files_def)

lemma apply_edit_describes:
  assumes "describes h (tv_levels tv) files" and "edit_ok files e"
  shows "\<exists>h' tv'. apply_edit e (h, tv) = (Ok (h', tv') :: ('e, _) result) \<and>
    describes h' (tv_levels tv') (drop_files (ve_files_to_delete e) (put_files (ve_files_to_add e) files)) \<and>
    tv_flushed_sequence tv' = max (tv_flushed_sequence tv) (ve_flushed_sequence e) \<and>
    tv_max_file_id tv' = max (tv_max_file_id tv) (ve_max_file_id e) \<and>
    tv_view tv' = fold remove_immutable_or_sampling (ve_mems_to_remove e) (tv_view tv)"
proof -
  obtain h' lc where a: "res_fold add_file_to (ve_files_to_add e) (h, tv_levels tv) = (Ok (h', lc) :: ('e, _) result)"
    "describes h' lc (put_files (ve_files_to_add e) files)"
    using describes_adds [OF assms(1), of "ve_files_to_add e", where 'e = 'e] assms(2) by (auto simp: edit_ok_def)
  obtain lc' where b: "res_fold (\<lambda>d lc. remove_ssts_from_level lc (df_level d) [df_file_id d]) (ve_files_to_delete e) lc = (Ok lc' :: ('e, _) result)"
    "describes h' lc' (drop_files (ve_files_to_delete e) (put_files (ve_files_to_add e) files))"
    using describes_deletes [OF a(2), of "ve_files_to_delete e", where 'e = 'e] assms(2) by (auto simp: edit_ok_def)
  show ?thesis using a(1) b by (simp add: apply_edit_def)
qed

lemma meta_add_files:
  "vm_files (fold meta_add_file fs vm) = put_files fs (vm_files vm)"
  "vm_flushed_sequence (fold meta_add_file fs vm) = vm_flushed_sequence vm"
  "vm_max_file_id vm \<le> vm_max_file_id (fold meta_add_file fs vm)"
  "f \<in> set fs \<Longrightarrow> af_id f \<le> vm_max_file_id (fold meta_add_file fs vm)"
proof -
  show mono: "vm_max_file_id vm \<le> vm_max_file_id (fold meta_add_file fs vm)" for vm fs
  proof (induction fs arbitrary: vm)
    case (Cons f fs)
    have "vm_max_file_id vm \<le> vm_max_file_id (meta_add_file f vm)" by (simp add: meta_add_file_def)
    also have "\<dots> \<le> vm_max_file_id (fold meta_add_file fs (meta_add_file f vm))" by (rule Cons)
    finally show ?case by simp
  qed simp
  show "f \<in> set fs \<Longrightarrow> af_id f \<le> vm_max_file_id (fold meta_add_file fs vm)"
  proof (induction fs arbitrary: vm)
    case (Cons g fs)
    show ?case
    proof (cases "f = g")
      case True
      have "af_id g \<le> vm_max_file_id (meta_add_file g vm)" by (simp add: meta_add_file_def)
      also have "\<dots> \<le> vm_max_file_id (fold meta_add_file fs (meta_add_file g vm))" by (rule mono)
      finally show ?thesis using True by simp
    qed (use Cons in auto)
  qed simp
  show "vm_files (fold meta_add_file fs vm) = put_files fs (vm_files vm)"
    by (induction fs arbitrary: vm) (simp_all add: put_files_def meta_add_file_def)
  show "vm_flushed_sequence (fold meta_add_file fs vm) = vm_flushed_sequence vm"
    by (induction fs arbitrary: vm) (simp_all add: meta_add_file_def)
qed

lemma align_le: "n \<le> (n + 100 - 1) div 100 * 100" for n :: nat
  by linarith

lemma meta_edited_fields:
  "vm_files (meta_edited e vm) = drop_files (ve_files_to_delete e) (put_files (ve_files_to_add e) (vm_files vm))"
  "vm_flushed_sequence (meta_edited e vm) = max (vm_flushed_sequence vm) (ve_flushed_sequence e)"
  "max (vm_max_file_id vm) (ve_max_file_id e) \<le> vm_max_file_id (meta_edited e vm)"
  "f \<in> set (ve_files_to_add e) \<Longrightarrow> af_id f \<le> vm_max_file_id (meta_edited e vm)"
proof -
  let ?vm = "fold meta_add_file (ve_files_to_add e) (vm\<lparr>vm_flushed_sequence := max (vm_flushed_sequence vm) (ve_flushed_sequence e)\<rparr>)"
  have m: "vm_max_file_id (meta_edited e vm) = (max (vm_max_file_id ?vm) (ve_max_file_id e) + 100 - 1) div 100 * 100"
    by (simp add: meta_edited_def Let_def)
  have le: "max (vm_max_file_id ?vm) (ve_max_file_id e) \<le> vm_max_file_id (meta_edited e vm)" unfolding m by (rule align_le)
  then show "max (vm_max_file_id vm) (ve_max_file_id e) \<le> vm_max_file_id (meta_edited e vm)"
    using meta_add_files(3) [of "vm\<lparr>vm_flushed_sequence := max (vm_flushed_sequence vm) (ve_flushed_sequence e)\<rparr>" "ve_files_to_add e"] by simp
  show "f \<in> set (ve_files_to_add e) \<Longrightarrow> af_id f \<le> vm_max_file_id (meta_edited e vm)"
    using le meta_add_files(4) [of f "ve_files_to_add e" "vm\<lparr>vm_flushed_sequence := max (vm_flushed_sequence vm) (ve_flushed_sequence e)\<rparr>"] by simp
  show "vm_files (meta_edited e vm) = drop_files (ve_files_to_delete e) (put_files (ve_files_to_add e) (vm_files vm))"
    by (simp add: meta_edited_def Let_def meta_add_files(1) drop_files_def)
  show "vm_flushed_sequence (meta_edited e vm) = max (vm_flushed_sequence vm) (ve_flushed_sequence e)"
    by (simp add: meta_edited_def Let_def meta_add_files(2))
qed

text \<open>A version and the meta data that the manifest has of it.\<close>

definition in_step :: "arc_heap \<times> table_version \<Rightarrow> table_version_meta \<Rightarrow> bool" where
  "in_step = (\<lambda>(h, tv) vm. describes h (tv_levels tv) (vm_files vm) \<and> tv_flushed_sequence tv = vm_flushed_sequence vm \<and>
     tv_max_file_id tv \<le> vm_max_file_id vm \<and> (\<forall>i \<in> dom (vm_files vm). i \<le> vm_max_file_id vm))"

lemma put_files_dom: "dom (put_files fs files) = dom files \<union> af_id ` set fs"
  by (induction fs arbitrary: files) (auto simp: put_files_def)

lemma drop_files_dom: "dom (drop_files ds files) \<subseteq> dom files"
proof (induction ds arbitrary: files)
  case (Cons d ds)
  have "dom (drop_files ds (files(df_file_id d := None))) \<subseteq> dom (files(df_file_id d := None))" by (rule Cons)
  then show ?case by (auto simp: drop_files_def)
qed (simp add: drop_files_def)

lemma edits_in_step:
  assumes "in_step (h, tv) vm" and "edits_ok (vm_files vm) es"
  shows "\<exists>s'. res_fold apply_edit es (h, tv) = (Ok s' :: ('e, _) result) \<and> in_step s' (fold meta_edited es vm)"
  using assms
proof (induction es arbitrary: h tv vm)
  case (Cons e es)
  let ?vm = "meta_edited e vm"
  obtain h1 tv1 where a: "apply_edit e (h, tv) = (Ok (h1, tv1) :: ('e, _) result)" "describes h1 (tv_levels tv1) (vm_files ?vm)"
    "tv_flushed_sequence tv1 = vm_flushed_sequence ?vm" "tv_max_file_id tv1 = max (tv_max_file_id tv) (ve_max_file_id e)"
    using apply_edit_describes [of h tv "vm_files vm" e, where 'e = 'e] Cons(2,3) unfolding meta_edited_fields in_step_def by auto
  have "i \<le> vm_max_file_id ?vm" if "i \<in> dom (vm_files ?vm)" for i
  proof -
    have "i \<in> dom (vm_files vm) \<union> af_id ` set (ve_files_to_add e)"
      using that drop_files_dom put_files_dom unfolding meta_edited_fields(1) by blast
    then show ?thesis using Cons(2) meta_edited_fields(3,4) [where e = e and vm = vm] by (force simp: in_step_def)
  qed
  then have "in_step (h1, tv1) ?vm" using a(2-4) Cons(2) meta_edited_fields(3) [of vm e] by (auto simp: in_step_def)
  moreover have "edits_ok (vm_files ?vm) es" using Cons(3) by (simp add: meta_edited_fields(1))
  ultimately show ?case using Cons(1) a(1) by simp
qed simp

text \<open>Rebuilding a version from its meta data, whatever the order of the files in the hash map.\<close>

lemma put_files_unique:
  assumes "\<forall>i f. files i = Some f \<longrightarrow> af_id f = i" and "set fs = ran files"
  shows "put_files fs Map.empty = files"
proof -
  have "put_files fs m = (\<lambda>i. if i \<in> af_id ` set fs then files i else m i)" if "set fs \<subseteq> ran files" for m fs
    using that
  proof (induction fs arbitrary: m)
    case (Cons f fs)
    then have "files (af_id f) = Some f" using assms(1) by (auto simp: ran_def)
    moreover have "put_files (f # fs) m = put_files fs (m(af_id f \<mapsto> f))" by (simp add: put_files_def)
    ultimately show ?case using Cons by (auto simp: fun_eq_iff)
  qed (simp add: put_files_def)
  moreover have "af_id ` ran files = dom files" using assms(1) by (force simp: ran_def)
  ultimately show ?thesis using assms(2) by (auto simp: fun_eq_iff)
qed

lemma apply_meta_in_step:
  assumes "in_step s vm" and "set files = ran (vm_files vm)" and "distinct files"
  shows "\<exists>s'. apply_meta files vm (h, table_version_new q) = (Ok s' :: ('e, _) result) \<and> in_step s' vm"
proof -
  have d: "\<forall>i f. vm_files vm i = Some f \<longrightarrow> af_id f = i \<and> add_file_ok f" using assms(1) by (auto simp: in_step_def describes_def)
  then have ids: "af_id f = i" if "vm_files vm i = Some f" for i f using that by blast
  have "inj_on af_id (ran (vm_files vm))"
  proof (rule inj_onI)
    fix f g assume "f \<in> ran (vm_files vm)" "g \<in> ran (vm_files vm)" "af_id f = af_id g"
    then obtain i j where "vm_files vm i = Some f" "vm_files vm j = Some g" by (auto simp: ran_def)
    moreover from this have "i = j" using ids \<open>af_id f = af_id g\<close> by metis
    ultimately show "f = g" by simp
  qed
  then have "distinct (map af_id files)" using assms(2,3) by (simp add: distinct_map)
  moreover have "\<forall>f \<in> set files. add_file_ok f \<and> Map.empty (af_id f) = None" using assms(2) d by (auto simp: ran_def)
  ultimately obtain h' lc where a: "res_fold add_file_to files (h, levels_controller_new q) = (Ok (h', lc) :: ('e, _) result)"
    "describes h' lc (put_files files Map.empty)" using describes_adds [OF describes_new, where 'e = 'e] by blast
  then have "describes h' lc (vm_files vm)" using put_files_unique [OF _ assms(2)] ids by auto
  then show ?thesis using a(1) assms(1) by (auto simp: apply_meta_def table_version_new_def in_step_def)
qed

lemma fold_files:
  "(\<forall>f \<in> set fs. g (fh_id f) = Some f) \<Longrightarrow>
   fold (\<lambda>f m. m(fh_id f \<mapsto> v f)) fs m = (\<lambda>i. if i \<in> fh_id ` set fs then map_option v (g i) else m i)"
proof (induction fs arbitrary: m)
  case (Cons f fs)
  then show ?case by (auto simp: fun_eq_iff)
qed simp

lemma snapshot_in_step:
  assumes "in_step (h, tv) vm"
  shows "snapshot tv = (Ok \<lparr>vm_flushed_sequence = vm_flushed_sequence vm, vm_files = vm_files vm, vm_max_file_id = tv_max_file_id tv\<rparr> :: ('e, _) result)"
proof -
  let ?lc = "tv_levels tv"
  have wf: "lc_wf h ?lc" and abs: "lc_abs ?lc = level_map (vm_files vm)"
    and d: "\<forall>i f. vm_files vm i = Some f \<longrightarrow> af_id f = i \<and> add_file_ok f" using assms by (auto simp: in_step_def describes_def)
  have len: "length (lc_levels ?lc) = 2" using wf by (simp add: lc_wf_def)
  then obtain a b where ab: "lc_levels ?lc = [a, b]" by (auto simp: numeral_2_eq_2 length_Suc_conv)
  have all: "\<forall>l < 2. lh_level (lc_levels ?lc ! l) = l \<and> fhs_wf (lh_files (lc_levels ?lc ! l))" using wf by (simp add: lc_wf_def)
  have lv: "lh_level a = 0" "lh_level b = 1" "fhs_wf (lh_files a)" "fhs_wf (lh_files b)"
    using all [rule_format, of 0] all [rule_format, of 1] by (simp_all add: ab)
  have get: "f \<in> set (fhs_files (lh_files c)) \<Longrightarrow> id_to_files (lh_files c) (fh_id f) = Some f"
    and mem: "i \<in> fh_id ` set (fhs_files (lh_files c)) \<longleftrightarrow> id_to_files (lh_files c) i \<noteq> None" if "c = a \<or> c = b" for c f i
    using lv(3,4) that by (auto simp: fhs_wf_def image_iff)
  let ?add = "\<lambda>l c m. fold (\<lambda>f m. m(fh_id f \<mapsto> \<lparr>af_level = l, af_file = fh_meta f\<rparr>)) (fhs_files (lh_files c)) m"
  have add: "?add l c m = (\<lambda>i. case id_to_files (lh_files c) i of Some f \<Rightarrow> Some \<lparr>af_level = l, af_file = fh_meta f\<rparr> | None \<Rightarrow> m i)"
    if "c = a \<or> c = b" for l c m
    using fold_files [of "fhs_files (lh_files c)" "id_to_files (lh_files c)" "\<lambda>f. \<lparr>af_level = l, af_file = fh_meta f\<rparr>" m]
      get [OF that] mem [OF that] by (auto simp: fun_eq_iff split: option.splits)
  have at: "map_option fh_meta (id_to_files (lh_files a) i) = level_map (vm_files vm) 0 i"
    "map_option fh_meta (id_to_files (lh_files b) i) = level_map (vm_files vm) 1 i" for i
    using fun_cong [OF fun_cong [OF abs, of 0], of i] fun_cong [OF fun_cong [OF abs, of 1], of i] by (simp_all add: lc_abs_def ab)
  have "?add 1 b (?add 0 a Map.empty) i = vm_files vm i" for i
  proof (cases "vm_files vm i")
    case None
    then show ?thesis using at [of i] by (simp add: add level_map_def)
  next
    case (Some f)
    then have "af_level f < 2" using d by (auto simp: add_file_ok_def)
    then show ?thesis using at [of i] Some by (cases f; auto simp: add level_map_def less_2_cases_iff split: if_splits option.splits)
  qed
  then have "?add 1 b (?add 0 a Map.empty) = vm_files vm" by (rule ext)
  then show ?thesis using assms
    by (simp add: snapshot_def lc_level_list_def iter_ssts_at_level_def index_res_def ab lv(1,2) in_step_def)
qed

lemma meta_apply_edits:
  "res_fold meta_apply_edit es vm = (Ok vm' :: ('e, _) result) \<Longrightarrow> vm' = fold meta_edited es vm"
  by (induction es arbitrary: vm) (auto simp: meta_apply_edit_def res_bind_eq_Ok split: if_splits)

text \<open>
  C15. Recovery: the version that a sequence of edits makes has exactly the files, levels and flushed
  sequence of the meta data that the manifest computes from the same edits, as long as no file id
  comes within 100 of the largest \<open>u64\<close>.  So has its snapshot,
  and so has the version that is rebuilt from the meta data, for every order in which the hash map
  hands out the files.  No file has an id above the maximum of the meta data.
\<close>

theorem version_recovery:
  assumes "edits_ok Map.empty edits" and "res_fold meta_apply_edit edits version_meta_new = (Ok vm :: (unit, _) result)"
    and "set files = ran (vm_files vm)" and "distinct files"
  shows "\<exists>h' tv h'' tv' snap. res_fold apply_edit edits (h, table_version_new q) = (Ok (h', tv) :: (unit, _) result) \<and>
    apply_meta files vm (h, table_version_new q) = (Ok (h'', tv') :: (unit, _) result) \<and>
    snapshot tv = (Ok snap :: (unit, _) result) \<and> vm_files snap = vm_files vm \<and>
    lc_abs (tv_levels tv) = level_map (vm_files vm) \<and> lc_abs (tv_levels tv') = lc_abs (tv_levels tv) \<and>
    tv_flushed_sequence tv' = tv_flushed_sequence tv \<and> vm_flushed_sequence snap = tv_flushed_sequence tv \<and>
    (\<forall>i. vm_files snap i \<noteq> None \<longrightarrow> i \<le> tv_max_file_id tv')"
proof -
  have vm: "vm = fold meta_edited edits version_meta_new" by (rule meta_apply_edits [OF assms(2)])
  have "in_step (h, table_version_new q) version_meta_new"
    using describes_new [of h q] by (simp add: in_step_def table_version_new_def version_meta_new_def)
  moreover have "edits_ok (vm_files version_meta_new) edits" using assms(1) by (simp add: version_meta_new_def)
  ultimately obtain h' tv where a: "res_fold apply_edit edits (h, table_version_new q) = (Ok (h', tv) :: (unit, _) result)" "in_step (h', tv) vm"
    using edits_in_step [where 'e = unit] unfolding vm by (metis surj_pair)
  obtain h'' tv' where b: "apply_meta files vm (h, table_version_new q) = (Ok (h'', tv') :: (unit, _) result)" "in_step (h'', tv') vm"
    using apply_meta_in_step [OF a(2) assms(3,4), where 'e = unit] by (metis surj_pair)
  have "vm_max_file_id vm \<le> tv_max_file_id tv'"
    using b(1) by (auto simp: apply_meta_def res_bind_eq_Ok table_version_new_def)
  moreover have "\<forall>i \<in> dom (vm_files vm). i \<le> vm_max_file_id vm" using a(2) by (simp add: in_step_def)
  ultimately have "\<forall>i. vm_files vm i \<noteq> None \<longrightarrow> i \<le> tv_max_file_id tv'" by (meson domIff order_trans)
  then show ?thesis using a b snapshot_in_step [OF a(2), where 'e = unit]
    by (intro exI [of _ h'] exI [of _ tv] exI [of _ h''] exI [of _ tv'] exI) (auto simp: in_step_def describes_def)
qed

definition demo_edits :: "version_edit list" where
  "demo_edits =
     [\<lparr>ve_flushed_sequence = 3, ve_mems_to_remove = [1], ve_files_to_add = [\<lparr>af_level = 0, af_file = demo_meta 1 0 10\<rparr>],
       ve_files_to_delete = [], ve_max_file_id = 0\<rparr>,
      \<lparr>ve_flushed_sequence = 0, ve_mems_to_remove = [], ve_files_to_add = [\<lparr>af_level = 1, af_file = demo_meta 2 0 10\<rparr>],
       ve_files_to_delete = [\<lparr>df_level = 0, df_file_id = 1\<rparr>], ve_max_file_id = 0\<rparr>]"

theorem version_recovery_witness:
  "\<exists>vm h' tv h'' tv'. res_fold meta_apply_edit demo_edits version_meta_new = (Ok vm :: (unit, _) result) \<and> res_fold apply_edit demo_edits (\<lparr>next_addr = 0, compacted_flags = \<lambda>_. False\<rparr>, table_version_new (purge_queue_new 1 2)) = (Ok (h', tv) :: (unit, _) result) \<and>
     apply_meta [\<lparr>af_level = 1, af_file = demo_meta 2 0 10\<rparr>] vm
       (\<lparr>next_addr = 0, compacted_flags = \<lambda>_. False\<rparr>, table_version_new (purge_queue_new 1 2)) = (Ok (h'', tv') :: (unit, _) result) \<and>
     lc_abs (tv_levels tv') = lc_abs (tv_levels tv) \<and> lc_abs (tv_levels tv) 1 2 = Some (demo_meta 2 0 10) \<and> lc_abs (tv_levels tv) 0 1 = None"
proof -
  let ?f = "\<lparr>af_level = 1, af_file = demo_meta 2 0 10\<rparr>"
  have "edits_ok Map.empty demo_edits"
    by (simp add: demo_edits_def edit_ok_def put_files_def drop_files_def demo_meta_def add_file_ok_def range_wf_def in_i64_def)
  moreover have ok: "res_fold meta_apply_edit demo_edits version_meta_new = (Ok (fold meta_edited demo_edits version_meta_new) :: (unit, _) result)"
    by (simp add: demo_edits_def meta_apply_edit_def meta_edited_def meta_add_file_def version_meta_new_def demo_meta_def)
  moreover have files: "vm_files (fold meta_edited demo_edits version_meta_new) = [2 \<mapsto> ?f]"
    by (auto simp: demo_edits_def meta_edited_fields put_files_def drop_files_def version_meta_new_def demo_meta_def fun_eq_iff)
  moreover have "set [?f] = ran [2 \<mapsto> ?f]" by simp
  ultimately show ?thesis
    using version_recovery [OF _ ok, of "[?f]" "\<lparr>next_addr = 0, compacted_flags = \<lambda>_. False\<rparr>" "purge_queue_new 1 2"] by (auto simp: files ok level_map_def)
qed

end
