(* ===== verification/Id_Allocator.thy ===== *)
theory Id_Allocator
  imports Table_Version
begin

text \<open>
  The allocator of file ids: \<^verbatim>\<open>common_util/src/id_allocator.rs\<close>, and how
  \<^verbatim>\<open>analytic_engine/src/table/data.rs\<close> persists its maximum and \<^verbatim>\<open>table_meta_set_impl.rs\<close>
  rebuilds it.  Ids are \<open>u64\<close>s: they are written as natural numbers below \<open>2 ^ 64\<close>, and an addition
  that leaves this range panics.
\<close>

section \<open>Allocating ids\<close>

record id_allocator =
  ia_last_id :: nat
  ia_max_id :: nat
  ia_alloc_step :: nat

definition id_allocator_new :: "nat \<Rightarrow> nat \<Rightarrow> nat \<Rightarrow> ('e, id_allocator) result" where
  "id_allocator_new last_id max_id alloc_step =
     (if 0 < alloc_step then Ok \<lparr>ia_last_id = last_id, ia_max_id = max_id, ia_alloc_step = alloc_step\<rparr> else Panic)"

text \<open>The argument \<open>persist\<close> stores the next maximum in \<open>s\<close>.  When it fails the allocator is not changed.\<close>

definition alloc_id :: "(nat \<Rightarrow> 's \<Rightarrow> ('e, 's) result) \<Rightarrow> 's \<Rightarrow> id_allocator \<Rightarrow> ('e, nat \<times> 's \<times> id_allocator) result" where
  "alloc_id persist s ia =
     (if ia_last_id ia < ia_max_id ia
      then Ok (ia_last_id ia + 1, s, ia\<lparr>ia_last_id := ia_last_id ia + 1\<rparr>)
      else let next_max_id = ia_last_id ia + ia_alloc_step ia
           in if 2 ^ 64 \<le> next_max_id then Panic
              else res_bind (persist next_max_id s) (\<lambda>s.
                     Ok (ia_last_id ia + 1, s, ia\<lparr>ia_max_id := next_max_id, ia_last_id := ia_last_id ia + 1\<rparr>)))"

definition max_file_id_edit :: "file_id \<Rightarrow> version_edit" where
  "max_file_id_edit next_max_file_id =
     \<lparr>ve_flushed_sequence = 0, ve_mems_to_remove = [], ve_files_to_add = [], ve_files_to_delete = [], ve_max_file_id = next_max_file_id\<rparr>"

text \<open>The allocator of a table whose meta data was recovered; without meta data it starts at 0.\<close>

definition recover_allocator :: "table_version_meta option \<Rightarrow> ('e, id_allocator) result" where
  "recover_allocator version_meta =
     (case version_meta of
        Some vm \<Rightarrow> id_allocator_new (vm_max_file_id vm) (vm_max_file_id vm) DEFAULT_ALLOC_STEP
      | None \<Rightarrow> id_allocator_new 0 0 DEFAULT_ALLOC_STEP)"

section \<open>Ids are not reused\<close>

text \<open>
  A run of requests for ids over the meta data that the manifest keeps.  Each flag says whether
  the manifest stores the edit, if the request needs one; a request that fails is given up.
\<close>

definition persist_meta :: "bool \<Rightarrow> nat \<Rightarrow> table_version_meta \<Rightarrow> (unit, table_version_meta) result" where
  "persist_meta stored m vm = (if stored then meta_apply_edit (max_file_id_edit m) vm else Err ())"

fun alloc_run :: "bool list \<Rightarrow> table_version_meta \<times> id_allocator \<Rightarrow> (unit, nat list \<times> table_version_meta \<times> id_allocator) result" where
  "alloc_run [] s = Ok ([], s)"
| "alloc_run (stored # rest) s =
     (case alloc_id (persist_meta stored) (fst s) (snd s) of
        Ok (i, s) \<Rightarrow> res_bind (alloc_run rest s) (\<lambda>(ids, s). Ok (i # ids, s))
      | Err _ \<Rightarrow> alloc_run rest s
      | Panic \<Rightarrow> Panic)"

definition alloc_inv :: "table_version_meta \<times> id_allocator \<Rightarrow> bool" where
  "alloc_inv = (\<lambda>(vm, ia). 0 < ia_alloc_step ia \<and> ia_last_id ia \<le> ia_max_id ia \<and> ia_max_id ia \<le> vm_max_file_id vm)"

lemma alloc_id_step:
  assumes "alloc_id (persist_meta stored) vm ia = Ok (i, vm', ia')" and "alloc_inv (vm, ia)"
  shows "i = ia_last_id ia + 1 \<and> ia_last_id ia' = i \<and> alloc_inv (vm', ia')"
proof (cases "ia_last_id ia < ia_max_id ia")
  case True
  then show ?thesis using assms by (auto simp: alloc_id_def alloc_inv_def)
next
  case False
  let ?m = "ia_last_id ia + ia_alloc_step ia"
  have p: "persist_meta stored ?m vm = Ok vm'" "i = ia_last_id ia + 1"
    "ia' = ia\<lparr>ia_max_id := ?m, ia_last_id := ia_last_id ia + 1\<rparr>"
    using assms(1) False by (auto simp: alloc_id_def Let_def res_bind_eq_Ok split: if_splits)
  then have "vm' = meta_edited (max_file_id_edit ?m) vm"
    by (auto simp: persist_meta_def meta_apply_edit_def split: if_splits)
  then have "?m \<le> vm_max_file_id vm'"
    using meta_edited_fields(3) [of vm "max_file_id_edit ?m"] by (simp add: max_file_id_edit_def)
  then show ?thesis using p assms(2) by (auto simp: alloc_inv_def)
qed

lemma alloc_run_ids:
  assumes "alloc_run as s = Ok (ids, s')" and "alloc_inv s"
  shows "sorted_wrt (<) ids \<and> (\<forall>i \<in> set ids. ia_last_id (snd s) < i \<and> i \<le> vm_max_file_id (fst s')) \<and> alloc_inv s' \<and>
    ia_last_id (snd s) \<le> ia_last_id (snd s')"
  using assms
proof (induction as arbitrary: s ids)
  case (Cons stored rest)
  obtain vm ia where s: "s = (vm, ia)" by (cases s)
  show ?case
  proof (cases "alloc_id (persist_meta stored) vm ia")
    case (Ok r)
    obtain i vm1 ia1 where r: "r = (i, vm1, ia1)" by (cases r)
    have st: "i = ia_last_id ia + 1" "ia_last_id ia1 = i" "alloc_inv (vm1, ia1)"
      using alloc_id_step [of stored vm ia i vm1 ia1] Ok r Cons(3) s by simp_all
    obtain js where run: "alloc_run rest (vm1, ia1) = Ok (js, s')" and ids: "ids = i # js"
      using Cons(2) Ok r s by (auto simp: res_bind_eq_Ok)
    note ih = Cons(1) [OF run st(3)]
    have "i \<le> vm_max_file_id (fst s')" using ih st(2) by (cases s') (auto simp: alloc_inv_def)
    then show ?thesis using ih st(1,2) ids s by force
  next
    case (Err e)
    then have run: "alloc_run rest (vm, ia) = Ok (ids, s')" using Cons(2) s by simp
    show ?thesis using Cons(1) [OF run] Cons(3) unfolding s by blast
  next
    case Panic
    then show ?thesis using Cons(2) s by simp
  qed
qed (auto split: prod.splits)

text \<open>
  C16. File ids are never reused, not even over a restart: the ids that a table hands out before a
  crash, and those that it hands out after its allocator was rebuilt from the meta data that the
  manifest had stored, are strictly increasing, whichever of the stores fail.
\<close>

theorem file_ids_fresh:
  assumes "recover_allocator (Some vm) = (Ok ia :: (unit, _) result)" and "alloc_run as (vm, ia) = Ok (ids, vm', ia')"
    and "recover_allocator (Some vm') = (Ok ia'' :: (unit, _) result)" and "alloc_run bs (vm', ia'') = Ok (ids', s)"
  shows "sorted_wrt (<) (ids @ ids') \<and> (\<forall>i \<in> set (ids @ ids'). vm_max_file_id vm < i)"
proof -
  have inv: "alloc_inv (vm, ia)" "ia_last_id ia = vm_max_file_id vm" and inv': "alloc_inv (vm', ia'')" "ia_last_id ia'' = vm_max_file_id vm'"
    using assms(1,3) by (auto simp: recover_allocator_def id_allocator_new_def alloc_inv_def)
  note a = alloc_run_ids [OF assms(2) inv(1)] and b = alloc_run_ids [OF assms(4) inv'(1)]
  have "vm_max_file_id vm \<le> vm_max_file_id vm'" using a inv(2) by (auto simp: alloc_inv_def)
  then show ?thesis using a b inv(2) inv'(2) by (fastforce simp: sorted_wrt_append)
qed

theorem file_ids_fresh_witness:
  "\<exists>ia ids vm' ia' ia'' ids' s. recover_allocator (Some version_meta_new) = (Ok ia :: (unit, _) result) \<and>
     alloc_run [False, True, False] (version_meta_new, ia) = Ok (ids, vm', ia') \<and> ids = [1, 2] \<and>
     recover_allocator (Some vm') = (Ok ia'' :: (unit, _) result) \<and> alloc_run [True] (vm', ia'') = Ok (ids', s) \<and> ids' = [101] \<and>
     sorted_wrt (<) (ids @ ids')"
proof -
  let ?ia = "\<lparr>ia_last_id = 0, ia_max_id = 0, ia_alloc_step = 100\<rparr>"
  let ?vm = "\<lparr>vm_flushed_sequence = 0, vm_files = Map.empty, vm_max_file_id = 100\<rparr>"
  let ?s = "(\<lparr>vm_flushed_sequence = 0, vm_files = Map.empty, vm_max_file_id = 200\<rparr>, \<lparr>ia_last_id = 101, ia_max_id = 200, ia_alloc_step = 100\<rparr>)"
  note defs = recover_allocator_def id_allocator_new_def alloc_id_def persist_meta_def meta_apply_edit_def meta_edited_def
    max_file_id_edit_def version_meta_new_def
  have a: "recover_allocator (Some version_meta_new) = (Ok ?ia :: (unit, _) result)"
    "recover_allocator (Some ?vm) = (Ok \<lparr>ia_last_id = 100, ia_max_id = 100, ia_alloc_step = 100\<rparr> :: (unit, _) result)" by (simp_all add: defs)
  have b: "alloc_run [False, True, False] (version_meta_new, ?ia) = Ok ([1, 2], ?vm, \<lparr>ia_last_id = 2, ia_max_id = 100, ia_alloc_step = 100\<rparr>)"
    "alloc_run [True] (?vm, \<lparr>ia_last_id = 100, ia_max_id = 100, ia_alloc_step = 100\<rparr>) = Ok ([101], ?s)" by (simp_all add: defs)
  show ?thesis using a b file_ids_fresh [OF a(1) b(1) a(2) b(2)] by blast
qed

end
