(* ===== verification/Write_Split.thy ===== *)
theory Write_Split
  imports Prelude
begin

text \<open>
  Splitting a write request into batches: \<open>WriteRowGroupSplitter\<close> of
  \<^verbatim>\<open>analytic_engine/src/instance/write.rs\<close>, with the \<open>RowGroupSlicer\<close> of
  \<^verbatim>\<open>common_types/src/row/mod.rs\<close> as the bounds of its range.
\<close>

section \<open>The splitter\<close>

type_synonym encoded_row = "8 word list"
type_synonym slicer = "nat \<times> nat"

text \<open>The sizes add up to that of rows in memory, which a \<open>usize\<close> holds.\<close>

fun compute_batches :: "nat \<Rightarrow> nat \<Rightarrow> nat \<Rightarrow> encoded_row list \<Rightarrow> nat list" where
  "compute_batches max_bytes row_idx current_batch_size [] = (if 0 < current_batch_size then [row_idx] else [])"
| "compute_batches max_bytes row_idx current_batch_size (encoded_row # rows) =
     (let current_batch_size = current_batch_size + length encoded_row
      in if max_bytes \<le> current_batch_size then (row_idx + 1) # compute_batches max_bytes (row_idx + 1) 0 rows
         else compute_batches max_bytes (row_idx + 1) current_batch_size rows)"

datatype split_result = Splitted "encoded_row list list" "slicer list" | Integrate "encoded_row list" slicer

fun slicers :: "nat \<Rightarrow> nat list \<Rightarrow> slicer list" where
  "slicers prev_end [] = []"
| "slicers prev_end (end_row_index # ends) = (prev_end, end_row_index) # slicers end_row_index ends"

definition push_encoded :: "nat list \<Rightarrow> nat \<times> encoded_row \<Rightarrow> nat \<times> encoded_row list list \<Rightarrow> ('e, nat \<times> encoded_row list list) result" where
  "push_encoded ends = (\<lambda>(row_idx, encoded_row) (current, batches).
     res_bind (index_res ends current) (\<lambda>e.
       let current = (if e \<le> row_idx then current + 1 else current)
       in res_bind (index_res batches current) (\<lambda>batch. Ok (current, batches[current := batch @ [encoded_row]]))))"

definition split_rows :: "nat \<Rightarrow> encoded_row list \<Rightarrow> nat \<Rightarrow> ('e, split_result) result" where
  "split_rows max_bytes encoded_rows num_rows =
     (let ends = compute_batches max_bytes 0 0 encoded_rows
      in if length ends \<le> 1 then Ok (Integrate encoded_rows (0, num_rows))
         else res_bind (res_fold (push_encoded ends) (enumerate 0 encoded_rows) (0, replicate (length ends) [])) (\<lambda>(_, batches).
                Ok (Splitted batches (slicers 0 ends))))"

definition maybe_split_write_request :: "nat option \<Rightarrow> encoded_row list \<Rightarrow> nat \<Rightarrow> ('e, split_result) result" where
  "maybe_split_write_request max_bytes_per_write_batch encoded_rows num_rows =
     (case max_bytes_per_write_batch of
        None \<Rightarrow> Ok (Integrate encoded_rows (0, num_rows))
      | Some max_bytes \<Rightarrow> split_rows max_bytes encoded_rows num_rows)"

section \<open>The batches\<close>

text \<open>The batches that the splitter means: a batch ends with the row that makes it large enough.\<close>

fun greedy :: "nat \<Rightarrow> encoded_row list \<Rightarrow> encoded_row list \<Rightarrow> encoded_row list list" where
  "greedy max_bytes batch [] = (if batch = [] then [] else [batch])"
| "greedy max_bytes batch (r # rows) =
     (if max_bytes \<le> length (concat (batch @ [r])) then (batch @ [r]) # greedy max_bytes [] rows
      else greedy max_bytes (batch @ [r]) rows)"

fun ends_of :: "nat \<Rightarrow> encoded_row list list \<Rightarrow> nat list" where
  "ends_of p [] = []"
| "ends_of p (b # bs) = (p + length b) # ends_of (p + length b) bs"

lemma ends_of_length [simp]: "length (ends_of p bs) = length bs"
  by (induction bs arbitrary: p) simp_all

lemma compute_batches_greedy:
  "(if rows = [] then batch = [] \<or> concat batch \<noteq> [] else last rows \<noteq> []) \<Longrightarrow>
   compute_batches m (p + length batch) (length (concat batch)) rows = ends_of p (greedy m batch rows)"
proof (induction rows arbitrary: batch p)
  case (Cons r rows)
  have l: "rows \<noteq> [] \<Longrightarrow> last rows \<noteq> []" and r: "rows = [] \<Longrightarrow> r \<noteq> []" using Cons(2) by auto
  show ?case
  proof (cases "m \<le> length (concat (batch @ [r]))")
    case True
    have "compute_batches m (p + length (batch @ [r])) 0 rows = ends_of (p + length (batch @ [r])) (greedy m [] rows)"
      using Cons(1) [of "[]" "p + length (batch @ [r])"] l by simp
    then show ?thesis using True by simp
  next
    case False
    have "compute_batches m (p + length (batch @ [r])) (length (concat (batch @ [r]))) rows = ends_of p (greedy m (batch @ [r]) rows)"
      using Cons(1) [of "batch @ [r]" p] l r by (cases "rows = []") simp_all
    then show ?thesis using False by simp
  qed
qed auto

lemma greedy_concat: "concat (greedy m batch rows) = batch @ rows"
  by (induction rows arbitrary: batch) simp_all

lemma greedy_nonempty: "b \<in> set (greedy m batch rows) \<Longrightarrow> b \<noteq> []"
  by (induction rows arbitrary: batch) (auto split: if_splits)

text \<open>All rows of a batch but the last stay below the limit.\<close>

lemma greedy_small:
  "batch = [] \<or> length (concat batch) < m \<Longrightarrow> b \<in> set (greedy m batch rows) \<Longrightarrow>
   butlast b = [] \<or> length (concat (butlast b)) < m"
proof (induction rows arbitrary: batch)
  case Nil
  have "length (concat (butlast batch)) \<le> length (concat batch)"
    by (cases batch rule: rev_cases) simp_all
  then show ?case using Nil by (auto split: if_splits)
next
  case (Cons r rows)
  show ?case
  proof (cases "m \<le> length (concat (batch @ [r]))")
    case True
    then show ?thesis using Cons(1) [of "[]"] Cons(2,3) by auto
  next
    case False
    then show ?thesis using Cons(1) [of "batch @ [r]"] Cons(3) by simp
  qed
qed

section \<open>Filling the batches\<close>

lemma push_batch:
  assumes "c < length ends" and "c < length batches" and "p + length xs \<le> ends ! c"
  shows "res_fold (push_encoded ends) (enumerate p xs) (c, batches) = (Ok (c, batches[c := batches ! c @ xs]) :: ('e, _) result)"
  using assms
proof (induction xs arbitrary: p batches)
  case (Cons x xs)
  let ?b = "batches[c := batches ! c @ [x]]"
  have "push_encoded ends (p, x) (c, batches) = (Ok (c, ?b) :: ('e, _) result)"
    using Cons(2-4) by (simp add: push_encoded_def index_res_def)
  moreover have "res_fold (push_encoded ends) (enumerate (Suc p) xs) (c, ?b) = (Ok (c, ?b[c := ?b ! c @ xs]) :: ('e, _) result)"
    using Cons(2-4) by (intro Cons(1)) simp_all
  ultimately show ?case using Cons(3) by simp
qed simp

lemma push_next_batch:
  assumes "Suc c < length ends" and "Suc c < length batches" and "ends ! c = p" and "xs \<noteq> []" and "p + length xs \<le> ends ! Suc c"
  shows "res_fold (push_encoded ends) (enumerate p xs) (c, batches) = (Ok (Suc c, batches[Suc c := batches ! Suc c @ xs]) :: ('e, _) result)"
proof -
  obtain x ys where xs: "xs = x # ys" using assms(4) by (cases xs) auto
  let ?b = "batches[Suc c := batches ! Suc c @ [x]]"
  have "push_encoded ends (p, x) (c, batches) = (Ok (Suc c, ?b) :: ('e, _) result)"
    using assms(1-3) by (simp add: push_encoded_def index_res_def)
  moreover have "res_fold (push_encoded ends) (enumerate (Suc p) ys) (Suc c, ?b) = (Ok (Suc c, ?b[Suc c := ?b ! Suc c @ ys]) :: ('e, _) result)"
    using assms(1,2,5) xs by (intro push_batch) simp_all
  ultimately show ?thesis using assms(2) xs by simp
qed

lemma ends_of_append: "ends_of p (as @ bs) = ends_of p as @ ends_of (p + length (concat as)) bs"
  by (induction as arbitrary: p) (simp_all add: add.assoc)

lemma push_batches:
  assumes "\<forall>b \<in> set bs. b \<noteq> []" and "as \<noteq> []"
  shows "res_fold (push_encoded (ends_of 0 (as @ bs))) (enumerate (length (concat as)) (concat bs))
      (length as - 1, as @ replicate (length bs) []) = (Ok (length (as @ bs) - 1, as @ bs) :: ('e, _) result)"
  using assms
proof (induction bs arbitrary: as)
  case (Cons b bs)
  let ?e = "ends_of 0 (as @ b # bs)"
  obtain ps a where as: "as = ps @ [a]" using Cons(3) by (cases as rule: rev_cases) auto
  have nth: "?e ! (length as - 1) = length (concat as)" "?e ! length as = length (concat as) + length b"
    by (simp_all add: as ends_of_append nth_append)
  have "res_fold (push_encoded ?e) (enumerate (length (concat as)) b) (length as - 1, as @ replicate (length (b # bs)) []) =
      (Ok (length as, (as @ [b]) @ replicate (length bs) []) :: ('e, _) result)"
    using push_next_batch [of "length as - 1" ?e "as @ replicate (length (b # bs)) []" "length (concat as)" b, where 'e = 'e]
      Cons(2) nth by (simp add: as nth_append list_update_append)
  moreover have "res_fold (push_encoded ?e) (enumerate (length (concat (as @ [b]))) (concat bs)) (length (as @ [b]) - 1, (as @ [b]) @ replicate (length bs) []) =
      (Ok (length ((as @ [b]) @ bs) - 1, (as @ [b]) @ bs) :: ('e, _) result)"
    using Cons(1) [of "as @ [b]"] Cons(2) by simp
  ultimately show ?case by (simp add: enumerate_append_eq res_fold_append)
qed simp

lemma push_all:
  assumes "\<forall>b \<in> set bs. b \<noteq> []" and "bs \<noteq> []"
  shows "res_fold (push_encoded (ends_of 0 bs)) (enumerate 0 (concat bs)) (0, replicate (length bs) []) = (Ok (length bs - 1, bs) :: ('e, _) result)"
proof -
  obtain b cs where bs: "bs = b # cs" using assms(2) by (cases bs) auto
  have "res_fold (push_encoded (ends_of 0 bs)) (enumerate 0 b) (0, replicate (length bs) []) = (Ok (0, [b] @ replicate (length cs) []) :: ('e, _) result)"
    using push_batch [of 0 "ends_of 0 bs" "replicate (length bs) []" 0 b, where 'e = 'e] by (simp add: bs)
  then show ?thesis using push_batches [of cs "[b]", where 'e = 'e] assms(1) by (simp add: bs enumerate_append_eq res_fold_append)
qed

text \<open>The slicer of a batch spans the rows of the batch.\<close>

lemma slicers_rows:
  "map (\<lambda>(s, e). take (e - s) (drop s (pre @ concat bs))) (slicers (length pre) (ends_of (length pre) bs)) = bs"
proof (induction bs arbitrary: pre)
  case (Cons b bs)
  from Cons [of "pre @ b"] show ?case by simp
qed simp

text \<open>A batch that is not the last one reaches the limit, and so does all that comes before the last batch.\<close>

lemma greedy_full: "b \<in> set (butlast (greedy m batch rows)) \<Longrightarrow> m \<le> length (concat b)"
  by (induction rows arbitrary: batch) (auto split: if_splits)

lemma greedy_several:
  assumes "1 < length (greedy m [] rows)"
  shows "butlast rows \<noteq> [] \<and> m \<le> length (concat (butlast rows))"
proof -
  obtain b bs where g: "greedy m [] rows = b # bs" "bs \<noteq> []" using assms by (cases "greedy m [] rows") auto
  obtain c where "c \<in> set bs" using g(2) by (cases bs) auto
  then have "c \<noteq> []" using greedy_nonempty [of c m "[]" rows] g(1) by simp
  then have ne: "concat bs \<noteq> []" using \<open>c \<in> set bs\<close> by auto
  have rows: "rows = b @ concat bs" using greedy_concat [of m "[]" rows] g(1) by simp
  have "butlast rows = b @ butlast (concat bs)" unfolding rows butlast_append using ne by (rule if_not_P)
  moreover have "b \<noteq> []" using greedy_nonempty [of b m "[]" rows] g(1) by simp
  moreover have "m \<le> length (concat b)" using greedy_full [of b m "[]" rows] g by simp
  ultimately show ?thesis by simp
qed

lemma greedy_single:
  assumes "length (greedy m [] rows) \<le> 1"
  shows "butlast rows = [] \<or> length (concat (butlast rows)) < m"
proof (cases "greedy m [] rows")
  case Nil
  then show ?thesis using greedy_concat [of m "[]" rows] by simp
next
  case (Cons b bs)
  then have "bs = []" using assms by simp
  then show ?thesis using Cons greedy_concat [of m "[]" rows] greedy_small [of "[]" m b rows] by simp
qed

text \<open>
  C17. Splitting a write request loses, repeats and reorders nothing.  A request whose last row is
  not empty does not make it panic.  It stays whole exactly when it has at most one row or its rows
  but the last stay below the limit.  Otherwise the batches of encoded rows are the request cut into
  non-empty pieces, the slicer of each batch spans exactly the rows of that batch, the rows of a
  batch but its last stay below the limit, and every batch but the last one reaches it: a batch
  exceeds the limit by at most one row.
\<close>

theorem write_split:
  assumes "rows \<noteq> [] \<longrightarrow> last rows \<noteq> []" and "split_rows max_bytes rows (length rows) = (r :: ('e, _) result)"
  shows "if butlast rows = [] \<or> length (concat (butlast rows)) < max_bytes then r = Ok (Integrate rows (0, length rows))
    else \<exists>batches slices. r = Ok (Splitted batches slices) \<and> concat batches = rows \<and> 1 < length batches \<and>
       map (\<lambda>(s, e). take (e - s) (drop s rows)) slices = batches \<and>
       (\<forall>b \<in> set batches. b \<noteq> [] \<and> (butlast b = [] \<or> length (concat (butlast b)) < max_bytes)) \<and>
       (\<forall>b \<in> set (butlast batches). max_bytes \<le> length (concat b))"
proof -
  let ?bs = "greedy max_bytes [] rows"
  have e: "compute_batches max_bytes 0 0 rows = ends_of 0 ?bs"
    using compute_batches_greedy [of rows "[]" max_bytes 0] assms(1) by (simp split: if_splits)
  have c: "concat ?bs = rows" by (simp add: greedy_concat)
  show ?thesis
  proof (cases "length ?bs \<le> 1")
    case True
    then show ?thesis using assms(2) greedy_single by (simp add: split_rows_def e)
  next
    case False
    then have ne: "?bs \<noteq> []" by auto
    have "r = Ok (Splitted ?bs (slicers 0 (ends_of 0 ?bs)))"
      using push_all [OF _ ne, where 'e = 'e] greedy_nonempty [of _ max_bytes "[]" rows] False assms(2) by (auto simp: split_rows_def e c)
    moreover have "map (\<lambda>(s, e). take (e - s) (drop s rows)) (slicers 0 (ends_of 0 ?bs)) = ?bs"
      using slicers_rows [of "[]" ?bs] by (simp add: c)
    moreover have "\<forall>b \<in> set ?bs. b \<noteq> [] \<and> (butlast b = [] \<or> length (concat (butlast b)) < max_bytes)"
      using greedy_nonempty [of _ max_bytes "[]" rows] greedy_small [of "[]" max_bytes _ rows] by blast
    moreover have "\<forall>b \<in> set (butlast ?bs). max_bytes \<le> length (concat b)" using greedy_full [of _ max_bytes "[]" rows] by blast
    moreover have "\<not> (butlast rows = [] \<or> length (concat (butlast rows)) < max_bytes)" using greedy_several [of max_bytes rows] False by simp
    ultimately show ?thesis using c False by auto
  qed
qed

theorem write_split_witness:
  "(case split_rows 2 [[1], [2, 2], [3, 3, 3]] 3 :: (unit, _) result of
      Ok (Splitted batches slices) \<Rightarrow> concat batches = [[1], [2, 2], [3, 3, 3]] \<and> batches = [[[1], [2, 2]], [[3, 3, 3]]] \<and> slices = [(0, 2), (2, 3)]
    | _ \<Rightarrow> False)"
  using write_split [of "[[1], [2, 2], [3, 3, 3]]" 2, where 'e = unit, OF _ refl]
  by (simp add: split_rows_def push_encoded_def index_res_def)

text \<open>An empty last row, which no schema encodes to, would run past the last batch.\<close>

lemma write_split_empty_row: "split_rows 2 [[1, 1], [2, 2], []] 3 = (Panic :: ('e, _) result)"
  by (simp add: split_rows_def push_encoded_def index_res_def)

end
