(* ===== verification/Spec2Isabelle.thy ===== *)
theory Spec2Isabelle
  imports Contiguous_Row Row_Codec Sampler Compaction Read_Path Id_Allocator Write_Split
begin

text \<open>
  A verification of the storage engine of CeresDB, a time-series database in Rust.

  \<^bold>\<open>The program.\<close> A row that is written to a table is checked against the table schema, encoded for the
  write-ahead log and put into a memtable: its key columns, encoded so that bytes compare like
  values, and its sequence form the internal key, its columns one contiguous buffer, and both go into
  a skip list. Memtables are flushed to sorted files (SSTs), which levels hold and compaction merges;
  a version of a table is its memtables and its levels, changed by edits that are also persisted in
  the manifest. A read merges the memtables and files of a version in key order and keeps the newest
  row of each key.

  \<^bold>\<open>How the code is modelled.\<close> Each theory translates the functions of the files that it names, with
  their guards and early returns. A struct is a record, an enum a datatype, and state is passed and
  returned. A fallible call returns a \<open>result\<close>: a value, an error of the source, or \<open>Panic\<close> (a failed
  \<open>assert!\<close> or \<open>unwrap\<close>, an index out of range, an arithmetic overflow, for which the workspace enables
  the check in every profile). Machine integers are words where their bits matter, and otherwise
  integers whose range is checked where the code would overflow. Shared pointers are addresses into an
  explicit store: nodes of the skip list, flags of file handles, memtables of a version.

  \<^bold>\<open>The theories\<close>, in the order of their imports:
  \<^item> \<open>Prelude\<close>: results, words, byte order, lemmas on folds of fallible steps.
  \<^item> \<open>Bytes_Ext\<close> (\<^verbatim>\<open>components/bytes_ext\<close>): read and write buffers, and the locales \<open>codec\<close> and
    \<open>ordered_codec\<close>, the contract of an encoder and its decoder, which every codec below interprets.
  \<^item> \<open>Varint\<close> (\<^verbatim>\<open>common_util/src/codec/varint.rs\<close>): round trip, length, and exactly when decoding panics.
  \<^item> \<open>Datum\<close> (\<^verbatim>\<open>common_types/src/datum.rs\<close>): kinds, values and their order.
  \<^item> \<open>Memcomparable\<close>, \<open>Compact\<close>, \<open>Row_Codec\<close> (\<^verbatim>\<open>common_util/src/codec\<close>): the key format, which preserves
    the order of values; the value format; rows of the log, and the successor of a key prefix.
  \<^item> \<open>Schema\<close> (\<^verbatim>\<open>common_types/src/schema.rs\<close>, \<^verbatim>\<open>column_schema.rs\<close>, \<^verbatim>\<open>row/mod.rs\<close>): schemas, their
    builder, which only builds well-formed schemas, their protobuf form, the check that a writer is
    compatible, row groups.
  \<^item> \<open>Contiguous_Row\<close> (\<^verbatim>\<open>common_types/src/row/contiguous.rs\<close>, \<^verbatim>\<open>bitset.rs\<close>): a row in one buffer. Where the
    bits of null columns are in place the reader returns what was written; where the writer lacks a
    column it returns the value of another one.
  \<^item> \<open>Record_Batch\<close> (\<^verbatim>\<open>common_types/src/record_batch.rs\<close>, \<^verbatim>\<open>column.rs\<close>, \<^verbatim>\<open>projected_schema.rs\<close>): column
    builders, batches, projections.
  \<^item> \<open>Btree\<close>: the operations of ordered maps that the engine uses, locale \<open>ordered_map\<close>.
  \<^item> \<open>Skiplist\<close> (\<^verbatim>\<open>components/skiplist/src/list.rs\<close>): towers of pointers, search, insertion and cursors.
    The invariant says that each level is a sublist of the level below; the list implements an ordered
    map. Locale \<open>cursor_store\<close> is what the memtable uses of it.
  \<^item> \<open>Memtable\<close> (\<^verbatim>\<open>analytic_engine/src/memtable\<close>): internal keys, puts and the columnar scan, which
    returns the newest visible row of each key.
  \<^item> \<open>Row_Iter\<close>, \<open>Read_Path\<close> (\<^verbatim>\<open>analytic_engine/src/row_iter\<close>): the merge iterator with its hot and cold
    heaps, deduplication, the chain iterator. Locale \<open>batch_iterator\<close> is what deduplication uses of the
    iterator below it; the merge and the chain iterator interpret it.
  \<^item> \<open>Time_Range\<close> (\<^verbatim>\<open>common_types/src/time.rs\<close>) and \<open>Sampler\<close> (\<^verbatim>\<open>analytic_engine/src/sampler.rs\<close>): buckets of
    time, the duration suggested for the segments of a table, and exactly when the sampler panics.
  \<^item> \<open>Sst_File\<close> (\<^verbatim>\<open>analytic_engine/src/sst/file.rs\<close>, \<^verbatim>\<open>sst/manager.rs\<close>): file handles, levels, purging.
  \<^item> \<open>Compaction\<close> (\<^verbatim>\<open>analytic_engine/src/compaction\<close>): the pickers and the flags that keep tasks apart, as
    a step relation over picks, finished tasks, flushes and edits.
  \<^item> \<open>Table_Version\<close> (\<^verbatim>\<open>analytic_engine/src/table/version.rs\<close>, \<^verbatim>\<open>version_edit.rs\<close>) and \<open>Id_Allocator\<close>
    (\<^verbatim>\<open>common_util/src/id_allocator.rs\<close>): edits, read view, snapshot and recovery; fresh file ids.
  \<^item> \<open>Write_Split\<close> (\<^verbatim>\<open>analytic_engine/src/instance/write.rs\<close>): splitting a large write request.

  \<^bold>\<open>Loops.\<close> Recursion that is structural or has a measure is total. Loops over pointers and heaps are
  partial functions with \<open>None\<close> for a call that does not return; that they return on every reachable
  state is part of the theorems. The functions that drain an iterator take a number of calls; the
  theorems give one that is enough, one more than the number of rows or batches.

  \<^bold>\<open>Parameters.\<close> Code that is not part of the repository is an argument, with what is relied on as a
  named predicate: \<open>pb_api_ok\<close> (numbers of the generated protobuf enum, serde's JSON of an expression),
  \<open>arrow_accepts\<close> and \<open>arrow_reads\<close> (arrow takes well-typed columns and returns their values; the keys of
  its dictionaries stand for distinct values), \<open>heap_ok\<close> (a binary heap has a greatest element on top),
  \<open>usort_ok\<close> (an unstable sort sorts), and \<open>float_env\<close>, of which nothing is assumed. Each of them has an
  instance in the witness of a theorem that uses it.

  \<^bold>\<open>What is not modelled.\<close> Concurrent writers of one skip list (the memtable has a single writer) and the
  arena behind it; the reversed scan of a memtable and scans from an excluded start key (the
  definitions handle the latter, the theorems do not cover it); the Arrow and Parquet forms of data;
  the asynchronous orchestration of flushes, compactions, the log and the manifest, whose effects on a
  table are the edits of \<open>Table_Version\<close>; SQL front ends, query execution, catalogs, cluster and server.

  \<^bold>\<open>Failures.\<close> Where the code panics or returns a wrong value, the theorems describe the inputs: over-long
  varints, the successor of a key that ends in 0xFF, the maximum timestamp of a row group before the
  epoch, columns that a writer leaves out (contiguous rows and keys of the memtable), timestamps too
  far apart for the sampler, and levels whose files end before the epoch (time-window picker).
\<close>

end
